(* ===== verification/Prelude.thy ===== *)
theory Prelude
  imports Complex_Main "HOL-Library.Word" "HOL-Library.AList" "HOL-Library.Sublist" "HOL-Library.Signed_Division"
begin

text \<open>
  What the components share: the fact collections of the development, machine integer
  types, the parts of the C and C++ standard library that the sources call (character
  classification in the "C" locale, \<open>std::string\<close> searches, \<open>istringstream\<close>
  tokens, \<open>strtol\<close>, decimal conversions of \<open>printf\<close>), byte literals for
  the UTF-8 message texts, and \<open>std::unordered_map\<close> as an association list behind
  the interface \<open>hash_map\<close>.
\<close>

section \<open>Fact collections and types\<close>

named_theorems op_defs \<open>definitions of the model's operations, for unfolding\<close>
named_theorems inv_intros \<open>an operation keeps the invariant of its component\<close>
named_theorems abs_simps \<open>an operation computes the abstract one on the abstraction\<close>
named_theorems eval_simps \<open>equations that evaluate closed instances\<close>

type_synonym u32 = "32 word"
type_synonym u64 = "64 word"
type_synonym fd = int
type_synonym errno = nat

lemma map_prod_eq_Pair: "map_prod f g x = (a, b) \<longleftrightarrow> f (fst x) = a \<and> g (snd x) = b"
  by (cases x) auto

section \<open>Byte strings\<close>

text \<open>A C++ \<open>std::string\<close> is a \<open>string\<close> of HOL: a list of 8-bit characters.\<close>

abbreviation NUL :: char where "NUL \<equiv> CHR 0x00"
abbreviation BS :: char where "BS \<equiv> CHR 0x08"
abbreviation TAB :: char where "TAB \<equiv> CHR 0x09"
abbreviation LF :: char where "LF \<equiv> CHR 0x0A"
abbreviation FF :: char where "FF \<equiv> CHR 0x0C"
abbreviation CR :: char where "CR \<equiv> CHR 0x0D"
abbreviation DQ :: char where "DQ \<equiv> CHR 0x22"
abbreviation BSL :: char where "BSL \<equiv> CHR 0x5C"
abbreviation CRLF :: string where "CRLF \<equiv> [CR, LF]"

abbreviation byte_val :: "char \<Rightarrow> nat" where "byte_val c \<equiv> of_char c"

definition bytes :: "nat list \<Rightarrow> string" where
  "bytes = map char_of"

subsection \<open>Character classes in the C locale\<close>

definition isspace :: "char \<Rightarrow> bool" where
  "isspace c \<longleftrightarrow> byte_val c = 32 \<or> (9 \<le> byte_val c \<and> byte_val c \<le> 13)"

definition isdigit :: "char \<Rightarrow> bool" where
  "isdigit c \<longleftrightarrow> 48 \<le> byte_val c \<and> byte_val c \<le> 57"

definition isupper :: "char \<Rightarrow> bool" where
  "isupper c \<longleftrightarrow> 65 \<le> byte_val c \<and> byte_val c \<le> 90"

definition islower :: "char \<Rightarrow> bool" where
  "islower c \<longleftrightarrow> 97 \<le> byte_val c \<and> byte_val c \<le> 122"

definition isalnum :: "char \<Rightarrow> bool" where
  "isalnum c \<longleftrightarrow> isdigit c \<or> isupper c \<or> islower c"

definition tolower :: "char \<Rightarrow> char" where
  "tolower c = (if isupper c then char_of (byte_val c + 32) else c)"

lemma isspace_LF [simp]: "isspace LF" and isspace_CR [simp]: "isspace CR"
  and isspace_blank [simp]: "isspace (CHR '' '')" and isspace_TAB [simp]: "isspace TAB"
  by (simp_all add: isspace_def)

lemma code_char_of [simp]: "n < 256 \<Longrightarrow> byte_val (char_of n) = n"
  by (simp add: of_char_of)

lemma isupper_tolower [simp]: "\<not> isupper (tolower c)"
  by (auto simp: tolower_def isupper_def)

lemma tolower_idem [simp]: "tolower (tolower c) = tolower c"
  by (simp add: tolower_def [of "tolower c"])

lemma isspace_tolower [simp]: "isspace (tolower c) = isspace c"
  by (auto simp: tolower_def isupper_def isspace_def)

subsection \<open>Searching\<close>

text \<open>\<open>std::find_if\<close> on a list, as an offset.\<close>

primrec first_index :: "('a \<Rightarrow> bool) \<Rightarrow> 'a list \<Rightarrow> nat option" where
  "first_index P [] = None"
| "first_index P (x # xs) = (if P x then Some 0 else map_option Suc (first_index P xs))"

lemma first_index_None: "first_index P xs = None \<longleftrightarrow> (\<forall>x \<in> set xs. \<not> P x)"
  by (induction xs) auto

lemma first_index_SomeD:
  "first_index P xs = Some i \<Longrightarrow> i < length xs \<and> P (xs ! i) \<and> (\<forall>x \<in> set (take i xs). \<not> P x)"
  by (induction xs arbitrary: i) (auto split: if_splits)

lemma first_index_SomeI:
  "\<lbrakk>i < length xs; P (xs ! i); \<forall>x \<in> set (take i xs). \<not> P x\<rbrakk> \<Longrightarrow> first_index P xs = Some i"
proof (induction xs arbitrary: i)
  case (Cons x xs)
  then show ?case by (cases i) auto
qed simp

lemma first_index_less: "first_index P xs = Some i \<Longrightarrow> i < length xs"
  by (simp add: first_index_SomeD)

lemma first_index_append:
  "first_index P (xs @ ys) =
     (case first_index P xs of Some i \<Rightarrow> Some i
      | None \<Rightarrow> map_option (\<lambda>i. length xs + i) (first_index P ys))"
proof (induction xs)
  case Nil
  show ?case by (cases "first_index P ys") auto
next
  case (Cons x xs)
  then show ?case
    by (cases "first_index P xs"; cases "first_index P ys") auto
qed

lemma first_index_append_Some:
  "first_index P xs = Some i \<Longrightarrow> first_index P (xs @ ys) = Some i"
  by (simp add: first_index_append)

lemma first_index_hit:
  "\<forall>x \<in> set xs. \<not> P x \<Longrightarrow> P y \<Longrightarrow> first_index P (xs @ y # ys) = Some (length xs)"
  by (induction xs) auto

lemma first_index_split:
  "first_index (\<lambda>x. x = c) xs = Some i \<longleftrightarrow> (\<exists>l r. xs = l @ c # r \<and> c \<notin> set l \<and> i = length l)"
proof
  assume "first_index (\<lambda>x. x = c) xs = Some i"
  from first_index_SomeD [OF this] id_take_nth_drop [of i xs]
  have "xs = take i xs @ c # drop (Suc i) xs" "c \<notin> set (take i xs)" "i = length (take i xs)"
    by auto
  then show "\<exists>l r. xs = l @ c # r \<and> c \<notin> set l \<and> i = length l" by blast
next
  assume "\<exists>l r. xs = l @ c # r \<and> c \<notin> set l \<and> i = length l"
  then obtain l r where "xs = l @ c # r" "c \<notin> set l" "i = length l" by blast
  then show "first_index (\<lambda>x. x = c) xs = Some i"
    by (simp add: first_index_hit [where P = "\<lambda>x. x = c"] ball_conj_distrib)
      (metis (mono_tags, lifting) first_index_hit)
qed

text \<open>\<open>s.find(c, pos)\<close>: the first position of a character from \<open>pos\<close> on.\<close>

definition find_char :: "char \<Rightarrow> string \<Rightarrow> nat \<Rightarrow> nat option" where
  "find_char c s pos = map_option (\<lambda>i. pos + i) (first_index (\<lambda>x. x = c) (drop pos s))"

text \<open>\<open>s.find(needle)\<close>: the first position of a substring.\<close>

fun find_sub :: "string \<Rightarrow> string \<Rightarrow> nat option" where
  "find_sub needle [] = (if needle = [] then Some 0 else None)"
| "find_sub needle (x # xs) =
     (if prefix needle (x # xs) then Some 0 else map_option Suc (find_sub needle xs))"

lemma find_sub_SomeD:
  "find_sub needle s = Some i \<Longrightarrow> i \<le> length s \<and> prefix needle (drop i s)"
  by (induction needle s arbitrary: i rule: find_sub.induct) (auto split: if_splits)

lemma find_sub_None: "find_sub needle s = None \<longleftrightarrow> \<not> sublist needle s"
  by (induction needle s rule: find_sub.induct) (auto simp: sublist_Cons_right)

text \<open>\<open>s.find_first_not_of(set)\<close> and \<open>s.find_last_not_of(set)\<close>.\<close>

definition find_first_not_of :: "string \<Rightarrow> string \<Rightarrow> nat option" where
  "find_first_not_of cs s = first_index (\<lambda>x. x \<notin> set cs) s"

definition find_last_not_of :: "string \<Rightarrow> string \<Rightarrow> nat option" where
  "find_last_not_of cs s =
     map_option (\<lambda>i. length s - 1 - i) (first_index (\<lambda>x. x \<notin> set cs) (rev s))"

text \<open>\<open>s.rfind(p, 0) == 0\<close>: \<open>s\<close> begins with \<open>p\<close>.\<close>

abbreviation starts_with :: "string \<Rightarrow> string \<Rightarrow> bool" where
  "starts_with s p \<equiv> prefix p s"

subsection \<open>Tokens of an input stream\<close>

text \<open>
  Repeated \<open>iss >> word\<close>: skip white space, then take characters up to the next white
  space; the extraction fails when nothing is left.
\<close>

function tokens :: "string \<Rightarrow> string list" where
  "tokens s =
     (let t = dropWhile isspace s
      in if t = [] then []
         else takeWhile (\<lambda>c. \<not> isspace c) t # tokens (dropWhile (\<lambda>c. \<not> isspace c) t))"
  by pat_completeness auto
termination
proof (relation "measure length")
  fix s :: string and t
  assume t: "t = dropWhile isspace s" and "t \<noteq> []"
  then have "\<not> isspace (hd t)" using hd_dropWhile by metis
  with \<open>t \<noteq> []\<close> have "length (dropWhile (\<lambda>c. \<not> isspace c) t) < length t"
    by (cases t) (auto simp: le_imp_less_Suc length_dropWhile_le)
  also have "length t \<le> length s" by (simp add: t length_dropWhile_le)
  finally show "(dropWhile (\<lambda>c. \<not> isspace c) t, s) \<in> measure length" by simp
qed simp

declare tokens.simps [simp del]

lemma tokens_Nil [simp]: "tokens [] = []"
  by (subst tokens.simps) simp

lemma tokens_space [simp]: "isspace c \<Longrightarrow> tokens (c # s) = tokens s"
  by (subst (1 2) tokens.simps) simp

lemma tokens_word:
  assumes "w \<noteq> []" "\<forall>c \<in> set w. \<not> isspace c" "s = [] \<or> isspace (hd s)"
  shows "tokens (w @ s) = w # tokens s"
proof -
  have d: "dropWhile isspace (w @ s) = w @ s"
    using assms(1,2) by (cases w) auto
  have "takeWhile (\<lambda>c. \<not> isspace c) (w @ s) = w" "dropWhile (\<lambda>c. \<not> isspace c) (w @ s) = s"
    using assms(2,3) by (cases s; auto simp: takeWhile_append dropWhile_append)+
  with d assms(1) show ?thesis
    by (subst tokens.simps) (auto simp: Let_def)
qed

lemma tokens_step:
  "dropWhile isspace s \<noteq> [] \<Longrightarrow> tokens s =
     takeWhile (\<lambda>c. \<not> isspace c) (dropWhile isspace s) #
     tokens (dropWhile (\<lambda>c. \<not> isspace c) (dropWhile isspace s))"
  by (subst tokens.simps) (simp only: Let_def if_False)

lemma tokens_wf: "w \<in> set (tokens s) \<Longrightarrow> w \<noteq> [] \<and> (\<forall>c \<in> set w. \<not> isspace c)"
proof (induction s rule: tokens.induct)
  case (1 s)
  let ?t = "dropWhile isspace s"
  show ?case
  proof (cases "?t = []")
    case True
    with "1.prems" show ?thesis by (subst (asm) tokens.simps) simp
  next
    case False
    then have "\<not> isspace (hd ?t)" using hd_dropWhile by metis
    with False have "takeWhile (\<lambda>c. \<not> isspace c) ?t \<noteq> []" by (cases ?t) auto
    moreover have "w = takeWhile (\<lambda>c. \<not> isspace c) ?t \<or> w \<in> set (tokens (dropWhile (\<lambda>c. \<not> isspace c) ?t))"
      using "1.prems" unfolding tokens_step [OF False] by simp
    moreover have "\<forall>c \<in> set (takeWhile (\<lambda>c. \<not> isspace c) ?t). \<not> isspace c"
      by (blast dest: set_takeWhileD)
    ultimately show ?thesis using 1(1) [OF refl False] by metis
  qed
qed

subsection \<open>Numbers\<close>

text \<open>\<open>c_str()\<close> as a C function reads it: up to the first NUL.\<close>

definition c_str :: "string \<Rightarrow> string" where
  "c_str s = takeWhile (\<lambda>c. c \<noteq> NUL) s"

fun dec_val :: "int \<Rightarrow> string \<Rightarrow> int" where
  "dec_val v [] = v"
| "dec_val v (c # cs) = dec_val (10 * v + (int (byte_val c) - 48)) cs"

text \<open>
  \<open>strtol(s, &endp, 10)\<close> with a 64-bit \<open>long\<close>: \<open>None\<close> when no digit was
  converted (\<open>endp == s\<close>), otherwise the value, saturated to the range of \<open>long\<close>.
\<close>

definition strtol10 :: "string \<Rightarrow> int option" where
  "strtol10 s =
     (let t = dropWhile isspace (c_str s);
          neg = (t \<noteq> [] \<and> hd t = CHR ''-'');
          u = (if t \<noteq> [] \<and> (hd t = CHR ''-'' \<or> hd t = CHR ''+'') then tl t else t);
          ds = takeWhile isdigit u;
          v = (if neg then - dec_val 0 ds else dec_val 0 ds)
      in if ds = [] then None else Some (max (- (2 ^ 63)) (min (2 ^ 63 - 1) v)))"

text \<open>Decimal output: \<open>%d\<close>, \<open>%zu\<close>, \<open>%llu\<close> and \<open>%lld\<close>.\<close>

fun show_nat :: "nat \<Rightarrow> string" where
  "show_nat n = (if n < 10 then [char_of (48 + n)]
                 else show_nat (n div 10) @ [char_of (48 + n mod 10)])"

declare show_nat.simps [simp del]

definition show_int :: "int \<Rightarrow> string" where
  "show_int i = (if i < 0 then CHR ''-'' # show_nat (nat (- i)) else show_nat (nat i))"

lemma show_nat_digits: "\<forall>c \<in> set (show_nat n). isdigit c"
proof (induction n rule: show_nat.induct)
  case (1 n)
  have "n < 10 \<Longrightarrow> isdigit (char_of (48 + n))" and "isdigit (char_of (48 + n mod 10))"
    by (auto simp: isdigit_def)
  with 1 show ?case by (subst show_nat.simps) auto
qed

lemma show_nat_nonempty [simp]: "show_nat n \<noteq> []"
  by (subst show_nat.simps) simp

lemma dec_val_append: "dec_val v (xs @ ys) = dec_val (dec_val v xs) ys"
  by (induction xs arbitrary: v) auto

lemma dec_val_show_nat: "dec_val 0 (show_nat n) = int n"
proof (induction n rule: show_nat.induct)
  case (1 n)
  have [simp]: "byte_val (char_of (48 + n mod 10)) = 48 + n mod 10" by simp
  show ?case
  proof (cases "n < 10")
    case True
    then show ?thesis by (subst show_nat.simps) simp
  next
    case False
    have "10 * int (n div 10) + int (n mod 10) = int n"
      by (metis mult_div_mod_eq of_nat_add of_nat_mult of_nat_numeral)
    with 1 False show ?thesis by (subst show_nat.simps) (simp add: dec_val_append)
  qed
qed

text \<open>\<open>strtol\<close> reads back what \<open>printf\<close> wrote, for values a \<open>long\<close> can hold.\<close>

lemma isdigit_not_space: "isdigit c \<Longrightarrow> \<not> isspace c"
  by (auto simp: isdigit_def isspace_def)

lemma isdigit_not_sign: "isdigit c \<Longrightarrow> c \<noteq> NUL \<and> c \<noteq> CHR ''-'' \<and> c \<noteq> CHR ''+''"
  by (auto simp: isdigit_def)

lemma strtol10_show_nat:
  assumes "int n < 2 ^ 63"
  shows "strtol10 (show_nat n) = Some (int n)"
proof -
  let ?s = "show_nat n"
  have dig: "\<forall>c \<in> set ?s. isdigit c" by (rule show_nat_digits)
  obtain c cs where s: "?s = c # cs" by (cases ?s) auto
  have c: "c_str ?s = ?s"
    using dig by (auto simp: c_str_def takeWhile_eq_all_conv dest: isdigit_not_sign)
  have t: "takeWhile isdigit ?s = ?s"
    using dig by (simp add: takeWhile_eq_all_conv)
  have "isdigit c" using dig s by simp
  then have "\<not> isspace c" "c \<noteq> CHR ''-''" "c \<noteq> CHR ''+''"
    using isdigit_not_space isdigit_not_sign by blast+
  then show ?thesis
    using c t assms dec_val_show_nat [of n] by (simp add: strtol10_def Let_def s)
qed

section \<open>Blocks of memory\<close>

text \<open>
  \<open>memcpy\<close> or \<open>memmove\<close> of the bytes \<open>ys\<close> to offset \<open>i\<close> of an
  array. The code must keep \<open>i + length ys\<close> within the array; the components prove it
  where they copy.
\<close>

definition blit :: "'a list \<Rightarrow> nat \<Rightarrow> 'a list \<Rightarrow> 'a list" where
  "blit xs i ys = take i xs @ ys @ drop (i + length ys) xs"

lemma length_blit [simp]: "i + length ys \<le> length xs \<Longrightarrow> length (blit xs i ys) = length xs"
  by (simp add: blit_def)

lemma blit_Nil [simp]: "i \<le> length xs \<Longrightarrow> blit xs i [] = xs"
  by (simp add: blit_def)

lemma window_blit:
  assumes "r \<le> w" "w \<le> length xs"
  shows "take (w + length ys - r) (drop r (blit xs w ys)) = take (w - r) (drop r xs) @ ys"
  using assms by (simp add: blit_def min_def take_drop)

text \<open>\<open>std::vector<char>::resize\<close>: cut, or filled up with zero bytes.\<close>

definition resize :: "nat \<Rightarrow> string \<Rightarrow> string" where
  "resize n xs = take n xs @ replicate (n - length xs) NUL"

lemma length_resize [simp]: "length (resize n xs) = n"
  by (simp add: resize_def)

lemma take_resize: "k \<le> n \<Longrightarrow> k \<le> length xs \<Longrightarrow> take k (resize n xs) = take k xs"
  by (simp add: resize_def min_def)

section \<open>Hash maps\<close>

text \<open>
  \<open>std::unordered_map\<close>: the operations the sources use and what they rely on. The
  lemmas of the locale are what the clients (the short-link tables, the connection table,
  the sharded parser table) need.
\<close>

locale hash_map =
  fixes find :: "'m \<Rightarrow> 'k \<Rightarrow> 'v option"
    and put :: "'k \<Rightarrow> 'v \<Rightarrow> 'm \<Rightarrow> 'm"
    and erase :: "'k \<Rightarrow> 'm \<Rightarrow> 'm"
    and count :: "'m \<Rightarrow> nat"
    and ok :: "'m \<Rightarrow> bool"
    and none :: "'m"
  assumes find_none: "find none k = None"
    and find_put: "ok m \<Longrightarrow> find (put k v m) k' = (if k' = k then Some v else find m k')"
    and find_erase: "ok m \<Longrightarrow> find (erase k m) k' = (if k' = k then None else find m k')"
    and ok_none: "ok none"
    and ok_put: "ok m \<Longrightarrow> ok (put k v m)"
    and ok_erase: "ok m \<Longrightarrow> ok (erase k m)"
    and count_dom: "ok m \<Longrightarrow> finite (dom (find m)) \<and> count m = card (dom (find m))"
begin

lemma dom_put: "ok m \<Longrightarrow> dom (find (put k v m)) = insert k (dom (find m))"
  by (auto simp: find_put dom_def)

lemma dom_erase: "ok m \<Longrightarrow> dom (find (erase k m)) = dom (find m) - {k}"
  by (auto simp: find_erase dom_def)

lemma count_put_new: "\<lbrakk>ok m; find m k = None\<rbrakk> \<Longrightarrow> count (put k v m) = Suc (count m)"
  using count_dom [of m] count_dom [of "put k v m"]
  by (simp add: dom_put ok_put domIff)

lemma count_put_old: "\<lbrakk>ok m; find m k = Some w\<rbrakk> \<Longrightarrow> count (put k v m) = count m"
  using count_dom [of m] count_dom [of "put k v m"]
  by (simp add: dom_put ok_put insert_absorb domI)

lemma count_erase_old: "\<lbrakk>ok m; find m k = Some w\<rbrakk> \<Longrightarrow> Suc (count (erase k m)) = count m"
proof -
  assume m: "ok m" "find m k = Some w"
  have "count (erase k m) = card (dom (find m) - {k})"
    using m by (simp add: count_dom ok_erase dom_erase)
  then show ?thesis
    using m card_Suc_Diff1 [of "dom (find m)" k] by (simp add: count_dom domI)
qed

lemma find_put_erase: "ok m \<Longrightarrow> find (erase k (put k v m)) = (find m)(k := None)"
  by (auto simp: fun_eq_iff find_erase ok_put find_put)

end

text \<open>
  The model: an association list without duplicate keys. Its order stands for the
  unspecified iteration order of the C++ container.
\<close>

type_synonym ('k, 'v) umap = "('k \<times> 'v) list"

abbreviation um_find :: "('k, 'v) umap \<Rightarrow> 'k \<Rightarrow> 'v option" where
  "um_find \<equiv> map_of"
abbreviation um_put :: "'k \<Rightarrow> 'v \<Rightarrow> ('k, 'v) umap \<Rightarrow> ('k, 'v) umap" where
  "um_put \<equiv> AList.update"
abbreviation um_erase :: "'k \<Rightarrow> ('k, 'v) umap \<Rightarrow> ('k, 'v) umap" where
  "um_erase \<equiv> AList.delete"
abbreviation um_size :: "('k, 'v) umap \<Rightarrow> nat" where
  "um_size \<equiv> length"
abbreviation um_ok :: "('k, 'v) umap \<Rightarrow> bool" where
  "um_ok m \<equiv> distinct (map fst m)"

interpretation um: hash_map um_find um_put um_erase um_size um_ok "[]"
proof unfold_locales
  fix m :: "('k, 'v) umap"
  assume "um_ok m"
  then have "card (set (map fst m)) = um_size m" by (simp only: distinct_card length_map)
  then show "finite (dom (um_find m)) \<and> um_size m = card (dom (um_find m))"
    by (simp add: dom_map_of_conv_image_fst)
qed (auto simp: update_conv' delete_conv' distinct_update distinct_delete)

declare map_of_eq_Some_iff [simp del] Some_eq_map_of_iff [simp del]

text \<open>Counters: one step of a 64-bit word that does not wrap.\<close>

lemma unat_plus_1: "c \<noteq> (-1 :: u64) \<Longrightarrow> unat (c + 1) = Suc (unat c)"
  by (metis add.commute add_eq_0_iff unatSuc)

lemma plus_1_gt: "c \<noteq> (-1 :: u64) \<Longrightarrow> c < c + 1"
  by (simp add: word_less_nat_alt unat_plus_1)

lemma le_plus_1: "c \<noteq> (-1 :: u64) \<Longrightarrow> n \<le> c + 1 \<longleftrightarrow> n = c + 1 \<or> n \<le> c"
  by (auto simp: word_le_nat_alt unat_plus_1 word_unat_eq_iff le_Suc_eq)

end
