(* ===== verification/Buffer.thy ===== *)
theory Buffer
  imports Prelude
begin

text \<open>
  \<open>src/Buffer.cc\<close> and \<open>include/mini_net/Buffer.h\<close>: the application buffer, a
  vector with a read and a write index. A \<open>const char*\<close> into the buffer is modelled as
  its offset from the start of the vector. The abstraction \<open>contents\<close> is the byte
  string between the indices; the interface \<open>byte_queue\<close> says that the operations are
  those of a first-in first-out queue of bytes, and is interpreted on the model.

  Sizes and indices (\<open>size_t\<close>) are natural numbers: those of a vector in memory stay below \<open>2 ^ 63\<close>. A request
  for more ends in \<open>std::length_error\<close> or \<open>std::bad_alloc\<close>, which nothing catches and which is not modelled; the sum
  \<open>n + 1\<close> in \<open>makeSpace\<close> would only wrap for \<open>n = 2 ^ 64 - 1\<close>, which no caller asks for.
\<close>

section \<open>State and operations\<close>

record buffer =
  vec :: string
  read_idx :: nat
  write_idx :: nat

definition kInitialSize :: nat where "kInitialSize = 1024"
definition kExtraBufSize :: nat where "kExtraBufSize = 65536"

definition new_Buffer :: "nat \<Rightarrow> buffer" where
  "new_Buffer initial_size =
     \<lparr>vec = replicate (max initial_size kInitialSize) NUL, read_idx = 0, write_idx = 0\<rparr>"

definition readableBytes :: "buffer \<Rightarrow> nat" where
  "readableBytes b = write_idx b - read_idx b"

definition writableBytes :: "buffer \<Rightarrow> nat" where
  "writableBytes b = length (vec b) - write_idx b"

definition prependableBytes :: "buffer \<Rightarrow> nat" where
  "prependableBytes b = read_idx b"

definition peek :: "buffer \<Rightarrow> nat" where
  "peek b = read_idx b"

text \<open>The bytes a client reads through \<open>peek()\<close>: \<open>std::string(buf.peek(), n)\<close>.\<close>

definition peek_string :: "buffer \<Rightarrow> nat \<Rightarrow> string" where
  "peek_string b n = take n (drop (peek b) (vec b))"

function findCRLF_loop :: "string \<Rightarrow> nat \<Rightarrow> nat \<Rightarrow> nat option" where
  "findCRLF_loop v p e =
     (if p + 1 < e then
        if v ! p = CR \<and> v ! (p + 1) = LF then Some p else findCRLF_loop v (p + 1) e
      else None)"
  by pat_completeness auto
termination
  by (relation "measure (\<lambda>(v, p, e). e - p)") auto

definition findCRLF :: "buffer \<Rightarrow> nat option" where
  "findCRLF b = findCRLF_loop (vec b) (peek b) (write_idx b)"

function findEOL_loop :: "string \<Rightarrow> nat \<Rightarrow> nat \<Rightarrow> nat option" where
  "findEOL_loop v p e =
     (if p < e then if v ! p = LF then Some p else findEOL_loop v (p + 1) e else None)"
  by pat_completeness auto
termination
  by (relation "measure (\<lambda>(v, p, e). e - p)") auto

declare findCRLF_loop.simps [simp del] findEOL_loop.simps [simp del]

definition findEOL :: "buffer \<Rightarrow> nat option" where
  "findEOL b = findEOL_loop (vec b) (peek b) (write_idx b)"

definition retrieveAll :: "buffer \<Rightarrow> buffer" where
  "retrieveAll b = b\<lparr>read_idx := 0, write_idx := 0\<rparr>"

definition retrieve :: "nat \<Rightarrow> buffer \<Rightarrow> buffer" where
  "retrieve n b =
     (if n \<ge> readableBytes b then retrieveAll b else b\<lparr>read_idx := read_idx b + n\<rparr>)"

definition retrieveUntil :: "nat \<Rightarrow> buffer \<Rightarrow> buffer" where
  "retrieveUntil e b = (if e \<le> peek b then b else retrieve (e - peek b) b)"

definition retrieveAsString :: "nat \<Rightarrow> buffer \<Rightarrow> string \<times> buffer" where
  "retrieveAsString n b =
     (let len = min n (readableBytes b) in (peek_string b len, retrieve len b))"

definition retrieveAllAsString :: "buffer \<Rightarrow> string \<times> buffer" where
  "retrieveAllAsString b = retrieveAsString (readableBytes b) b"

definition makeSpace :: "nat \<Rightarrow> buffer \<Rightarrow> buffer" where
  "makeSpace n b =
     (let b1 = (if prependableBytes b + writableBytes b < n + 1
                then b\<lparr>vec := resize (write_idx b + n) (vec b)\<rparr> else b);
          readable = readableBytes b1
      in b1\<lparr>vec := blit (vec b1) 0 (take readable (drop (read_idx b1) (vec b1))),
            read_idx := 0, write_idx := readable\<rparr>)"

definition ensureWritable :: "nat \<Rightarrow> buffer \<Rightarrow> buffer" where
  "ensureWritable n b = (if writableBytes b \<ge> n then b else makeSpace n b)"

definition buf_append :: "string \<Rightarrow> buffer \<Rightarrow> buffer" where
  "buf_append data b =
     (let b1 = ensureWritable (length data) b
      in b1\<lparr>vec := blit (vec b1) (write_idx b1) data,
            write_idx := write_idx b1 + length data\<rparr>)"

definition shrink :: "nat \<Rightarrow> buffer \<Rightarrow> buffer" where
  "shrink reserve b =
     (let fresh = replicate (max kInitialSize (readableBytes b + reserve)) NUL
      in b\<lparr>vec := blit fresh 0 (peek_string b (readableBytes b)),
           write_idx := readableBytes b, read_idx := 0\<rparr>)"

text \<open>
  The system calls are arguments. \<open>readv\<close> is asked with the lengths of the io vector
  and answers with an errno or with the bytes it stored, which fill the vector in order;
  \<open>write\<close> is asked with the bytes and answers with an errno or the number it took.
  The result is the return value, the errno stored through \<open>saved_errno\<close> and the buffer.
\<close>

definition iov_lens :: "buffer \<Rightarrow> nat list" where
  "iov_lens b =
     (let writable = writableBytes b
      in if writable < kExtraBufSize then [writable, kExtraBufSize] else [writable])"

definition readFd :: "(nat list \<Rightarrow> errno + string) \<Rightarrow> buffer \<Rightarrow> int \<times> errno option \<times> buffer" where
  "readFd readv b =
     (let writable = writableBytes b
      in case readv (iov_lens b) of
           Inl e \<Rightarrow> (-1, Some e, b)
         | Inr data \<Rightarrow>
             (let n = length data;
                  b1 = b\<lparr>vec := blit (vec b) (write_idx b) (take writable data)\<rparr>
              in (int n, None,
                  if n \<le> writable then b1\<lparr>write_idx := write_idx b1 + n\<rparr>
                  else buf_append (drop writable data) (b1\<lparr>write_idx := length (vec b1)\<rparr>))))"

definition writeFd :: "(string \<Rightarrow> errno + nat) \<Rightarrow> buffer \<Rightarrow> int \<times> errno option \<times> buffer" where
  "writeFd write b =
     (case write (peek_string b (readableBytes b)) of
        Inl e \<Rightarrow> (-1, Some e, b)
      | Inr n \<Rightarrow> (int n, None, if n > 0 then retrieve n b else b))"

section \<open>Invariant and abstraction\<close>

definition buf_ok :: "buffer \<Rightarrow> bool" where
  "buf_ok b \<longleftrightarrow> read_idx b \<le> write_idx b \<and> write_idx b \<le> length (vec b)
     \<and> kInitialSize \<le> length (vec b)"

definition contents :: "buffer \<Rightarrow> string" where
  "contents b = take (write_idx b - read_idx b) (drop (read_idx b) (vec b))"

lemmas buf_defs = readableBytes_def writableBytes_def prependableBytes_def peek_def
  peek_string_def Let_def

lemma length_contents [simp]: "buf_ok b \<Longrightarrow> length (contents b) = readableBytes b"
  by (auto simp: buf_ok_def contents_def buf_defs)

lemma contents_new [simp]: "contents (new_Buffer n) = []"
  by (simp add: contents_def new_Buffer_def)

lemma buf_ok_new [simp, inv_intros]: "buf_ok (new_Buffer n)"
  by (simp add: buf_ok_def new_Buffer_def)

lemma peek_string_contents:
  "n \<le> readableBytes b \<Longrightarrow> peek_string b n = take n (contents b)"
  by (simp add: contents_def buf_defs min_def)

lemma buf_ok_retrieve [inv_intros]: "buf_ok b \<Longrightarrow> buf_ok (retrieve n b)"
  by (auto simp: buf_ok_def retrieve_def retrieveAll_def buf_defs)

lemma contents_retrieve [abs_simps]: "buf_ok b \<Longrightarrow> contents (retrieve n b) = drop n (contents b)"
  by (auto simp: buf_ok_def contents_def retrieve_def retrieveAll_def buf_defs drop_take
      add.commute)

lemma contents_retrieveAsString [abs_simps]:
  "buf_ok b \<Longrightarrow> fst (retrieveAsString n b) = take n (contents b)
     \<and> contents (snd (retrieveAsString n b)) = drop n (contents b)"
  by (simp add: retrieveAsString_def Let_def peek_string_contents contents_retrieve min_def)

subsection \<open>Making room\<close>

lemma contents_front:
  "length ys = k \<Longrightarrow> contents (b\<lparr>vec := blit v 0 ys, read_idx := 0, write_idx := k\<rparr>) = ys"
  by (auto simp: contents_def blit_def)

lemma makeSpace_window:
  assumes "buf_ok b"
  shows "contents (makeSpace n b) = contents b"
proof -
  let ?b1 = "if prependableBytes b + writableBytes b < n + 1
             then b\<lparr>vec := resize (write_idx b + n) (vec b)\<rparr> else b"
  have "take (write_idx b) (vec ?b1) = take (write_idx b) (vec b)"
    using assms by (auto simp: buf_ok_def take_resize)
  then have "take (readableBytes b) (drop (read_idx b) (vec ?b1)) = contents b"
    using assms by (simp add: contents_def buf_ok_def readableBytes_def take_drop)
  moreover have "readableBytes ?b1 = readableBytes b" "read_idx ?b1 = read_idx b"
    by (simp_all add: readableBytes_def)
  ultimately show ?thesis
    using contents_front [of "contents b" "readableBytes b"] length_contents [OF assms]
    by (simp only: makeSpace_def Let_def)
qed

lemma buf_ok_makeSpace:
  assumes "buf_ok b" "writableBytes b < n"
  shows "buf_ok (makeSpace n b) \<and> n \<le> writableBytes (makeSpace n b)"
  using assms by (auto simp: makeSpace_def Let_def buf_ok_def buf_defs min_def blit_def)

lemma ensureWritable_ok [inv_intros]: "buf_ok b \<Longrightarrow> buf_ok (ensureWritable n b)"
  and ensureWritable_room: "buf_ok b \<Longrightarrow> n \<le> writableBytes (ensureWritable n b)"
  by (auto simp: ensureWritable_def buf_ok_makeSpace)

lemma contents_ensureWritable [abs_simps]: "buf_ok b \<Longrightarrow> contents (ensureWritable n b) = contents b"
  by (simp add: ensureWritable_def makeSpace_window)

lemma blit_window:
  assumes "buf_ok b" "length data \<le> writableBytes b"
  shows "buf_ok (b\<lparr>vec := blit (vec b) (write_idx b) data, write_idx := write_idx b + length data\<rparr>)"
    and "contents (b\<lparr>vec := blit (vec b) (write_idx b) data, write_idx := write_idx b + length data\<rparr>)
       = contents b @ data"
  using assms by (auto simp: buf_ok_def contents_def buf_defs window_blit)

lemma buf_ok_append [inv_intros]: "buf_ok b \<Longrightarrow> buf_ok (buf_append data b)"
  using blit_window(1) [of "ensureWritable (length data) b" data]
  by (simp add: buf_append_def Let_def ensureWritable_ok ensureWritable_room)

lemma contents_append [abs_simps]: "buf_ok b \<Longrightarrow> contents (buf_append data b) = contents b @ data"
  using blit_window(2) [of "ensureWritable (length data) b" data]
  by (simp add: buf_append_def Let_def ensureWritable_ok ensureWritable_room contents_ensureWritable)

lemma capacity_append:
  assumes "buf_ok b"
  shows "length (vec (buf_append data b)) = length (vec (ensureWritable (length data) b))"
  using ensureWritable_ok [OF assms] ensureWritable_room [OF assms]
  by (simp add: buf_append_def Let_def writableBytes_def buf_ok_def)
    (metis Nat.le_diff_conv2 add.commute length_blit)

lemma shrink_ok [inv_intros]: "buf_ok b \<Longrightarrow> buf_ok (shrink k b)"
  and contents_shrink [abs_simps]: "buf_ok b \<Longrightarrow> contents (shrink k b) = contents b"
proof -
  assume b: "buf_ok b"
  then have *: "peek_string b (readableBytes b) = contents b"
    by (simp add: peek_string_contents)
  show "contents (shrink k b) = contents b"
    using b by (simp add: shrink_def Let_def * contents_def [of "_\<lparr>read_idx := 0\<rparr>"] blit_def)
  show "buf_ok (shrink k b)"
    using b by (simp add: shrink_def Let_def * buf_ok_def)
qed

lemma retrieveUntil_offset:
  "retrieveUntil (peek b + n) b = (if n = 0 then b else retrieve n b)"
  by (simp add: retrieveUntil_def)

lemma contents_retrieveUntil [abs_simps]:
  "buf_ok b \<Longrightarrow> contents (retrieveUntil e b) = drop (e - peek b) (contents b)"
  by (simp add: retrieveUntil_def contents_retrieve)

lemma retrieveUntil_ok [inv_intros]: "buf_ok b \<Longrightarrow> buf_ok (retrieveUntil e b)"
  by (simp add: retrieveUntil_def buf_ok_retrieve)

lemma retrieveAll_ok [inv_intros]: "buf_ok b \<Longrightarrow> buf_ok (retrieveAll b)"
  and contents_retrieveAll [abs_simps]: "contents (retrieveAll b) = []"
  by (simp_all add: retrieveAll_def buf_ok_def contents_def)

subsection \<open>System calls\<close>

lemma readFd_error: "readv (iov_lens b) = Inl e \<Longrightarrow> readFd readv b = (-1, Some e, b)"
  by (simp add: readFd_def Let_def)

lemma readFd_buffer:
  assumes b: "buf_ok b" and rv: "readv (iov_lens b) = Inr data"
  obtains b' where "readFd readv b = (int (length data), None, b')" "buf_ok b'"
    "contents b' = contents b @ data"
proof (cases "length data \<le> writableBytes b")
  case True
  then show ?thesis
    using that b rv blit_window [OF b True] by (simp add: readFd_def Let_def)
next
  case False
  let ?d = "take (writableBytes b) data"
  let ?b1 = "b\<lparr>vec := blit (vec b) (write_idx b) ?d, write_idx := write_idx b + length ?d\<rparr>"
  have len: "length ?d = writableBytes b" using False by simp
  have full: "write_idx b + length ?d = length (blit (vec b) (write_idx b) ?d)"
    using b len by (simp add: writableBytes_def buf_ok_def)
  have ok1: "buf_ok ?b1" and c1: "contents ?b1 = contents b @ ?d"
    using blit_window [OF b, of ?d] len by simp_all
  have "readFd readv b = (int (length data), None, buf_append (drop (writableBytes b) data) ?b1)"
    using False rv full by (simp add: readFd_def Let_def)
  moreover have "contents (buf_append (drop (writableBytes b) data) ?b1) = contents b @ data"
    using contents_append [OF ok1] c1 by simp
  ultimately show ?thesis using that buf_ok_append [OF ok1] by blast
qed

lemma writeFd_buffer:
  assumes b: "buf_ok b" and wr: "write (contents b) = Inr n"
  shows "fst (writeFd write b) = int n" "buf_ok (snd (snd (writeFd write b)))"
    "contents (snd (snd (writeFd write b))) = drop n (contents b)"
  using assms by (simp_all add: writeFd_def peek_string_contents buf_ok_retrieve contents_retrieve)

subsection \<open>Line search\<close>

lemma take_drop_step:
  "p < e \<Longrightarrow> e \<le> length v \<Longrightarrow> take (e - p) (drop p v) = v ! p # take (e - Suc p) (drop (Suc p) v)"
  by (simp add: Cons_nth_drop_Suc [symmetric] take_Cons' Suc_diff_Suc)

lemma findEOL_loop_first:
  "e \<le> length v \<Longrightarrow>
   findEOL_loop v p e = map_option (\<lambda>i. p + i) (first_index (\<lambda>c. c = LF) (take (e - p) (drop p v)))"
proof (induction v p e rule: findEOL_loop.induct)
  case (1 v p e)
  show ?case
  proof (cases "p < e")
    case True
    have "findEOL_loop v p e = (if v ! p = LF then Some p else findEOL_loop v (p + 1) e)"
      using True by (subst findEOL_loop.simps) simp
    with 1 True show ?thesis
      by (simp add: take_drop_step option.map_comp comp_def)
  next
    case False
    then show ?thesis by (subst findEOL_loop.simps) simp
  qed
qed

lemma findEOL_contents:
  "buf_ok b \<Longrightarrow> findEOL b = map_option (\<lambda>i. peek b + i) (first_index (\<lambda>c. c = LF) (contents b))"
  by (simp add: findEOL_def findEOL_loop_first contents_def buf_ok_def peek_def)

lemma findCRLF_loop_first:
  "e \<le> length v \<Longrightarrow>
   findCRLF_loop v p e = map_option (\<lambda>i. p + i) (find_sub CRLF (take (e - p) (drop p v)))"
proof (induction v p e rule: findCRLF_loop.induct)
  case (1 v p e)
  show ?case
  proof (cases "p + 1 < e")
    case True
    have "findCRLF_loop v p e =
            (if v ! p = CR \<and> v ! (p + 1) = LF then Some p else findCRLF_loop v (p + 1) e)"
      using True by (subst findCRLF_loop.simps) simp
    with 1 True show ?thesis
      by (simp add: take_drop_step [of p] take_drop_step [of "Suc p"] option.map_comp comp_def)
  next
    case False
    then have "length (take (e - p) (drop p v)) < length CRLF" by simp
    then have "find_sub CRLF (take (e - p) (drop p v)) = None"
      unfolding find_sub_None by (meson leD sublist_length_le)
    with False show ?thesis by (subst findCRLF_loop.simps) simp
  qed
qed

lemma findCRLF_contents:
  "buf_ok b \<Longrightarrow> findCRLF b = map_option (\<lambda>i. peek b + i) (find_sub CRLF (contents b))"
  by (simp add: findCRLF_def findCRLF_loop_first contents_def buf_ok_def peek_def)


section \<open>The interface: a queue of bytes with line ends\<close>

text \<open>
  What the HTTP parser and the server rely on. \<open>line_end\<close> is the distance from the
  first readable byte to the next line feed.
\<close>

locale byte_queue =
  fixes ok :: "'q \<Rightarrow> bool"
    and view :: "'q \<Rightarrow> string"
    and push :: "string \<Rightarrow> 'q \<Rightarrow> 'q"
    and pop :: "nat \<Rightarrow> 'q \<Rightarrow> 'q"
    and line_end :: "'q \<Rightarrow> nat option"
  assumes view_push: "ok q \<Longrightarrow> view (push s q) = view q @ s"
    and view_pop: "ok q \<Longrightarrow> view (pop n q) = drop n (view q)"
    and line_end_first: "ok q \<Longrightarrow> line_end q = first_index (\<lambda>c. c = LF) (view q)"
    and ok_push: "ok q \<Longrightarrow> ok (push s q)"
    and ok_pop: "ok q \<Longrightarrow> ok (pop n q)"
begin

definition pop_line :: "'q \<Rightarrow> (string \<times> 'q) option" where
  "pop_line q = map_option (\<lambda>i. (take i (view q), pop (Suc i) q)) (line_end q)"

lemma view_push_all: "ok q \<Longrightarrow> ok (fold push ss q) \<and> view (fold push ss q) = view q @ concat ss"
  by (induction ss arbitrary: q) (auto simp: ok_push view_push)

lemma pop_line_None: "ok q \<Longrightarrow> pop_line q = None \<longleftrightarrow> LF \<notin> set (view q)"
  by (auto simp: pop_line_def line_end_first first_index_None)

lemma pop_line_Some:
  assumes "ok q" "pop_line q = Some (l, q')"
  shows "ok q'" "LF \<notin> set l" "view q = l @ LF # view q'"
proof -
  obtain i where i: "first_index (\<lambda>c. c = LF) (view q) = Some i" "l = take i (view q)"
    "q' = pop (Suc i) q"
    using assms by (auto simp: pop_line_def line_end_first)
  then show "ok q'" "LF \<notin> set l" "view q = l @ LF # view q'"
    using assms(1) first_index_SomeD [OF i(1)] id_take_nth_drop [of i "view q"]
    by (auto simp: ok_pop view_pop)
qed

lemma pop_line_line:
  assumes "ok q" "view q = l @ LF # rest" "LF \<notin> set l"
  obtains q' where "pop_line q = Some (l, q')" "view q' = rest" "ok q'"
proof (rule that)
  have "first_index (\<lambda>c. c = LF) (l @ LF # rest) = Some (length l)"
    using assms(3) by (intro first_index_hit) auto
  then show "pop_line q = Some (l, pop (Suc (length l)) q)"
    using assms by (simp add: pop_line_def line_end_first)
qed (use assms in \<open>simp_all add: view_pop ok_pop\<close>)

lemma pop_line_shorter:
  "ok q \<Longrightarrow> pop_line q = Some (l, q') \<Longrightarrow> length (view q') < length (view q)"
  using pop_line_Some(3) by fastforce

end

lemma line_offset:
  "buf_ok b \<Longrightarrow> map_option (\<lambda>p. p - peek b) (findEOL b) = first_index (\<lambda>c. c = LF) (contents b)"
  by (simp add: findEOL_contents option.map_comp comp_def option.map_ident)

interpretation bq: byte_queue buf_ok contents buf_append retrieve
  "\<lambda>b. map_option (\<lambda>p. p - peek b) (findEOL b)"
  by unfold_locales (simp_all add: abs_simps inv_intros line_offset)

section \<open>The buffer as a whole\<close>

text \<open>The public operations, with the answers of the system calls they make.\<close>

datatype buf_op =
    Append string
  | Retrieve nat
  | RetrieveAll
  | RetrieveUntil nat
  | RetrieveAsString nat
  | RetrieveAllAsString
  | EnsureWritable nat
  | Shrink nat
  | ReadFd "nat list \<Rightarrow> errno + string"
  | WriteFd "string \<Rightarrow> errno + nat"

text \<open>What a call returns: nothing, a string, or the return value and the errno it stored.\<close>

datatype buf_result = Void | Str string | Ret int "errno option"

fun buf_step :: "buf_op \<Rightarrow> buffer \<Rightarrow> buf_result \<times> buffer" where
  "buf_step (Append s) b = (Void, buf_append s b)"
| "buf_step (Retrieve n) b = (Void, retrieve n b)"
| "buf_step RetrieveAll b = (Void, retrieveAll b)"
| "buf_step (RetrieveUntil n) b = (Void, retrieveUntil (peek b + n) b)"
| "buf_step (RetrieveAsString n) b = apfst Str (retrieveAsString n b)"
| "buf_step RetrieveAllAsString b = apfst Str (retrieveAllAsString b)"
| "buf_step (EnsureWritable n) b = (Void, ensureWritable n b)"
| "buf_step (Shrink n) b = (Void, shrink n b)"
| "buf_step (ReadFd readv) b = (case readFd readv b of (n, er, b1) \<Rightarrow> (Ret n er, b1))"
| "buf_step (WriteFd write) b = (case writeFd write b of (n, er, b1) \<Rightarrow> (Ret n er, b1))"

fun buf_run :: "buf_op list \<Rightarrow> buffer \<Rightarrow> buf_result list \<times> buffer" where
  "buf_run [] b = ([], b)"
| "buf_run (x # xs) b =
     (let (out, b1) = buf_step x b; (outs, b2) = buf_run xs b1 in (out # outs, b2))"

text \<open>
  The abstract queue: a byte string, extended at its end and consumed at its front. The
  kernel may look at the io vector, so the answer to \<open>readv\<close> is the one it gives for
  the vector the buffer offers, \<open>iov\<close>.
\<close>

fun queue_step :: "buf_op \<Rightarrow> nat list \<Rightarrow> string \<Rightarrow> buf_result \<times> string" where
  "queue_step (Append s) iov q = (Void, q @ s)"
| "queue_step (Retrieve n) iov q = (Void, drop n q)"
| "queue_step RetrieveAll iov q = (Void, [])"
| "queue_step (RetrieveUntil n) iov q = (Void, drop n q)"
| "queue_step (RetrieveAsString n) iov q = (Str (take n q), drop n q)"
| "queue_step RetrieveAllAsString iov q = (Str q, [])"
| "queue_step (EnsureWritable n) iov q = (Void, q)"
| "queue_step (Shrink n) iov q = (Void, q)"
| "queue_step (ReadFd readv) iov q =
     (case readv iov of Inl e \<Rightarrow> (Ret (-1) (Some e), q) | Inr d \<Rightarrow> (Ret (int (length d)) None, q @ d))"
| "queue_step (WriteFd write) iov q =
     (case write q of Inl e \<Rightarrow> (Ret (-1) (Some e), q) | Inr n \<Rightarrow> (Ret (int n) None, drop n q))"

fun queue_run :: "buf_op list \<Rightarrow> buffer \<Rightarrow> string \<Rightarrow> buf_result list \<times> string" where
  "queue_run [] b q = ([], q)"
| "queue_run (x # xs) b q =
     (let (out, q1) = queue_step x (iov_lens b) q;
          (outs, q2) = queue_run xs (snd (buf_step x b)) q1
      in (out # outs, q2))"

lemma buf_step_refines:
  assumes b: "buf_ok b"
  shows "buf_ok (snd (buf_step x b))"
    and "queue_step x (iov_lens b) (contents b) = (fst (buf_step x b), contents (snd (buf_step x b)))"
proof -
  have "buf_ok (snd (buf_step x b)) \<and>
    queue_step x (iov_lens b) (contents b) = (fst (buf_step x b), contents (snd (buf_step x b)))"
  proof (cases x)
    case (ReadFd readv)
    show ?thesis
    proof (cases "readv (iov_lens b)")
      case (Inl e)
      then show ?thesis using ReadFd b by (simp add: readFd_error)
    next
      case (Inr d)
      from readFd_buffer [where readv = readv, OF b Inr] obtain b' where
        "readFd readv b = (int (length d), None, b')" "buf_ok b'" "contents b' = contents b @ d" .
      then show ?thesis using ReadFd Inr by simp
    qed
  next
    case (WriteFd wr)
    then show ?thesis
      using b by (cases "wr (contents b)")
        (simp_all add: writeFd_def peek_string_contents buf_ok_retrieve contents_retrieve)
  qed (use b in \<open>simp_all add: abs_simps inv_intros retrieveAsString_def retrieveAllAsString_def
          Let_def peek_string_contents min_def\<close>)
  then show "buf_ok (snd (buf_step x b))"
    and "queue_step x (iov_lens b) (contents b) = (fst (buf_step x b), contents (snd (buf_step x b)))"
    by auto
qed

lemma buf_run_refines:
  "buf_ok b \<Longrightarrow> buf_ok (snd (buf_run xs b)) \<and>
     queue_run xs b (contents b) = (fst (buf_run xs b), contents (snd (buf_run xs b)))"
proof (induction xs arbitrary: b)
  case (Cons x xs)
  then show ?case
    using buf_step_refines [OF Cons.prems, of x] by (auto simp: split_beta Let_def)
qed simp

section \<open>Properties\<close>

text \<open>
  C10: After any sequence of public operations on a new buffer, whatever the system calls
  answer, the results of all calls (strings, return values and stored errors) and the readable bytes are those of
  a plain queue of bytes: nothing is lost, repeated or reordered by growing, compacting or shrinking. And the
  indices are in order and inside the vector, which never becomes smaller than its initial size.
\<close>

theorem buffer_refines_queue:
  "queue_run xs (new_Buffer n) [] =
     (fst (buf_run xs (new_Buffer n)), contents (snd (buf_run xs (new_Buffer n)))) \<and>
   read_idx (snd (buf_run xs (new_Buffer n))) \<le> write_idx (snd (buf_run xs (new_Buffer n))) \<and>
   write_idx (snd (buf_run xs (new_Buffer n))) \<le> length (vec (snd (buf_run xs (new_Buffer n)))) \<and>
   kInitialSize \<le> length (vec (snd (buf_run xs (new_Buffer n))))"
  using buf_run_refines [of "new_Buffer n" xs] by (simp add: buf_ok_def [of "snd _"])

text \<open>
  In a well-formed buffer \<open>append\<close> copies into the vector only: after
  \<open>ensureWritable\<close> the copied range ends within the vector. The readable bytes grow by
  exactly the data and the indices stay ordered and in range.
\<close>

theorem append_in_bounds:
  assumes "buf_ok b"
  shows "write_idx (ensureWritable (length data) b) + length data
           \<le> length (vec (ensureWritable (length data) b))
       \<and> buf_ok (buf_append data b)
       \<and> contents (buf_append data b) = contents b @ data"
  using ensureWritable_ok [OF assms] ensureWritable_room [OF assms] assms
  by (simp add: writableBytes_def buf_ok_def [of "ensureWritable _ _"] Nat.le_diff_conv2
      add.commute buf_ok_append contents_append)

theorem append_in_bounds_witness:
  "buf_ok (new_Buffer 0) \<and> contents (buf_append ''hi'' (new_Buffer 0)) = ''hi''"
  using append_in_bounds [OF buf_ok_new, of "''hi''" 0] by simp

text \<open>
  Space reuse. When the free space before and behind the readable bytes exceeds the
  data, \<open>append\<close> keeps the capacity (it compacts instead of allocating); otherwise the
  new capacity is exactly the old write index plus the size of the data.
\<close>

theorem append_capacity:
  assumes "buf_ok b"
  shows "length (vec (buf_append data b)) =
    (if length data \<le> writableBytes b \<or> length data < prependableBytes b + writableBytes b
     then length (vec b) else write_idx b + length data)"
proof -
  have "length (vec (makeSpace k b)) =
      (if k < prependableBytes b + writableBytes b then length (vec b) else write_idx b + k)"
    if "writableBytes b < k" for k
    using assms that by (auto simp: makeSpace_def Let_def buf_ok_def buf_defs blit_def min_def)
  then show ?thesis
    using assms by (simp add: capacity_append ensureWritable_def)
qed

theorem append_capacity_witness:
  "buf_ok (new_Buffer 0) \<and> length (vec (buf_append ''abc'' (new_Buffer 0))) = 1024"
  using append_capacity [OF buf_ok_new, of "''abc''" 0]
  by (simp add: writableBytes_def) (simp add: new_Buffer_def kInitialSize_def)

text \<open>
  \<open>readFd\<close>. On an error nothing changes and the errno is handed out. Otherwise
  the kernel fills the offered vector, whose size is at least 64 KiB, and the bytes it
  delivered, also those that went to the stack buffer, are appended in order.
\<close>

theorem readFd_delivers:
  assumes "buf_ok b"
  shows "kExtraBufSize \<le> sum_list (iov_lens b)
    \<and> (case readv (iov_lens b) of
           Inl e \<Rightarrow> readFd readv b = (-1, Some e, b)
         | Inr data \<Rightarrow> fst (readFd readv b) = int (length data)
             \<and> buf_ok (snd (snd (readFd readv b)))
             \<and> contents (snd (snd (readFd readv b))) = contents b @ data)"
proof (cases "readv (iov_lens b)")
  case (Inl e)
  then show ?thesis by (simp add: readFd_error) (simp add: iov_lens_def Let_def)
next
  case (Inr data)
  from readFd_buffer [where readv = readv, OF assms this] obtain b' where
    "readFd readv b = (int (length data), None, b')" "buf_ok b'" "contents b' = contents b @ data" .
  with Inr show ?thesis by simp (simp add: iov_lens_def Let_def)
qed

theorem readFd_delivers_witness:
  "buf_ok (new_Buffer 0) \<and>
   contents (snd (snd (readFd (\<lambda>_. Inr ''GET'') (new_Buffer 0)))) = ''GET''"
  using readFd_delivers [where readv = "\<lambda>_. Inr ''GET''", OF buf_ok_new [of 0]] by simp

text \<open>
  The searches are correct: \<open>findEOL\<close> points at the first line feed of the
  readable bytes and \<open>findCRLF\<close> at their first CR LF pair, and each returns null
  exactly when there is none.
\<close>

theorem find_line_end:
  assumes "buf_ok b"
  shows "(findEOL b = Some p) =
           (\<exists>l r. contents b = l @ LF # r \<and> LF \<notin> set l \<and> p = peek b + length l)
       \<and> (findEOL b = None) = (LF \<notin> set (contents b))
       \<and> (findCRLF b = Some p) = (\<exists>i. find_sub CRLF (contents b) = Some i \<and> p = peek b + i)
       \<and> (findCRLF b = None) = (\<not> sublist CRLF (contents b))"
  using assms
  by (simp add: findEOL_contents findCRLF_contents first_index_split first_index_None
      find_sub_None) auto

theorem find_line_end_witness:
  "buf_ok (new_Buffer 0) \<and> findEOL (new_Buffer 0) = None"
  using find_line_end [OF buf_ok_new, of 0] by simp

end
