(* ===== verification/Channel.thy ===== *)
theory Channel
  imports Prelude
begin

unbundle bit_operations_syntax

text \<open>
  \<open>src/Channel.cc\<close> and \<open>src/EpollPoller.cc\<close>: a channel is the record of one descriptor (which
  events it wants, whether it is registered), and the poller is the table of registered
  channels. The two call each other, so they are one theory. \<open>ptr\<close> is the identity of the
  channel object. The system calls are arguments: \<open>ctl op fd events\<close> is the answer of
  \<open>epoll_ctl\<close> (\<open>None\<close> success, \<open>Some errno\<close> failure).
\<close>

section \<open>Channels\<close>

definition EPOLLIN :: u32 where "EPOLLIN = 0x001"
definition EPOLLPRI :: u32 where "EPOLLPRI = 0x002"
definition EPOLLOUT :: u32 where "EPOLLOUT = 0x004"
definition EPOLLERR :: u32 where "EPOLLERR = 0x008"
definition EPOLLHUP :: u32 where "EPOLLHUP = 0x010"
definition EPOLLRDHUP :: u32 where "EPOLLRDHUP = 0x2000"
definition EPOLLET :: u32 where "EPOLLET = 0x80000000"

lemmas epoll_bits = EPOLLIN_def EPOLLPRI_def EPOLLOUT_def EPOLLERR_def EPOLLHUP_def EPOLLRDHUP_def EPOLLET_def

datatype ctl_op = EPOLL_CTL_ADD | EPOLL_CTL_MOD | EPOLL_CTL_DEL

definition EEXIST :: errno where "EEXIST = 17"
definition EINTR :: errno where "EINTR = 4"
definition EAGAIN :: errno where "EAGAIN = 11"

type_synonym epoll_ctl = "ctl_op \<Rightarrow> fd \<Rightarrow> u32 \<Rightarrow> errno option"

record 'cb channel =
  ch_fd :: fd
  ch_events :: u32
  ch_revents :: u32
  ch_in_poller :: bool
  ch_writing :: bool
  ch_read_cb :: "'cb option"
  ch_write_cb :: "'cb option"
  ch_close_cb :: "'cb option"

definition new_Channel :: "fd \<Rightarrow> 'cb channel" where
  "new_Channel f = \<lparr>ch_fd = f, ch_events = 0, ch_revents = 0, ch_in_poller = False, ch_writing = False,
     ch_read_cb = None, ch_write_cb = None, ch_close_cb = None\<rparr>"

type_synonym 'p poller = "(fd, 'p) umap" \<comment> \<open>\<open>channels_\<close>: descriptor to channel object\<close>

section \<open>Poller\<close>

definition register :: "'p \<Rightarrow> 'cb channel \<times> 'p poller \<Rightarrow> 'cb channel \<times> 'p poller" where
  "register ptr cp = ((fst cp)\<lparr>ch_in_poller := True\<rparr>, um_put (ch_fd (fst cp)) ptr (snd cp))"

definition updateChannel :: "epoll_ctl \<Rightarrow> 'p \<Rightarrow> 'cb channel \<times> 'p poller \<Rightarrow> 'cb channel \<times> 'p poller" where
  "updateChannel ctl ptr cp =
     (let (ch, channels) = cp;
          op = (if um_find channels (ch_fd ch) \<noteq> None then EPOLL_CTL_MOD else EPOLL_CTL_ADD)
      in case ctl op (ch_fd ch) (ch_events ch) of
           Some e \<Rightarrow>
             if op = EPOLL_CTL_ADD \<and> e = EEXIST \<and> ctl EPOLL_CTL_MOD (ch_fd ch) (ch_events ch) = None
             then register ptr cp else cp
         | None \<Rightarrow> register ptr cp)"

definition removeChannel :: "'cb channel \<times> 'p poller \<Rightarrow> 'cb channel \<times> 'p poller" where
  "removeChannel cp =
     (let (ch, channels) = cp
      in case um_find channels (ch_fd ch) of
           None \<Rightarrow> cp
         | Some _ \<Rightarrow> (ch\<lparr>ch_in_poller := False\<rparr>, um_erase (ch_fd ch) channels))"

text \<open>
  \<open>wait\<close>: \<open>epoll_wait\<close> answered with an errno or with the ready channels and their events. The
  result: the return value, the channels appended to \<open>active\<close>, and the store of channel objects
  with their \<open>revents\<close> set.
\<close>

definition wait :: "errno + ('p \<times> u32) list \<Rightarrow> 'p list \<Rightarrow> ('p \<Rightarrow> 'cb channel) \<Rightarrow>
    int \<times> 'p list \<times> ('p \<Rightarrow> 'cb channel)" where
  "wait answer active store =
     (case answer of
        Inl e \<Rightarrow> (if e = EINTR then 0 else -1, active, store)
      | Inr evs \<Rightarrow>
          (int (length evs), active @ map fst evs,
           fold (\<lambda>(ptr, ev) st. st(ptr := (st ptr)\<lparr>ch_revents := ev\<rparr>)) evs store))"

section \<open>Operations of a channel\<close>

definition enableReading :: "epoll_ctl \<Rightarrow> 'p \<Rightarrow> 'cb channel \<times> 'p poller \<Rightarrow> 'cb channel \<times> 'p poller" where
  "enableReading ctl ptr cp =
     updateChannel ctl ptr ((fst cp)\<lparr>ch_events := ch_events (fst cp) OR (EPOLLIN OR EPOLLRDHUP OR EPOLLET)\<rparr>, snd cp)"

definition enableWriting :: "epoll_ctl \<Rightarrow> 'p \<Rightarrow> 'cb channel \<times> 'p poller \<Rightarrow> 'cb channel \<times> 'p poller" where
  "enableWriting ctl ptr cp =
     updateChannel ctl ptr ((fst cp)\<lparr>ch_events := ch_events (fst cp) OR EPOLLOUT, ch_writing := True\<rparr>, snd cp)"

definition disableWriting :: "epoll_ctl \<Rightarrow> 'p \<Rightarrow> 'cb channel \<times> 'p poller \<Rightarrow> 'cb channel \<times> 'p poller" where
  "disableWriting ctl ptr cp =
     updateChannel ctl ptr ((fst cp)\<lparr>ch_events := ch_events (fst cp) AND NOT EPOLLOUT, ch_writing := False\<rparr>, snd cp)"

definition disableReading :: "epoll_ctl \<Rightarrow> 'p \<Rightarrow> 'cb channel \<times> 'p poller \<Rightarrow> 'cb channel \<times> 'p poller" where
  "disableReading ctl ptr cp =
     updateChannel ctl ptr ((fst cp)\<lparr>ch_events := ch_events (fst cp) AND NOT (EPOLLIN OR EPOLLRDHUP)\<rparr>, snd cp)"

definition disableAll :: "'cb channel \<times> 'p poller \<Rightarrow> 'cb channel \<times> 'p poller" where
  "disableAll cp =
     (let ch = (fst cp)\<lparr>ch_events := 0\<rparr>
      in if ch_in_poller ch then removeChannel (ch, snd cp) else (ch, snd cp))"

text \<open>\<open>handleEvent\<close>: the callbacks it calls, in order, and the channel with \<open>revents\<close> set.\<close>

definition handleEvent :: "u32 \<Rightarrow> 'cb channel \<Rightarrow> 'cb list \<times> 'cb channel" where
  "handleEvent revents ch =
     (let opt = (\<lambda>cb. case cb of None \<Rightarrow> [] | Some f \<Rightarrow> [f])
      in (if revents AND (EPOLLHUP OR EPOLLERR) \<noteq> 0 then opt (ch_close_cb ch)
          else (if revents AND (EPOLLIN OR EPOLLPRI OR EPOLLRDHUP) \<noteq> 0 then opt (ch_read_cb ch) else [])
             @ (if revents AND EPOLLOUT \<noteq> 0 then opt (ch_write_cb ch) else []),
          ch\<lparr>ch_revents := revents\<rparr>))"

section \<open>Lemmas\<close>

text \<open>
  The table agrees with the flag of a channel: if the flag is set the table maps the descriptor
  to this channel; if not, the table does not mention this channel.
\<close>

definition registered :: "'p \<Rightarrow> 'cb channel \<times> 'p poller \<Rightarrow> bool" where
  "registered ptr cp \<longleftrightarrow> um_ok (snd cp) \<and>
     (ch_in_poller (fst cp) \<longleftrightarrow> um_find (snd cp) (ch_fd (fst cp)) = Some ptr)"

lemma register_simps [simp]:
  "fst (register ptr cp) = (fst cp)\<lparr>ch_in_poller := True\<rparr>"
  "snd (register ptr cp) = um_put (ch_fd (fst cp)) ptr (snd cp)"
  by (simp_all add: register_def)

lemma updateChannel_cases:
  "updateChannel ctl ptr cp = register ptr cp \<or> updateChannel ctl ptr cp = cp"
  by (auto simp: updateChannel_def Let_def split: prod.split option.split)

lemma registered_update [inv_intros]:
  assumes "registered ptr cp"
  shows "registered ptr (updateChannel ctl ptr cp)"
proof -
  have "registered ptr (register ptr cp)" using assms by (simp add: registered_def um.find_put um.ok_put)
  with assms updateChannel_cases [of ctl ptr cp] show ?thesis by auto
qed

lemma registered_events: "registered ptr (c\<lparr>ch_events := e\<rparr>, po) = registered ptr (c, po)"
  "registered ptr (c\<lparr>ch_events := e, ch_writing := w\<rparr>, po) = registered ptr (c, po)"
  by (simp_all add: registered_def)

lemma registered_ops [inv_intros]:
  assumes "registered ptr cp"
  shows "registered ptr (enableReading ctl ptr cp)" "registered ptr (disableReading ctl ptr cp)"
    "registered ptr (enableWriting ctl ptr cp)" "registered ptr (disableWriting ctl ptr cp)"
  unfolding enableReading_def disableReading_def enableWriting_def disableWriting_def
  using assms by (auto intro!: registered_update simp: registered_events)

lemma disableAll_out:
  assumes "registered ptr cp"
  shows "ch_events (fst (disableAll cp)) = 0 \<and> \<not> ch_in_poller (fst (disableAll cp)) \<and>
    registered ptr (disableAll cp) \<and>
    (\<forall>f. f \<noteq> ch_fd (fst cp) \<longrightarrow> um_find (snd (disableAll cp)) f = um_find (snd cp) f) \<and>
    (um_find (snd cp) (ch_fd (fst cp)) = Some ptr \<longrightarrow> um_find (snd (disableAll cp)) (ch_fd (fst cp)) = None)"
  using assms
  by (cases cp) (auto simp: registered_def disableAll_def removeChannel_def Let_def um.find_erase um.ok_erase split: option.split)

lemma updateChannel_events:
  "ch_events (fst (updateChannel ctl ptr cp)) = ch_events (fst cp)"
  "ch_writing (fst (updateChannel ctl ptr cp)) = ch_writing (fst cp)"
  "ch_fd (fst (updateChannel ctl ptr cp)) = ch_fd (fst cp)"
  using updateChannel_cases [of ctl ptr cp] by auto

section \<open>Properties\<close>

definition wants :: "u32 \<Rightarrow> 'cb channel \<Rightarrow> bool" where
  "wants m ch \<longleftrightarrow> ch_events ch AND m = m"

text \<open>
  Interest is edited bit by bit. Turning writing on or off leaves the interest in reading
  alone and vice versa, the new interest is what the caller asked for, and the \<open>writing\<close> flag
  follows the \<open>EPOLLOUT\<close> bit.
\<close>

theorem channel_interest:
  "wants EPOLLIN (fst (enableReading ctl ptr cp)) \<and> wants EPOLLRDHUP (fst (enableReading ctl ptr cp)) \<and>
   wants EPOLLET (fst (enableReading ctl ptr cp)) \<and>
   wants EPOLLOUT (fst (enableReading ctl ptr cp)) = wants EPOLLOUT (fst cp) \<and>
   wants EPOLLOUT (fst (enableWriting ctl ptr cp)) \<and> ch_writing (fst (enableWriting ctl ptr cp)) \<and>
   wants EPOLLIN (fst (enableWriting ctl ptr cp)) = wants EPOLLIN (fst cp) \<and>
   \<not> wants EPOLLOUT (fst (disableWriting ctl ptr cp)) \<and> \<not> ch_writing (fst (disableWriting ctl ptr cp)) \<and>
   wants EPOLLIN (fst (disableWriting ctl ptr cp)) = wants EPOLLIN (fst cp) \<and>
   \<not> wants EPOLLIN (fst (disableReading ctl ptr cp)) \<and>
   wants EPOLLOUT (fst (disableReading ctl ptr cp)) = wants EPOLLOUT (fst cp)"
proof -
  have single: "e AND push_bit k 1 = push_bit k 1 \<longleftrightarrow> bit e k" if "k < 32" for e :: u32 and k
  proof
    assume "e AND push_bit k 1 = push_bit k 1"
    then have "bit (e AND push_bit k 1) k = bit (push_bit k 1 :: u32) k" by simp
    then show "bit e k" using that by (simp add: bit_simps)
  next
    assume "bit e k"
    then show "e AND push_bit k 1 = push_bit k 1" by (intro bit_word_eqI) (auto simp: bit_simps)
  qed
  have m: "wants EPOLLIN ch \<longleftrightarrow> bit (ch_events ch) 0" "wants EPOLLOUT ch \<longleftrightarrow> bit (ch_events ch) 2"
    "wants EPOLLRDHUP ch \<longleftrightarrow> bit (ch_events ch) 13" "wants EPOLLET ch \<longleftrightarrow> bit (ch_events ch) 31" for ch :: "'a channel"
    using single [of 0 "ch_events ch"] single [of 2 "ch_events ch"] single [of 13 "ch_events ch"] single [of 31 "ch_events ch"]
    by (simp_all add: wants_def epoll_bits push_bit_eq_mult)
  show ?thesis
    unfolding m enableReading_def enableWriting_def disableWriting_def disableReading_def updateChannel_events
    by (simp add: bit_or_iff bit_and_iff bit_not_iff epoll_bits)
qed

text \<open>
  If the flag \<open>in_poller_\<close> agrees with the table, it does so after every
  operation of the channel, however \<open>epoll_ctl\<close> answers; and after \<open>disableAll\<close>, which the
  destructor calls, the table has no entry left that points to the channel and every other
  entry is unchanged.
\<close>

theorem registration_kept:
  assumes "registered ptr cp"
  shows "registered ptr (enableReading ctl ptr cp) \<and> registered ptr (disableReading ctl ptr cp) \<and>
    registered ptr (enableWriting ctl ptr cp) \<and> registered ptr (disableWriting ctl ptr cp) \<and>
    registered ptr (disableAll cp) \<and> \<not> ch_in_poller (fst (disableAll cp)) \<and>
    um_find (snd (disableAll cp)) (ch_fd (fst cp)) \<noteq> Some ptr \<and>
    (\<forall>f. f \<noteq> ch_fd (fst cp) \<longrightarrow> um_find (snd (disableAll cp)) f = um_find (snd cp) f)"
proof -
  have "ch_fd (fst (disableAll cp)) = ch_fd (fst cp)"
    by (simp add: disableAll_def removeChannel_def Let_def split: option.split)
  then have "um_find (snd (disableAll cp)) (ch_fd (fst cp)) \<noteq> Some ptr"
    using disableAll_out [OF assms] by (auto simp: registered_def)
  then show ?thesis using registered_ops [OF assms] disableAll_out [OF assms] by blast
qed

definition sample_channel :: "nat channel \<times> nat poller" where
  "sample_channel = ((new_Channel 7)\<lparr>ch_in_poller := True\<rparr>, [(7, 1), (8, 2)])"

theorem registration_kept_witness:
  "registered 1 (enableReading (\<lambda>_ _ _. None) 1 sample_channel) \<and> registered 1 (disableReading (\<lambda>_ _ _. None) 1 sample_channel) \<and>
    registered 1 (enableWriting (\<lambda>_ _ _. None) 1 sample_channel) \<and> registered 1 (disableWriting (\<lambda>_ _ _. None) 1 sample_channel) \<and>
    registered 1 (disableAll sample_channel) \<and> \<not> ch_in_poller (fst (disableAll sample_channel)) \<and>
    um_find (snd (disableAll sample_channel)) (ch_fd (fst sample_channel)) \<noteq> Some 1 \<and>
    um_find (snd (disableAll sample_channel)) 8 = Some 2"
proof -
  have "registered 1 sample_channel" "ch_fd (fst sample_channel) \<noteq> 8" "um_find (snd sample_channel) 8 = Some 2"
    by (simp_all add: registered_def sample_channel_def new_Channel_def)
  then show ?thesis using registration_kept [of 1 sample_channel "\<lambda>_ _ _. None"] by auto
qed

text \<open>
  Dispatch. An error or hang-up calls the close callback and nothing else; otherwise the read
  callback comes before the write callback and each is called exactly when one of its events is
  reported and it is set.
\<close>

theorem dispatch_order:
  "fst (handleEvent ev ch) =
     (if ev AND EPOLLHUP \<noteq> 0 \<or> ev AND EPOLLERR \<noteq> 0 then (case ch_close_cb ch of None \<Rightarrow> [] | Some f \<Rightarrow> [f])
      else (if ev AND EPOLLIN \<noteq> 0 \<or> ev AND EPOLLPRI \<noteq> 0 \<or> ev AND EPOLLRDHUP \<noteq> 0
            then (case ch_read_cb ch of None \<Rightarrow> [] | Some f \<Rightarrow> [f]) else [])
         @ (if ev AND EPOLLOUT \<noteq> 0 then (case ch_write_cb ch of None \<Rightarrow> [] | Some f \<Rightarrow> [f]) else []))"
proof -
  have or: "ev AND (a OR b) = 0 \<longleftrightarrow> ev AND a = 0 \<and> ev AND b = 0" for a b :: u32
    by (simp add: bit.conj_disj_distrib or_eq_0_iff)
  show ?thesis by (simp add: handleEvent_def Let_def or)
qed

end
