(* ===== verification/EventLoop.thy ===== *)
theory EventLoop
  imports Channel
begin

text \<open>
  \<open>src/EventLoop.cc\<close>: periodic timers, tasks queued from any thread, the wake-up descriptor and
  the loop itself. Callbacks are values of a type \<open>'cb\<close>; \<open>run\<close> says what calling one does to the
  loop and to the rest of the world, so a callback may queue tasks or set timers. The steady
  clock is an argument, in nanoseconds. \<open>in_loop\<close> says whether the calling thread owns the loop.
  \<open>el_wakeups\<close> counts the writes to the \<open>eventfd\<close>; the second half of the theory interleaves
  the loop with other threads and takes the \<open>eventfd\<close> as a parameter.
\<close>

section \<open>State and operations\<close>

record 'cb timed_task =
  tt_id :: int
  tt_interval_ms :: int
  tt_next :: int
  tt_cb :: "'cb option"

record 'cb event_loop =
  el_timers :: "'cb timed_task list"
  el_next_timer_id :: int
  el_pending :: "'cb list"
  el_calling_pending :: bool
  el_quit :: bool
  el_looping :: bool
  el_wakeup_fd :: fd
  el_wakeups :: nat

definition new_EventLoop :: "fd \<Rightarrow> 'cb event_loop" where \<comment> \<open>the argument: what \<open>eventfd\<close> returned\<close>
  "new_EventLoop efd = \<lparr>el_timers = [], el_next_timer_id = 1, el_pending = [], el_calling_pending = False,
     el_quit = False, el_looping = False, el_wakeup_fd = efd, el_wakeups = 0\<rparr>"

definition ns_per_ms :: int where "ns_per_ms = 1000000"

definition due_in_ms :: "int \<Rightarrow> 'cb timed_task \<Rightarrow> int" where
  "due_in_ms now t = (let ms = (tt_next t - now) sdiv ns_per_ms in if ms < 0 then 0 else ms)"

definition nextTimeoutMs :: "int \<Rightarrow> 'cb event_loop \<Rightarrow> int" where
  "nextTimeoutMs now el =
     (if el_timers el = [] then -1 else fold (\<lambda>t best. min best (due_in_ms now t)) (el_timers el) 1000)"

definition wakeup :: "'cb event_loop \<Rightarrow> 'cb event_loop" where
  "wakeup el = (if el_wakeup_fd el < 0 then el else el\<lparr>el_wakeups := el_wakeups el + 1\<rparr>)"

text \<open>\<open>handleWakeup\<close> on the results that \<open>read\<close> will deliver; the reads it leaves.\<close>

fun handleWakeup :: "int list \<Rightarrow> int list" where
  "handleWakeup [] = []"
| "handleWakeup (n # ns) = (if n > 0 then handleWakeup ns else ns)"

definition quit :: "bool \<Rightarrow> 'cb event_loop \<Rightarrow> 'cb event_loop" where
  "quit in_loop el = (let el = el\<lparr>el_quit := True\<rparr> in if \<not> in_loop then wakeup el else el)"

definition queueInLoop :: "bool \<Rightarrow> 'cb \<Rightarrow> 'cb event_loop \<Rightarrow> 'cb event_loop" where
  "queueInLoop in_loop cb el =
     (let el = el\<lparr>el_pending := el_pending el @ [cb]\<rparr>
      in if \<not> in_loop \<or> el_calling_pending el then wakeup el else el)"

type_synonym ('cb, 's) runner = "'cb \<Rightarrow> 'cb event_loop \<times> 's \<Rightarrow> 'cb event_loop \<times> 's"

definition runInLoop :: "('cb, 's) runner \<Rightarrow> bool \<Rightarrow> 'cb \<Rightarrow> 'cb event_loop \<times> 's \<Rightarrow> 'cb event_loop \<times> 's" where
  "runInLoop run in_loop cb st = (if in_loop then run cb st else (queueInLoop in_loop cb (fst st), snd st))"

definition pendingCount :: "'cb event_loop \<Rightarrow> nat" where
  "pendingCount el = length (el_pending el)"

definition runEvery :: "int \<Rightarrow> int \<Rightarrow> 'cb option \<Rightarrow> 'cb event_loop \<Rightarrow> int \<times> 'cb event_loop" where
  "runEvery now interval_ms cb el =
     (let interval_ms = (if interval_ms < 1 then 1 else interval_ms)
      in (el_next_timer_id el,
          el\<lparr>el_next_timer_id := el_next_timer_id el + 1,
             el_timers := el_timers el @ [\<lparr>tt_id = el_next_timer_id el, tt_interval_ms = interval_ms,
               tt_next = now + interval_ms * ns_per_ms, tt_cb = cb\<rparr>]\<rparr>))"

fun erase_timer :: "int \<Rightarrow> 'cb timed_task list \<Rightarrow> 'cb timed_task list" where
  "erase_timer i [] = []"
| "erase_timer i (t # ts) = (if tt_id t = i then ts else t # erase_timer i ts)"

definition el_cancelTimer :: "int \<Rightarrow> 'cb event_loop \<Rightarrow> 'cb event_loop" where
  "el_cancelTimer i el = el\<lparr>el_timers := erase_timer i (el_timers el)\<rparr>"

fun due_loop :: "int \<Rightarrow> 'cb timed_task list \<Rightarrow> 'cb timed_task list \<times> 'cb option list" where
  "due_loop now [] = ([], [])"
| "due_loop now (t # ts) =
     (let (ts', due) = due_loop now ts
      in if tt_next t \<le> now
         then (t\<lparr>tt_next := now + tt_interval_ms t * ns_per_ms\<rparr> # ts', tt_cb t # due)
         else (t # ts', due))"

definition call :: "('cb, 's) runner \<Rightarrow> 'cb option \<Rightarrow> 'cb event_loop \<times> 's \<Rightarrow> 'cb event_loop \<times> 's" where
  "call run f st = (case f of None \<Rightarrow> st | Some cb \<Rightarrow> run cb st)"

definition runDueTimers :: "('cb, 's) runner \<Rightarrow> int \<Rightarrow> 'cb event_loop \<times> 's \<Rightarrow> 'cb event_loop \<times> 's" where
  "runDueTimers run now st =
     (if el_timers (fst st) = [] then st
      else (let (ts, due) = due_loop now (el_timers (fst st))
            in fold (call run) due ((fst st)\<lparr>el_timers := ts\<rparr>, snd st)))"

definition doPendingFunctors :: "('cb, 's) runner \<Rightarrow> 'cb event_loop \<times> 's \<Rightarrow> 'cb event_loop \<times> 's" where
  "doPendingFunctors run st =
     (let functors = el_pending (fst st);
          st = fold run functors ((fst st)\<lparr>el_calling_pending := True, el_pending := []\<rparr>, snd st)
      in ((fst st)\<lparr>el_calling_pending := False\<rparr>, snd st))"

text \<open>
  One turn of \<open>loop\<close>: the ready channels, then the timers, then the queued tasks. \<open>dispatch p\<close>
  is \<open>ch->handleEvent(ch->revents())\<close>; a turn is given by the channels that \<open>epoll_wait\<close>
  reported and the time the timers see. \<open>loop_turns\<close> consumes turns until \<open>quit_\<close>; the boolean
  says whether the loop returned.
\<close>

definition loop_body :: "('p \<Rightarrow> 'cb event_loop \<times> 's \<Rightarrow> 'cb event_loop \<times> 's) \<Rightarrow> ('cb, 's) runner \<Rightarrow>
    'p list \<times> int \<Rightarrow> 'cb event_loop \<times> 's \<Rightarrow> 'cb event_loop \<times> 's" where
  "loop_body dispatch run turn st =
     doPendingFunctors run (runDueTimers run (snd turn) (fold dispatch (fst turn) st))"

fun loop_turns :: "('p \<Rightarrow> 'cb event_loop \<times> 's \<Rightarrow> 'cb event_loop \<times> 's) \<Rightarrow> ('cb, 's) runner \<Rightarrow>
    ('p list \<times> int) list \<Rightarrow> 'cb event_loop \<times> 's \<Rightarrow> bool \<times> 'cb event_loop \<times> 's" where
  "loop_turns dispatch run turns st =
     (if el_quit (fst st) then (True, (fst st)\<lparr>el_looping := False\<rparr>, snd st)
      else case turns of [] \<Rightarrow> (False, st) | turn # turns \<Rightarrow> loop_turns dispatch run turns (loop_body dispatch run turn st))"

definition loop :: "('p \<Rightarrow> 'cb event_loop \<times> 's \<Rightarrow> 'cb event_loop \<times> 's) \<Rightarrow> ('cb, 's) runner \<Rightarrow>
    ('p list \<times> int) list \<Rightarrow> 'cb event_loop \<times> 's \<Rightarrow> bool \<times> 'cb event_loop \<times> 's" where
  "loop dispatch run turns st =
     loop_turns dispatch run turns ((fst st)\<lparr>el_looping := True, el_quit := False\<rparr>, snd st)"

text \<open>
  The constructor with the channel of the wake-up descriptor, and the destructor. \<open>ptr\<close> is the identity of the
  channel, \<open>wake\<close> its callback \<open>handleWakeup\<close>; the destructor returns the poller and the descriptors it closed.
\<close>

definition construct_loop :: "epoll_ctl \<Rightarrow> 'p \<Rightarrow> 'w \<Rightarrow> fd \<Rightarrow> 'cb event_loop \<times> 'w channel option \<times> 'p poller" where
  "construct_loop ctl ptr wake efd =
     (new_EventLoop efd,
      if efd < 0 then (None, [])
      else (let (ch, po) = enableReading ctl ptr ((new_Channel efd)\<lparr>ch_read_cb := Some wake\<rparr>, []) in (Some ch, po)))"

definition destroy_loop :: "'cb event_loop \<times> 'w channel option \<times> 'p poller \<Rightarrow> 'p poller \<times> fd list" where
  "destroy_loop x =
     (case x of (el, wch, po) \<Rightarrow>
        (case wch of None \<Rightarrow> po | Some ch \<Rightarrow> snd (disableAll (ch, po)),
         if el_wakeup_fd el \<ge> 0 then [el_wakeup_fd el] else []))"

declare loop_turns.simps [simp del]

section \<open>Lemmas\<close>

text \<open>A wake-up is noticed: while \<open>epoll_ctl\<close> succeeds the channel waits for input, and it goes away with the loop.\<close>

lemma wakeup_channel_registered:
  assumes "0 \<le> efd" "\<And>op f ev. ctl op f ev = None"
  shows "\<exists>ch. construct_loop ctl ptr wake efd = (new_EventLoop efd, Some ch, [(efd, ptr)]) \<and> ch_in_poller ch \<and>
    fst (handleEvent EPOLLIN ch) = [wake]"
  using assms
  by (simp add: construct_loop_def enableReading_def updateChannel_def register_def new_Channel_def handleEvent_def epoll_bits)

lemma construct_destroy: "destroy_loop (construct_loop ctl ptr (wake :: 'w) efd) = ([], if 0 \<le> efd then [efd] else [])"
proof -
  have "snd (disableAll (updateChannel ctl ptr (ch, []))) = []" if "\<not> ch_in_poller ch" for ch :: "'w channel"
    using updateChannel_cases [of ctl ptr "(ch, [])"] that
    by (auto simp: disableAll_def removeChannel_def register_def Let_def)
  then show ?thesis
    by (simp add: destroy_loop_def construct_loop_def enableReading_def new_Channel_def new_EventLoop_def split_beta)
qed

lemma due_loop_spec:
  "due_loop now ts =
    (map (\<lambda>t. if tt_next t \<le> now then t\<lparr>tt_next := now + tt_interval_ms t * ns_per_ms\<rparr> else t) ts,
     map tt_cb (filter (\<lambda>t. tt_next t \<le> now) ts))"
  by (induction ts) (simp_all add: Let_def)

lemma fold_min_le: "fold (\<lambda>t best. min best (f t)) ts b \<le> (b :: int)"
proof (induction ts arbitrary: b)
  case (Cons a ts)
  from Cons [of "min b (f a)"] show ?case by simp
qed simp

lemma fold_min_lower: "t \<in> set ts \<Longrightarrow> fold (\<lambda>t best. min best (f t)) ts b \<le> (f t :: int)"
proof (induction ts arbitrary: b)
  case (Cons a ts)
  then show ?case using fold_min_le [of f ts "min b (f a)"] by auto
qed simp

lemma fold_min_attained: "fold (\<lambda>t best. min best (f t)) ts b = b \<or> (\<exists>t \<in> set ts. fold (\<lambda>t best. min best (f t)) ts b = (f t :: int))"
proof (induction ts arbitrary: b)
  case (Cons a ts)
  from Cons [of "min b (f a)"] show ?case by (auto simp: min_def split: if_splits)
qed simp

lemma due_in_ms_bound: "0 \<le> due_in_ms now t \<and> due_in_ms now t * ns_per_ms \<le> max 0 (tt_next t - now)"
proof -
  have "d sdiv 1000000 * 1000000 \<le> d" if "0 \<le> d" for d :: int
    using that div_mult_mod_eq [of d 1000000] pos_mod_sign [of 1000000 d]
    by (auto simp: signed_divide_int_def sgn_if)
  moreover have "d sdiv 1000000 \<le> 0" if "d < 0" for d :: int
    using that by (simp add: signed_divide_int_def sgn_if)
  ultimately show ?thesis
    by (cases "0 \<le> tt_next t - now") (auto simp: due_in_ms_def Let_def ns_per_ms_def max_def)
qed

section \<open>Properties of the operations\<close>

text \<open>
  The poll timeout. Without timers the loop blocks for good; with timers it waits at most one
  second and never past the moment a timer is due, and it waits no shorter than that: the value
  is one second or the whole milliseconds until some timer.
\<close>

theorem poll_timeout:
  "(el_timers el = [] \<longrightarrow> nextTimeoutMs now el = -1) \<and>
   (el_timers el \<noteq> [] \<longrightarrow> 0 \<le> nextTimeoutMs now el \<and> nextTimeoutMs now el \<le> 1000 \<and>
      (\<forall>t \<in> set (el_timers el). nextTimeoutMs now el * ns_per_ms \<le> max 0 (tt_next t - now)) \<and>
      (nextTimeoutMs now el = 1000 \<or> (\<exists>t \<in> set (el_timers el). nextTimeoutMs now el = due_in_ms now t)))"
proof (intro conjI impI)
  assume ne: "el_timers el \<noteq> []"
  let ?n = "nextTimeoutMs now el"
  have n: "?n = fold (\<lambda>t best. min best (due_in_ms now t)) (el_timers el) 1000" using ne by (simp add: nextTimeoutMs_def)
  show att: "?n = 1000 \<or> (\<exists>t \<in> set (el_timers el). ?n = due_in_ms now t)"
    unfolding n by (rule fold_min_attained)
  then show "0 \<le> ?n" by (metis due_in_ms_bound zero_le_numeral)
  show "?n \<le> 1000" unfolding n by (rule fold_min_le)
  show "\<forall>t \<in> set (el_timers el). ?n * ns_per_ms \<le> max 0 (tt_next t - now)"
  proof
    fix t assume "t \<in> set (el_timers el)"
    then have "?n \<le> due_in_ms now t" unfolding n by (rule fold_min_lower)
    then have "?n * ns_per_ms \<le> due_in_ms now t * ns_per_ms" by (rule mult_right_mono) (simp add: ns_per_ms_def)
    also note due_in_ms_bound [THEN conjunct2]
    finally show "?n * ns_per_ms \<le> max 0 (tt_next t - now)" .
  qed
qed (simp add: nextTimeoutMs_def)

definition one_timer :: "nat event_loop" where
  "one_timer = snd (runEvery 0 250 (Some 7) (new_EventLoop 5))"

theorem poll_timeout_witness:
  "nextTimeoutMs 0 (new_EventLoop 5 :: nat event_loop) = -1 \<and>
   0 \<le> nextTimeoutMs 100000000 one_timer \<and> nextTimeoutMs 100000000 one_timer \<le> 1000 \<and>
   list_all (\<lambda>t. nextTimeoutMs 100000000 one_timer * ns_per_ms \<le> max 0 (tt_next t - 100000000)) (el_timers one_timer)"
  using poll_timeout [of "new_EventLoop 5 :: nat event_loop" 0] poll_timeout [of one_timer 100000000]
  by (simp add: new_EventLoop_def one_timer_def runEvery_def Let_def)

definition timers_ok :: "'cb event_loop \<Rightarrow> bool" where
  "timers_ok el \<longleftrightarrow> list_all (\<lambda>t. 1 \<le> tt_interval_ms t) (el_timers el)"

lemma timers_ok_runEvery: "timers_ok el \<Longrightarrow> timers_ok (snd (runEvery now i cb el))"
  by (simp add: timers_ok_def runEvery_def Let_def)

lemma erase_timer_subset: "set (erase_timer i ts) \<subseteq> set ts"
  by (induction ts) auto

lemma timers_ok_cancel: "timers_ok el \<Longrightarrow> timers_ok (el_cancelTimer i el)"
  using erase_timer_subset [of i "el_timers el"] by (auto simp: timers_ok_def el_cancelTimer_def list_all_iff)

text \<open>
  Timers that are due run once per turn. \<open>runDueTimers\<close> calls the callbacks of the due timers
  in the order of their registration, each once, sets each of them one interval ahead of now and
  leaves the others alone; before the first callback runs, no timer is due at this time any more.
\<close>

theorem due_timers_run:
  assumes "timers_ok el"
  shows "\<exists>ts. runDueTimers run now (el, s) =
      fold (call run) (map tt_cb (filter (\<lambda>t. tt_next t \<le> now) (el_timers el))) (el\<lparr>el_timers := ts\<rparr>, s) \<and>
    map tt_id ts = map tt_id (el_timers el) \<and> list_all (\<lambda>t. now < tt_next t) ts \<and>
    (\<forall>t \<in> set (el_timers el). now < tt_next t \<longrightarrow> t \<in> set ts)"
proof -
  let ?ts = "map (\<lambda>t. if tt_next t \<le> now then t\<lparr>tt_next := now + tt_interval_ms t * ns_per_ms\<rparr> else t) (el_timers el)"
  have "runDueTimers run now (el, s) =
      fold (call run) (map tt_cb (filter (\<lambda>t. tt_next t \<le> now) (el_timers el))) (el\<lparr>el_timers := ?ts\<rparr>, s)"
    by (auto simp: runDueTimers_def due_loop_spec)
  moreover have "map tt_id ?ts = map tt_id (el_timers el)" by simp
  moreover have "list_all (\<lambda>t. now < tt_next t) ?ts"
    using assms by (auto simp: timers_ok_def list_all_iff ns_per_ms_def)
  moreover have "\<forall>t \<in> set (el_timers el). now < tt_next t \<longrightarrow> t \<in> set ?ts"
    by (auto simp: image_iff intro!: bexI)
  ultimately show ?thesis by blast
qed

theorem due_timers_run_witness:
  "\<exists>ts. runDueTimers (\<lambda>cb (el, s). (el, s @ [cb])) 250000000 (one_timer, []) =
      fold (call (\<lambda>cb (el, s). (el, s @ [cb]))) (map tt_cb (filter (\<lambda>t. tt_next t \<le> 250000000) (el_timers one_timer)))
        (one_timer\<lparr>el_timers := ts\<rparr>, []) \<and>
    map tt_id ts = map tt_id (el_timers one_timer) \<and> list_all (\<lambda>t. 250000000 < tt_next t) ts \<and>
    (\<forall>t \<in> set (el_timers one_timer). 250000000 < tt_next t \<longrightarrow> t \<in> set ts)"
  by (rule due_timers_run) (simp add: one_timer_def timers_ok_def runEvery_def new_EventLoop_def)

definition spawning :: "('cb \<Rightarrow> 'cb list) \<Rightarrow> ('cb, 'cb list) runner" where
  "spawning spawn cb st = (fold (queueInLoop True) (spawn cb) (fst st), snd st @ [cb])"

lemma queue_while_calling:
  "\<lbrakk>el_calling_pending el; 0 \<le> el_wakeup_fd el\<rbrakk> \<Longrightarrow>
   fold (queueInLoop b) cbs el = el\<lparr>el_pending := el_pending el @ cbs, el_wakeups := el_wakeups el + length cbs\<rparr>"
  by (induction cbs arbitrary: el) (simp_all add: queueInLoop_def wakeup_def Let_def)

lemma spawning_fold:
  "\<lbrakk>el_calling_pending el; 0 \<le> el_wakeup_fd el\<rbrakk> \<Longrightarrow> fold (spawning spawn) cbs (el, out) =
    (el\<lparr>el_pending := el_pending el @ concat (map spawn cbs),
        el_wakeups := el_wakeups el + length (concat (map spawn cbs))\<rparr>, out @ cbs)"
  by (induction cbs arbitrary: el out) (simp_all add: spawning_def queue_while_calling)

text \<open>
  Queued tasks run once, in order, and a task queued by a running task waits for the next
  turn: if each task \<open>cb\<close> logs itself and queues \<open>spawn cb\<close>, then \<open>doPendingFunctors\<close> logs exactly the
  queue it found, leaves exactly the new tasks queued, and has written to the \<open>eventfd\<close> once for
  each of them, so the next poll returns at once.
\<close>

theorem pending_tasks_run:
  assumes "0 \<le> el_wakeup_fd el"
  shows "doPendingFunctors (spawning spawn) (el, out) =
    (el\<lparr>el_pending := concat (map spawn (el_pending el)), el_calling_pending := False,
        el_wakeups := el_wakeups el + length (concat (map spawn (el_pending el)))\<rparr>, out @ el_pending el)"
  using assms by (simp add: doPendingFunctors_def spawning_fold Let_def)

theorem pending_tasks_run_witness:
  "doPendingFunctors (spawning (\<lambda>n. if n = 1 then [8, 9] else [])) (queueInLoop False 1 (queueInLoop False 2 (new_EventLoop 5)), []) =
    ((queueInLoop False 1 (queueInLoop False 2 (new_EventLoop 5)))\<lparr>
        el_pending := concat (map (\<lambda>n. if n = 1 then [8, 9] else []) (el_pending (queueInLoop False (1 :: nat) (queueInLoop False 2 (new_EventLoop 5))))),
        el_calling_pending := False,
        el_wakeups := el_wakeups (queueInLoop False (1 :: nat) (queueInLoop False 2 (new_EventLoop 5))) +
          length (concat (map (\<lambda>n. if n = 1 then [8 :: nat, 9] else []) (el_pending (queueInLoop False (1 :: nat) (queueInLoop False 2 (new_EventLoop 5))))))\<rparr>,
     [] @ el_pending (queueInLoop False (1 :: nat) (queueInLoop False 2 (new_EventLoop 5))))"
  by (rule pending_tasks_run) (simp add: queueInLoop_def wakeup_def new_EventLoop_def Let_def)

lemma loop_turns_forever:
  assumes "\<And>turn st. \<not> el_quit (fst st) \<Longrightarrow> \<not> el_quit (fst (loop_body dispatch run turn st))"
  shows "\<not> el_quit (fst st) \<Longrightarrow> \<not> fst (loop_turns dispatch run turns st)"
proof (induction turns arbitrary: st)
  case Nil
  then show ?case by (subst loop_turns.simps) simp
next
  case (Cons turn turns)
  then show ?case using assms by (subst loop_turns.simps) simp
qed

text \<open>
  A quit that comes before the loop is lost. \<open>loop\<close> clears \<open>quit_\<close> on entry, so calling \<open>quit\<close>
  between the construction of the loop and its start changes nothing but the wake-up counter:
  in the same turns the loop does the same and, as long as no callback quits, never returns.
\<close>

theorem early_quit_lost:
  "loop dispatch run turns (el\<lparr>el_quit := True\<rparr>, s) = loop dispatch run turns (el, s) \<and>
   ((\<forall>turn st. \<not> el_quit (fst st) \<longrightarrow> \<not> el_quit (fst (loop_body dispatch run turn st))) \<longrightarrow>
     \<not> fst (loop dispatch run turns (quit in_loop el, s)))"
  using loop_turns_forever [of dispatch run] by (auto simp: loop_def)

lemma idle_body: "\<not> el_quit (fst st) \<Longrightarrow> \<not> el_quit (fst (loop_body (\<lambda>_ st. st) (\<lambda>_ st. st) turn st))"
proof -
  have "fold (call (\<lambda>_ st. st)) fs st = st" for fs and st :: "'a event_loop \<times> 'b"
    by (induction fs) (auto simp: call_def split: option.split)
  moreover have "fold (\<lambda>_ st. st) xs st = st" for xs :: "'c list" and st :: "'a event_loop \<times> 'b" by (induction xs) auto
  moreover have "fold (\<lambda>_ st. st) xs st = st" for xs :: "'a list" and st :: "'a event_loop \<times> 'b" by (induction xs) auto
  ultimately show "\<not> el_quit (fst st) \<Longrightarrow> ?thesis"
    by (simp add: loop_body_def doPendingFunctors_def runDueTimers_def Let_def split: prod.split)
qed

theorem early_quit_lost_witness:
  "\<not> fst (loop (\<lambda>(_ :: nat) st. st) (\<lambda>_ st. st) [([], 0), ([], 1)] (quit False (new_EventLoop 5 :: nat event_loop), ()))"
  using early_quit_lost [of "\<lambda>(_ :: nat) st. st" "\<lambda>_ st. st" "[([], 0), ([], 1)]" "new_EventLoop 5 :: nat event_loop" "()" False]
    idle_body by blast

end
