(* ===== verification/LoopThreads.thy ===== *)
theory LoopThreads
  imports EventLoop
begin

text \<open>
  The loop among other threads. The first part interleaves \<open>EventLoop::loop\<close> with threads that
  call \<open>queueInLoop\<close>; the lock of \<open>mtx_\<close> makes pushing and swapping atomic, while the write to the
  \<open>eventfd\<close> comes later. The \<open>eventfd\<close> is a parameter: \<open>ring\<close> is a write, \<open>drain\<close> what
  \<open>handleWakeup\<close> reads away, \<open>readable\<close> what \<open>epoll_wait\<close> sees. The second part is
  \<open>src/EventLoopThread.cc\<close>, the third \<open>src/EventLoopThreadPool.cc\<close>.
\<close>

section \<open>Queueing from other threads\<close>

datatype phase = Polling | Handling | Calling

record ('cb, 'k) loop_sys =
  ls_phase :: phase
  ls_pending :: "'cb list"
  ls_functors :: "'cb list" \<comment> \<open>the swapped list that \<open>doPendingFunctors\<close> still has to call\<close>
  ls_bell :: 'k
  ls_owed :: nat \<comment> \<open>threads between their push and their write\<close>
  ls_queued :: "'cb list" \<comment> \<open>history\<close>
  ls_called :: "'cb list" \<comment> \<open>history\<close>

definition loop_start :: "'k \<Rightarrow> ('cb, 'k) loop_sys" where
  "loop_start k = \<lparr>ls_phase = Polling, ls_pending = [], ls_functors = [], ls_bell = k, ls_owed = 0, ls_queued = [], ls_called = []\<rparr>"

text \<open>
  \<open>epoll_wait\<close> returns (the wake-up channel's callback drains the bell if it is readable), a
  callback of the loop thread queues a task while handling events or timers, the queue is
  swapped, a task is called and queues \<open>cbs\<close>, the last one returns; another thread pushes, and
  writes.
\<close>

inductive loop_step :: "('k \<Rightarrow> 'k) \<Rightarrow> ('k \<Rightarrow> 'k) \<Rightarrow> ('k \<Rightarrow> bool) \<Rightarrow> ('cb, 'k) loop_sys \<Rightarrow> ('cb, 'k) loop_sys \<Rightarrow> bool"
  for ring drain readable where
  poll_returns: "ls_phase s = Polling \<Longrightarrow> loop_step ring drain readable s
     (s\<lparr>ls_phase := Handling, ls_bell := (if readable (ls_bell s) then drain (ls_bell s) else ls_bell s)\<rparr>)"
| queue_own: "ls_phase s = Handling \<Longrightarrow> loop_step ring drain readable s
     (s\<lparr>ls_pending := ls_pending s @ [cb], ls_queued := ls_queued s @ [cb]\<rparr>)"
| swap: "ls_phase s = Handling \<Longrightarrow> loop_step ring drain readable s
     (s\<lparr>ls_phase := Calling, ls_functors := ls_pending s, ls_pending := []\<rparr>)"
| call_one: "\<lbrakk>ls_phase s = Calling; ls_functors s = f # fs\<rbrakk> \<Longrightarrow> loop_step ring drain readable s
     (s\<lparr>ls_functors := fs, ls_called := ls_called s @ [f], ls_pending := ls_pending s @ cbs, ls_queued := ls_queued s @ cbs,
        ls_bell := (if cbs = [] then ls_bell s else ring (ls_bell s))\<rparr>)"
| calls_done: "\<lbrakk>ls_phase s = Calling; ls_functors s = []\<rbrakk> \<Longrightarrow> loop_step ring drain readable s (s\<lparr>ls_phase := Polling\<rparr>)"
| foreign_push: "loop_step ring drain readable s
     (s\<lparr>ls_pending := ls_pending s @ [cb], ls_queued := ls_queued s @ [cb], ls_owed := ls_owed s + 1\<rparr>)"
| foreign_ring: "0 < ls_owed s \<Longrightarrow> loop_step ring drain readable s
     (s\<lparr>ls_owed := ls_owed s - 1, ls_bell := ring (ls_bell s)\<rparr>)"

inductive loop_reachable :: "('k \<Rightarrow> 'k) \<Rightarrow> ('k \<Rightarrow> 'k) \<Rightarrow> ('k \<Rightarrow> bool) \<Rightarrow> 'k \<Rightarrow> ('cb, 'k) loop_sys \<Rightarrow> bool"
  for ring drain readable k where
  start: "loop_reachable ring drain readable k (loop_start k)"
| step: "\<lbrakk>loop_reachable ring drain readable k s; loop_step ring drain readable s s'\<rbrakk> \<Longrightarrow>
    loop_reachable ring drain readable k s'"

text \<open>What \<open>eventfd(2)\<close> promises: after a write the descriptor is readable until it is read.\<close>

definition eventfd_ok :: "('k \<Rightarrow> 'k) \<Rightarrow> ('k \<Rightarrow> bool) \<Rightarrow> bool" where
  "eventfd_ok ring readable \<longleftrightarrow> (\<forall>k. readable (ring k))"

definition loop_inv :: "('k \<Rightarrow> bool) \<Rightarrow> ('cb, 'k) loop_sys \<Rightarrow> bool" where
  "loop_inv readable s \<longleftrightarrow> ls_queued s = ls_called s @ ls_functors s @ ls_pending s \<and>
     (ls_phase s \<noteq> Calling \<longrightarrow> ls_functors s = []) \<and>
     (ls_phase s \<noteq> Handling \<and> ls_pending s \<noteq> [] \<longrightarrow> readable (ls_bell s) \<or> 0 < ls_owed s)"

lemma loop_inv_reachable:
  assumes "eventfd_ok ring readable"
  shows "loop_reachable ring drain readable k s \<Longrightarrow> loop_inv readable s"
proof (induction rule: loop_reachable.induct)
  case start
  then show ?case by (simp add: loop_inv_def loop_start_def)
next
  case (step s s')
  from step(2,3) show ?case
    using assms by (induction rule: loop_step.induct) (auto simp: loop_inv_def eventfd_ok_def)
qed

text \<open>
  C21: no queued task is forgotten. Tasks are called in the order they were queued, each once, and
  whenever the loop is about to block in \<open>epoll_wait\<close> with a task queued, the wake-up descriptor is
  readable or a thread is about to make it so.
\<close>

theorem no_lost_task:
  assumes "eventfd_ok ring readable" "loop_reachable ring drain readable k s"
  shows "ls_queued s = ls_called s @ ls_functors s @ ls_pending s \<and>
    (ls_phase s = Polling \<and> ls_pending s \<noteq> [] \<longrightarrow> readable (ls_bell s) \<or> 0 < ls_owed s)"
  using loop_inv_reachable [OF assms] by (simp add: loop_inv_def)

definition pushed_sys :: "(nat, nat) loop_sys" where
  "pushed_sys = (loop_start 0)\<lparr>ls_pending := [5], ls_queued := [5], ls_owed := 1\<rparr>"

lemma pushed_reachable: "loop_reachable Suc (\<lambda>_. 0) (\<lambda>k. 0 < k) 0 pushed_sys"
  using loop_reachable.step [OF loop_reachable.start loop_step.foreign_push [of _ _ _ "loop_start (0 :: nat)" "5 :: nat"]]
  by (simp add: pushed_sys_def loop_start_def)

theorem no_lost_task_witness:
  "ls_queued pushed_sys = [5] \<and> ls_phase pushed_sys = Polling \<and> (0 < ls_bell pushed_sys \<or> 0 < ls_owed pushed_sys)"
proof -
  have "ls_phase pushed_sys = Polling \<and> ls_pending pushed_sys \<noteq> [] \<and> ls_called pushed_sys @ ls_functors pushed_sys @ ls_pending pushed_sys = [5]"
    by (simp add: pushed_sys_def loop_start_def)
  moreover have "eventfd_ok Suc (\<lambda>k :: nat. 0 < k)" by (simp add: eventfd_ok_def)
  ultimately show ?thesis using no_lost_task [OF _ pushed_reachable] by simp
qed

section \<open>The thread of a loop\<close>

text \<open>
  \<open>threadFunc\<close> builds its loop, publishes it under the lock, enters \<open>loop()\<close>, which clears \<open>quit_\<close>, and
  withdraws the pointer when it has left it. Inside \<open>loop()\<close> the thread tests \<open>quit_\<close> (\<open>Checking\<close>), blocks in
  \<open>epoll_wait\<close> (\<open>Waiting\<close>) until the wake-up descriptor or another descriptor is ready, and handles what it
  got (\<open>Working\<close>), which reads the wake-up descriptor empty; the loops of such threads have no timers, so the wait has no
  time limit. Handlers are taken to return, and \<open>eventfd\<close> to have succeeded. One other thread calls \<open>startLoop\<close> and \<open>stop\<close>. \<open>stop\<close> holds the lock while \<open>quit\<close> sets \<open>quit_\<close> and
  then writes the wake-up descriptor, which are two steps, and joins afterwards.
\<close>

datatype thread_state = NotStarted | Building | Published | Checking | Waiting | Working | Leaving | Finished
datatype control = Outside | AwaitingLoop | Ringing | Joining

record loop_thread =
  lt_thread :: thread_state
  lt_control :: control
  lt_started :: bool
  lt_joinable :: bool
  lt_loop :: bool \<comment> \<open>\<open>loop_ != nullptr\<close>\<close>
  lt_quit :: bool \<comment> \<open>\<open>quit_\<close> of the loop\<close>
  lt_bell :: bool \<comment> \<open>\<open>wakeup_fd_\<close> is readable\<close>
  lt_events :: nat \<comment> \<open>how often the other descriptors of the loop will be ready\<close>

definition new_EventLoopThread :: "nat \<Rightarrow> loop_thread" where
  "new_EventLoopThread n = \<lparr>lt_thread = NotStarted, lt_control = Outside, lt_started = False, lt_joinable = False,
     lt_loop = False, lt_quit = False, lt_bell = False, lt_events = n\<rparr>"

definition startLoop_begin :: "loop_thread \<Rightarrow> loop_thread" where
  "startLoop_begin s =
     (if \<not> lt_started s then s\<lparr>lt_thread := Building, lt_joinable := True, lt_started := True, lt_control := AwaitingLoop\<rparr>
      else s\<lparr>lt_control := AwaitingLoop\<rparr>)"

definition stop_begin :: "loop_thread \<Rightarrow> loop_thread" where
  "stop_begin s =
     (if \<not> lt_joinable s then s
      else if lt_loop s then s\<lparr>lt_quit := True, lt_control := Ringing\<rparr>
      else s\<lparr>lt_control := Joining\<rparr>)"

text \<open>The second half of \<open>quit\<close>: \<open>wakeup\<close>, and the lock is released.\<close>

definition stop_ring :: "loop_thread \<Rightarrow> loop_thread" where
  "stop_ring s = s\<lparr>lt_bell := True, lt_control := Joining\<rparr>"

text \<open>The return of \<open>epoll_wait\<close> with \<open>k\<close> other descriptors; the wake-up channel is among the active ones if it is readable.\<close>

definition poll_return :: "nat \<Rightarrow> loop_thread \<Rightarrow> loop_thread" where
  "poll_return k s = s\<lparr>lt_thread := Working, lt_bell := False, lt_events := lt_events s - k\<rparr>"

inductive lt_step :: "loop_thread \<Rightarrow> loop_thread \<Rightarrow> bool" where
  start_loop: "lt_control s = Outside \<Longrightarrow> lt_step s (startLoop_begin s)"
| loop_ready: "\<lbrakk>lt_control s = AwaitingLoop; lt_loop s\<rbrakk> \<Longrightarrow> lt_step s (s\<lparr>lt_control := Outside\<rparr>)"
| stop_loop: "lt_control s = Outside \<Longrightarrow> lt_step s (stop_begin s)"
| ring: "lt_control s = Ringing \<Longrightarrow> lt_step s (stop_ring s)"
| join_returns: "\<lbrakk>lt_control s = Joining; lt_thread s = Finished\<rbrakk> \<Longrightarrow>
    lt_step s (s\<lparr>lt_control := Outside, lt_joinable := False\<rparr>)"
| publish: "lt_thread s = Building \<Longrightarrow> lt_step s (s\<lparr>lt_thread := Published, lt_loop := True\<rparr>)"
| enter: "lt_thread s = Published \<Longrightarrow> lt_step s (s\<lparr>lt_thread := Checking, lt_quit := False\<rparr>)"
| check: "lt_thread s = Checking \<Longrightarrow> lt_step s (s\<lparr>lt_thread := (if lt_quit s then Leaving else Waiting)\<rparr>)"
| poll: "\<lbrakk>lt_thread s = Waiting; lt_bell s \<or> 0 < k; k \<le> lt_events s\<rbrakk> \<Longrightarrow> lt_step s (poll_return k s)"
| handled: "lt_thread s = Working \<Longrightarrow> lt_step s (s\<lparr>lt_thread := Checking\<rparr>)"
| withdraw: "\<lbrakk>lt_thread s = Leaving; lt_control s \<noteq> Ringing\<rbrakk> \<Longrightarrow> lt_step s (s\<lparr>lt_thread := Finished, lt_loop := False\<rparr>)"

inductive lt_reachable :: "loop_thread \<Rightarrow> bool" where
  start: "lt_reachable (new_EventLoopThread n)"
| step: "\<lbrakk>lt_reachable s; lt_step s s'\<rbrakk> \<Longrightarrow> lt_reachable s'"

inductive_simps lt_step_simps: "lt_step s s'"

lemmas lt_defs = startLoop_begin_def stop_begin_def stop_ring_def poll_return_def new_EventLoopThread_def

text \<open>The thread is in \<open>loop()\<close>.\<close>

definition in_loop :: "loop_thread \<Rightarrow> bool" where
  "in_loop s \<longleftrightarrow> lt_thread s \<in> {Checking, Waiting, Working}"

definition lt_ok :: "loop_thread \<Rightarrow> bool" where
  "lt_ok s \<longleftrightarrow> (lt_loop s \<longleftrightarrow> lt_thread s = Published \<or> in_loop s \<or> lt_thread s = Leaving) \<and>
     (lt_started s \<longleftrightarrow> lt_thread s \<noteq> NotStarted) \<and>
     (lt_control s \<noteq> AwaitingLoop \<longrightarrow> lt_thread s \<noteq> Building) \<and> (lt_control s = Ringing \<longrightarrow> lt_loop s) \<and>
     (lt_control s \<in> {Ringing, Joining} \<longrightarrow> lt_joinable s) \<and> (lt_joinable s \<longrightarrow> lt_thread s \<noteq> NotStarted)"

lemma lt_ok_step: "\<lbrakk>lt_step s s'; lt_ok s\<rbrakk> \<Longrightarrow> lt_ok s'"
  by (induction rule: lt_step.induct) (auto simp: lt_ok_def in_loop_def lt_defs)

lemma lt_ok_reachable: "lt_reachable s \<Longrightarrow> lt_ok s"
proof (induction rule: lt_reachable.induct)
  case (start n)
  then show ?case by (simp add: lt_ok_def in_loop_def new_EventLoopThread_def)
qed (rule lt_ok_step)

text \<open>
  \<open>startLoop\<close> returns a live loop: whenever it returns, the thread has published its loop and
  the object is still there, and a fresh thread gets there by itself.
\<close>

theorem startLoop_returns_loop:
  assumes "lt_reachable s" "lt_control s = AwaitingLoop"
  shows "(lt_loop s \<longleftrightarrow> lt_thread s = Published \<or> in_loop s \<or> lt_thread s = Leaving) \<and>
    (lt_thread s = Building \<longrightarrow> lt_step s (s\<lparr>lt_thread := Published, lt_loop := True\<rparr>)) \<and>
    (\<forall>s'. lt_step s s' \<and> lt_control s' = Outside \<longrightarrow> lt_loop s \<and> lt_loop s')"
  using lt_ok_reachable [OF assms(1)] assms(2) by (auto simp: lt_ok_def lt_step_simps lt_defs)

text \<open>States of a thread that was started.\<close>

definition lt_at :: "thread_state \<Rightarrow> control \<Rightarrow> bool \<Rightarrow> bool \<Rightarrow> loop_thread" where
  "lt_at th co q bell = \<lparr>lt_thread = th, lt_control = co, lt_started = True, lt_joinable = True, lt_loop = True, lt_quit = q,
     lt_bell = bell, lt_events = 0\<rparr>"

lemma lt_at_reachable: "lt_reachable (lt_at Published Outside False False)"
proof -
  let ?s = "startLoop_begin (new_EventLoopThread 0)"
  have 1: "lt_reachable ?s"
    by (rule lt_reachable.step [OF lt_reachable.start [of 0] lt_step.start_loop]) (simp add: new_EventLoopThread_def)
  have 2: "lt_reachable (?s\<lparr>lt_thread := Published, lt_loop := True\<rparr>)"
    by (rule lt_reachable.step [OF 1 lt_step.publish]) (simp add: lt_defs)
  show ?thesis
    by (rule lt_reachable.step [OF 2]) (simp add: lt_step_simps lt_defs lt_at_def)
qed

lemma lt_at_steps:
  "lt_step (lt_at Published Outside False False) (lt_at Published Ringing True False)"
  "lt_step (lt_at Published Ringing q b) (lt_at Published Joining q True)"
  "lt_step (lt_at Published co q b) (lt_at Checking co False b)"
  "lt_step (lt_at Checking co False b) (lt_at Waiting co False b)"
  "lt_step (lt_at Waiting co False True) (lt_at Working co False False)"
  "lt_step (lt_at Working co False b) (lt_at Checking co False b)"
  by (simp_all add: lt_at_def lt_step_simps lt_defs)

definition hung :: loop_thread where
  "hung = lt_at Waiting Joining False False"

text \<open>
  C38: \<open>stop\<close> can wait for ever. If \<open>stop\<close> runs after the loop is published and before the thread has
  entered \<open>loop()\<close>, the entry clears the request; the thread wakes up once, finds no request and waits again, and
  the caller hangs in \<open>join\<close>: a reachable state from which no step is possible.
\<close>

theorem stop_can_hang: "lt_reachable hung \<and> lt_control hung = Joining \<and> (\<nexists>s'. lt_step hung s')"
proof -
  note n = lt_reachable.step
  have "lt_reachable (lt_at Published Joining True True)" by (rule n [OF n [OF lt_at_reachable lt_at_steps(1)] lt_at_steps(2)])
  then have "lt_reachable (lt_at Waiting Joining False True)" by (rule n [OF n [OF _ lt_at_steps(3)] lt_at_steps(4)])
  then have "lt_reachable (lt_at Checking Joining False False)" by (rule n [OF n [OF _ lt_at_steps(5)] lt_at_steps(6)])
  then have "lt_reachable hung" unfolding hung_def by (rule n [OF _ lt_at_steps(4)])
  moreover have "\<nexists>s'. lt_step hung s'" by (simp add: lt_step_simps hung_def lt_at_def)
  ultimately show ?thesis by (simp add: hung_def lt_at_def)
qed

text \<open>
  The steps after \<open>stop\<close> has begun until it returns, and what holds meanwhile: the request stays, and a
  thread that waits will be woken.
\<close>

definition stop_step :: "loop_thread \<Rightarrow> loop_thread \<Rightarrow> bool" where
  "stop_step s s' \<longleftrightarrow> lt_control s \<noteq> Outside \<and> lt_step s s'"

definition stopping :: "loop_thread \<Rightarrow> bool" where
  "stopping s \<longleftrightarrow> lt_quit s \<and> lt_joinable s \<and> (lt_loop s \<longleftrightarrow> lt_thread s \<noteq> Finished) \<and>
     (in_loop s \<or> lt_thread s \<in> {Leaving, Finished}) \<and>
     (lt_control s = Ringing \<and> lt_loop s \<or> lt_control s = Joining \<and> (lt_thread s = Waiting \<longrightarrow> lt_bell s))"

definition stopped :: "loop_thread \<Rightarrow> bool" where
  "stopped s \<longleftrightarrow> lt_control s = Outside \<and> \<not> lt_joinable s \<and> lt_thread s = Finished \<and> \<not> lt_loop s"

lemma stopping_lt_step: "\<lbrakk>lt_step s s'; lt_control s \<noteq> Outside; stopping s\<rbrakk> \<Longrightarrow> stopping s' \<or> stopped s'"
  by (induction rule: lt_step.induct) (simp_all add: stopping_def stopped_def in_loop_def stop_ring_def poll_return_def, auto)

lemma stopping_step: "stop_step s s' \<Longrightarrow> stopping s \<Longrightarrow> stopping s' \<or> stopped s'"
  unfolding stop_step_def using stopping_lt_step by blast

lemma stopping_progress: assumes "stopping s" shows "\<exists>s'. stop_step s s'"
proof -
  consider "lt_control s = Ringing" | "lt_control s = Joining" "lt_thread s = Waiting" "lt_bell s" | "lt_control s = Joining" "lt_thread s = Working"
    | "lt_control s = Joining" "lt_thread s = Checking" | "lt_control s = Joining" "lt_thread s = Leaving" | "lt_control s = Joining" "lt_thread s = Finished"
    using assms by (auto simp: stopping_def in_loop_def)
  then have "\<exists>s'. lt_step s s'"
  proof cases
    case 2
    then show ?thesis using lt_step.poll [of s 0] by auto
  next
    case 5
    then show ?thesis using lt_step.withdraw [of s] by auto
  qed (auto intro: lt_step.ring lt_step.handled lt_step.check lt_step.join_returns)
  then show ?thesis using assms by (auto simp: stop_step_def stopping_def)
qed

fun thread_rank :: "thread_state \<Rightarrow> nat" where
  "thread_rank Waiting = 4" | "thread_rank Working = 3" | "thread_rank Checking = 2" | "thread_rank Leaving = 1" | "thread_rank th = 0"

fun control_rank :: "control \<Rightarrow> nat" where
  "control_rank Ringing = 2" | "control_rank Joining = 1" | "control_rank co = 0"

lemma stopping_rank_step:
  "\<lbrakk>lt_step s s'; lt_control s \<noteq> Outside; stopping s\<rbrakk> \<Longrightarrow>
   thread_rank (lt_thread s') + control_rank (lt_control s') < thread_rank (lt_thread s) + control_rank (lt_control s)"
  by (induction rule: lt_step.induct) (simp_all add: stopping_def in_loop_def stop_ring_def poll_return_def)

lemma stopping_rank:
  "stop_step s s' \<Longrightarrow> stopping s \<Longrightarrow> thread_rank (lt_thread s') + control_rank (lt_control s') < thread_rank (lt_thread s) + control_rank (lt_control s)"
  unfolding stop_step_def using stopping_rank_step by blast

lemma stopping_run: "stop_step\<^sup>*\<^sup>* s s' \<Longrightarrow> stopping s \<Longrightarrow> stopping s' \<or> stopped s'"
proof (induction rule: rtranclp_induct)
  case (step s1 s2)
  then show ?case using stopping_step [of s1 s2] by (auto simp: stopped_def stop_step_def)
qed simp

lemma no_endless_stop:
  assumes "stopping (g 0)" "\<And>k. stop_step (g k) (g (Suc k))"
  shows False
proof -
  let ?r = "\<lambda>k. thread_rank (lt_thread (g k)) + control_rank (lt_control (g k))"
  have s: "stopping (g k)" for k
  proof (induction k)
    case (Suc k)
    then show ?case using stopping_step [OF assms(2)] assms(2) [of "Suc k"] by (auto simp: stopped_def stop_step_def)
  qed (rule assms(1))
  have "?r k + k \<le> ?r 0" for k
  proof (induction k)
    case (Suc k)
    then show ?case using stopping_rank [OF assms(2) s, of k] by simp
  qed simp
  from this [of "Suc (?r 0)"] show False by simp
qed

text \<open>
  C32: once the thread is in \<open>loop()\<close>, also when it blocks in \<open>epoll_wait\<close> and no other descriptor will ever be
  ready, \<open>stop\<close> works: in every interleaving, as long as \<open>stop\<close> has not returned a further step is possible, there is no
  endless continuation, and when \<open>stop\<close> returns the thread has ended and its loop is withdrawn.
\<close>

theorem stop_ends_running_loop:
  assumes "lt_reachable s" "lt_control s = Outside" "lt_joinable s" "in_loop s"
  shows "(\<forall>s'. stop_step\<^sup>*\<^sup>* (stop_begin s) s' \<longrightarrow> (if lt_control s' = Outside then stopped s' else \<exists>s''. stop_step s' s'')) \<and>
    (\<nexists>g. g 0 = stop_begin s \<and> (\<forall>k. stop_step (g k) (g (Suc k))))"
proof -
  have "stopping (stop_begin s)"
    using lt_ok_reachable [OF assms(1)] assms(2-4) by (auto simp: lt_ok_def stopping_def stop_begin_def in_loop_def)
  note b = this
  note stop = stopping_run [OF _ b]
  have "if lt_control s' = Outside then stopped s' else \<exists>s''. stop_step s' s''" if "stop_step\<^sup>*\<^sup>* (stop_begin s) s'" for s'
    using stop [OF that] stopping_progress [of s'] by (auto simp: stopping_def stopped_def)
  moreover have "\<not> (g 0 = stop_begin s \<and> (\<forall>k. stop_step (g k) (g (Suc k))))" for g :: "nat \<Rightarrow> loop_thread"
    using no_endless_stop [of g] b by metis
  ultimately show ?thesis by blast
qed

theorem stop_ends_running_loop_witness:
  "lt_reachable (lt_at Waiting Outside False False) \<and> stop_begin (lt_at Waiting Outside False False) = lt_at Waiting Ringing True False \<and>
   (\<exists>s'. stop_step (lt_at Waiting Ringing True False) s')"
proof -
  let ?s = "lt_at Waiting Outside False False"
  have r: "lt_reachable ?s"
    by (rule lt_reachable.step [OF lt_reachable.step [OF lt_at_reachable lt_at_steps(3)] lt_at_steps(4)])
  have b: "stop_begin ?s = lt_at Waiting Ringing True False" "lt_control (lt_at Waiting Ringing True False) \<noteq> Outside"
    by (simp_all add: stop_begin_def lt_at_def)
  have "lt_control ?s = Outside" "lt_joinable ?s" "in_loop ?s" by (simp_all add: lt_at_def in_loop_def)
  from stop_ends_running_loop [OF r this, THEN conjunct1, rule_format, OF rtranclp.rtrancl_refl] r b show ?thesis by simp
qed

section \<open>The pool of loops\<close>

record 'l loop_pool =
  lp_base :: 'l
  lp_thread_num :: int
  lp_next :: u64
  lp_threads :: "string list" \<comment> \<open>the names\<close>
  lp_loops :: "'l list"
  lp_stopped :: "string list" \<comment> \<open>history: the threads whose \<open>stop\<close> has returned\<close>

definition new_EventLoopThreadPool :: "'l \<Rightarrow> 'l loop_pool" where
  "new_EventLoopThreadPool base = \<lparr>lp_base = base, lp_thread_num = 0, lp_next = 0, lp_threads = [], lp_loops = [], lp_stopped = []\<rparr>"

definition setThreadNum :: "int \<Rightarrow> 'l loop_pool \<Rightarrow> 'l loop_pool" where
  "setThreadNum n p = p\<lparr>lp_thread_num := (if n < 0 then 0 else n)\<rparr>"

text \<open>\<open>loop_of name\<close> is what \<open>startLoop\<close> of the thread with that name returns.\<close>

fun start_threads :: "(string \<Rightarrow> 'l) \<Rightarrow> string \<Rightarrow> nat \<Rightarrow> nat \<Rightarrow> 'l loop_pool \<Rightarrow> 'l loop_pool" where
  "start_threads loop_of name i 0 p = p"
| "start_threads loop_of name i (Suc n) p =
     (let nm = name @ ''-'' @ show_nat i
      in start_threads loop_of name (Suc i) n
           (p\<lparr>lp_loops := lp_loops p @ [loop_of nm], lp_threads := lp_threads p @ [nm]\<rparr>))"

definition pool_start :: "(string \<Rightarrow> 'l) \<Rightarrow> string \<Rightarrow> 'l loop_pool \<Rightarrow> 'l loop_pool" where
  "pool_start loop_of name p =
     (if lp_thread_num p \<le> 0 then p else start_threads loop_of name 0 (nat (lp_thread_num p)) p)"

definition pool_stop :: "'l loop_pool \<Rightarrow> 'l loop_pool" where
  "pool_stop p = p\<lparr>lp_stopped := lp_stopped p @ lp_threads p, lp_threads := [], lp_loops := []\<rparr>"

definition nextLoop :: "'l loop_pool \<Rightarrow> 'l \<times> 'l loop_pool" where
  "nextLoop p =
     (if lp_loops p = [] then (lp_base p, p)
      else (lp_loops p ! (unat (lp_next p) mod length (lp_loops p)), p\<lparr>lp_next := lp_next p + 1\<rparr>))"

fun take_loops :: "nat \<Rightarrow> 'l loop_pool \<Rightarrow> 'l list \<times> 'l loop_pool" where
  "take_loops 0 p = ([], p)"
| "take_loops (Suc n) p = (let (l, p) = nextLoop p; (ls, p) = take_loops n p in (l # ls, p))"

lemma start_threads_loops:
  "lp_loops (start_threads loop_of name i n p) = lp_loops p @ map (\<lambda>k. loop_of (name @ ''-'' @ show_nat k)) [i..<i + n] \<and>
   lp_base (start_threads loop_of name i n p) = lp_base p \<and> lp_next (start_threads loop_of name i n p) = lp_next p \<and>
   lp_threads (start_threads loop_of name i n p) = lp_threads p @ map (\<lambda>k. name @ ''-'' @ show_nat k) [i..<i + n] \<and>
   lp_stopped (start_threads loop_of name i n p) = lp_stopped p"
proof (induction n arbitrary: i p)
  case (Suc n)
  have "[i..<i + Suc n] = i # [Suc i..<Suc i + n]" by (simp add: upt_conv_Cons)
  with Suc show ?case by (simp add: Let_def)
qed simp

lemma take_loops_nth:
  "\<lbrakk>lp_loops p \<noteq> []; unat (lp_next p) + n < 2 ^ 64\<rbrakk> \<Longrightarrow>
   fst (take_loops n p) = map (\<lambda>j. lp_loops p ! ((unat (lp_next p) + j) mod length (lp_loops p))) [0..<n]"
proof (induction n arbitrary: p)
  case (Suc n)
  have ne: "lp_next p \<noteq> -1" using Suc.prems(2) by (auto simp: unsigned_minus_1_eq_mask mask_eq_exp_minus_1)
  let ?q = "p\<lparr>lp_next := lp_next p + 1\<rparr>"
  have q: "unat (lp_next ?q) = Suc (unat (lp_next p))" using unat_plus_1 [OF ne] by simp
  have "fst (take_loops n ?q) = map (\<lambda>j. lp_loops p ! ((unat (lp_next p) + Suc j) mod length (lp_loops p))) [0..<n]"
    using Suc.IH [of ?q] Suc.prems q by simp
  moreover have "[0..<Suc n] = 0 # map Suc [0..<n]" by (simp add: map_Suc_upt upt_conv_Cons)
  ultimately show ?case
    using Suc.prems(1) by (cases "take_loops n ?q") (simp add: nextLoop_def Let_def comp_def)
qed simp

text \<open>
  Connections are spread evenly. A pool started with \<open>n > 0\<close> threads has the \<open>n\<close> loops of its
  threads, the \<open>j\<close>-th call of \<open>nextLoop\<close> returns loop \<open>j mod n\<close>, so any \<open>n\<close> consecutive calls return
  every loop once; a pool without threads always returns the base loop.
\<close>

theorem round_robin:
  assumes "0 < n" "n + k < 2 ^ 64"
  shows "lp_loops (pool_start loop_of name (setThreadNum (int n) (new_EventLoopThreadPool base))) =
      map (\<lambda>i. loop_of (name @ ''-'' @ show_nat i)) [0..<n] \<and>
    fst (take_loops k (pool_start loop_of name (setThreadNum (int n) (new_EventLoopThreadPool base)))) =
      map (\<lambda>j. loop_of (name @ ''-'' @ show_nat (j mod n))) [0..<k] \<and>
    fst (nextLoop (pool_start loop_of name (setThreadNum (- int k) (new_EventLoopThreadPool base)))) = base"
proof -
  let ?p = "pool_start loop_of name (setThreadNum (int n) (new_EventLoopThreadPool base))"
  have p: "lp_loops ?p = map (\<lambda>i. loop_of (name @ ''-'' @ show_nat i)) [0..<n]" "lp_next ?p = 0"
    using start_threads_loops [of loop_of name 0 n "setThreadNum (int n) (new_EventLoopThreadPool base)"] assms(1)
    by (simp_all add: pool_start_def setThreadNum_def new_EventLoopThreadPool_def)
  have "fst (take_loops k ?p) = map (\<lambda>j. lp_loops ?p ! ((unat (lp_next ?p) + j) mod length (lp_loops ?p))) [0..<k]"
    by (rule take_loops_nth) (use p assms in auto)
  then have "fst (take_loops k ?p) = map (\<lambda>j. loop_of (name @ ''-'' @ show_nat (j mod n))) [0..<k]"
    using p assms(1) by simp
  moreover have "fst (nextLoop (pool_start loop_of name (setThreadNum (- int k) (new_EventLoopThreadPool base)))) = base"
    by (simp add: nextLoop_def pool_start_def setThreadNum_def new_EventLoopThreadPool_def)
  ultimately show ?thesis using p(1) by simp
qed

theorem round_robin_witness:
  "lp_loops (pool_start id ''io'' (setThreadNum (int 3) (new_EventLoopThreadPool ''base''))) =
      map (\<lambda>i. id (''io'' @ ''-'' @ show_nat i)) [0..<3] \<and>
    fst (take_loops 7 (pool_start id ''io'' (setThreadNum (int 3) (new_EventLoopThreadPool ''base'')))) =
      map (\<lambda>j. id (''io'' @ ''-'' @ show_nat (j mod 3))) [0..<7] \<and>
    fst (nextLoop (pool_start id ''io'' (setThreadNum (- int 7) (new_EventLoopThreadPool ''base'')))) = ''base''"
  by (rule round_robin) simp_all

end
