(* ===== verification/TcpServer.thy ===== *)
theory TcpServer
  imports Buffer Channel LoopThreads
begin

text \<open>
  \<open>src/TcpServer.cc\<close>: the table of connections, accepting, reading, buffered writing, closing and
  the sweep of idle connections. Connection objects are shared between the table, the tasks of
  the loops and the callbacks, so they live in a store under their unique id, and the table maps
  a descriptor to an id. A closure given to \<open>runInLoop\<close> is a value of type \<open>task\<close>; it runs at
  once in its own loop and is queued otherwise. The application callbacks act on an application
  state \<open>'a\<close>. System calls are arguments: the answers of \<open>send\<close> still to come are \<open>ts_sends\<close> (none
  left: \<open>EAGAIN\<close>), those of \<open>readv\<close> and \<open>accept4\<close> are lists of the handlers. \<open>ts_log\<close> records what
  the handlers did to descriptors. The memory of the objects (\<open>MemoryPool\<close>) is
  added in \<open>ConnMemory\<close>; log lines are not part of this model.
\<close>

section \<open>State\<close>

datatype tcp_cb = OnReadable u64 | OnWritable u64 | OnClose u64

datatype task = AddConn fd u64 nat | AppendFlush u64 string | CloseTask u64

datatype effect = Sent fd string | Closed fd

record conn =
  cn_fd :: fd
  cn_id :: u64
  cn_owner :: nat
  cn_channel :: "tcp_cb channel"
  cn_in :: buffer
  cn_out :: string
  cn_writing :: bool
  cn_last_active_ms :: int
  cn_recv_bytes :: u64

record tcp =
  ts_conns :: "(fd, u64) umap"
  ts_store :: "(u64, conn) umap"
  ts_pollers :: "nat \<Rightarrow> u64 poller"
  ts_tasks :: "nat \<Rightarrow> task list"
  ts_pool :: "nat loop_pool"
  ts_conn_count :: u64
  ts_next_conn_id :: u64
  ts_recv_bytes :: u64
  ts_closed_idle :: u64
  ts_idle_timeout_s :: int
  ts_sends :: "(errno + nat) list"
  ts_log :: "effect list"

text \<open>The thread that runs: its loop, the clock, \<open>epoll_ctl\<close> and the connection callback.\<close>

record 'a env =
  env_loop :: nat
  env_now :: int
  env_ctl :: epoll_ctl
  env_on_connection :: "fd \<Rightarrow> u64 \<Rightarrow> bool \<Rightarrow> 'a \<Rightarrow> 'a"

definition new_TcpServer :: "nat loop_pool \<Rightarrow> int \<Rightarrow> tcp" where
  "new_TcpServer lp idle = \<lparr>ts_conns = [], ts_store = [], ts_pollers = (\<lambda>_. []), ts_tasks = (\<lambda>_. []), ts_pool = lp,
     ts_conn_count = 0, ts_next_conn_id = 1, ts_recv_bytes = 0, ts_closed_idle = 0, ts_idle_timeout_s = idle,
     ts_sends = [], ts_log = []\<rparr>"

section \<open>Connection objects\<close>

definition new_Conn :: "fd \<Rightarrow> u64 \<Rightarrow> nat \<Rightarrow> int \<Rightarrow> conn" where
  "new_Conn f i owner now = \<lparr>cn_fd = f, cn_id = i, cn_owner = owner, cn_channel = new_Channel f, cn_in = new_Buffer 1024,
     cn_out = [], cn_writing = False, cn_last_active_ms = now, cn_recv_bytes = 0\<rparr>"

definition upd_conn :: "u64 \<Rightarrow> (conn \<Rightarrow> conn) \<Rightarrow> tcp \<Rightarrow> tcp" where
  "upd_conn i f s =
     (case um_find (ts_store s) i of None \<Rightarrow> s | Some c \<Rightarrow> s\<lparr>ts_store := um_put i (f c) (ts_store s)\<rparr>)"

text \<open>An operation of the channel of a connection, on the poller of its loop.\<close>

definition chan_op :: "(tcp_cb channel \<times> u64 poller \<Rightarrow> tcp_cb channel \<times> u64 poller) \<Rightarrow> u64 \<Rightarrow> tcp \<Rightarrow> tcp" where
  "chan_op f i s =
     (case um_find (ts_store s) i of
        None \<Rightarrow> s
      | Some c \<Rightarrow>
          (let (ch, po) = f (cn_channel c, ts_pollers s (cn_owner c))
           in s\<lparr>ts_store := um_put i (c\<lparr>cn_channel := ch\<rparr>) (ts_store s), ts_pollers := (ts_pollers s)(cn_owner c := po)\<rparr>))"

definition log_effect :: "effect \<Rightarrow> tcp \<Rightarrow> tcp" where
  "log_effect e s = s\<lparr>ts_log := ts_log s @ [e]\<rparr>"

section \<open>Operations\<close>

definition closeConnInLoop :: "'a env \<Rightarrow> u64 \<Rightarrow> tcp \<times> 'a \<Rightarrow> tcp \<times> 'a" where
  "closeConnInLoop e i w =
     (case um_find (ts_store (fst w)) i of
        None \<Rightarrow> w
      | Some c \<Rightarrow>
          if um_find (ts_conns (fst w)) (cn_fd c) = None then w
          else
            (let s = (fst w)\<lparr>ts_conns := um_erase (cn_fd c) (ts_conns (fst w))\<rparr>;
                 s = chan_op disableAll i s;
                 a = env_on_connection e (cn_fd c) (cn_id c) False (snd w)
             in (log_effect (Closed (cn_fd c)) s, a)))"

definition pop_send :: "tcp \<Rightarrow> (errno + nat) \<times> tcp" where
  "pop_send s = (case ts_sends s of [] \<Rightarrow> (Inl EAGAIN, s) | x # xs \<Rightarrow> (x, s\<lparr>ts_sends := xs\<rparr>))"

lemma pop_send_shorter: "pop_send s = (x, s') \<Longrightarrow> x = Inl EAGAIN \<or> length (ts_sends s') < length (ts_sends s)"
  by (auto simp: pop_send_def split: list.splits)

lemma upd_conn_sends [simp]: "ts_sends (upd_conn i f s) = ts_sends s"
  by (simp add: upd_conn_def split: option.split)

lemma log_effect_sends [simp]: "ts_sends (log_effect e s) = ts_sends s"
  by (simp add: log_effect_def)

function flushWrite :: "'a env \<Rightarrow> u64 \<Rightarrow> tcp \<times> 'a \<Rightarrow> tcp \<times> 'a" where
  "flushWrite e i w =
     (case um_find (ts_store (fst w)) i of
        None \<Rightarrow> w
      | Some c \<Rightarrow>
          if cn_out c = [] then
            (if cn_writing c
             then (chan_op (disableWriting (env_ctl e) i) i (upd_conn i (\<lambda>c. c\<lparr>cn_writing := False\<rparr>) (fst w)), snd w)
             else w)
          else
            (case pop_send (fst w) of
               (Inr n, s) \<Rightarrow>
                 if n > 0
                 then flushWrite e i
                   (log_effect (Sent (cn_fd c) (take n (cn_out c))) (upd_conn i (\<lambda>c. c\<lparr>cn_out := drop n (cn_out c)\<rparr>) s), snd w)
                 else closeConnInLoop e i (s, snd w)
             | (Inl er, s) \<Rightarrow>
                 if er = EAGAIN then
                   (if \<not> cn_writing c
                    then (chan_op (enableWriting (env_ctl e) i) i (upd_conn i (\<lambda>c. c\<lparr>cn_writing := True\<rparr>) s), snd w)
                    else (s, snd w))
                 else if er = EINTR then flushWrite e i (s, snd w)
                 else closeConnInLoop e i (s, snd w)))"
  by pat_completeness auto
termination
  by (relation "measure (\<lambda>(e, i, w). length (ts_sends (fst w)))") (auto dest!: pop_send_shorter [OF sym])

declare flushWrite.simps [simp del]

definition appendAndFlush :: "'a env \<Rightarrow> u64 \<Rightarrow> string \<Rightarrow> tcp \<times> 'a \<Rightarrow> tcp \<times> 'a" where
  "appendAndFlush e i data w =
     (case um_find (ts_store (fst w)) i of
        None \<Rightarrow> w
      | Some c \<Rightarrow>
          (let s = upd_conn i (\<lambda>c. c\<lparr>cn_last_active_ms := env_now e, cn_out := cn_out c @ data\<rparr>) (fst w)
           in if cn_writing c then (s, snd w) else flushWrite e i (s, snd w)))"

definition addConnection :: "'a env \<Rightarrow> fd \<Rightarrow> u64 \<Rightarrow> nat \<Rightarrow> tcp \<times> 'a \<Rightarrow> tcp \<times> 'a" where
  "addConnection e cfd i l w =
     (let c = new_Conn cfd i l (env_now e);
          c = c\<lparr>cn_channel := (cn_channel c)\<lparr>ch_read_cb := Some (OnReadable i), ch_write_cb := Some (OnWritable i),
            ch_close_cb := Some (OnClose i)\<rparr>\<rparr>;
          s = (fst w)\<lparr>ts_store := um_put i c (ts_store (fst w))\<rparr>;
          s = chan_op (enableReading (env_ctl e) i) i s;
          s = s\<lparr>ts_conns := um_put cfd i (ts_conns s), ts_conn_count := ts_conn_count s + 1\<rparr>
      in (s, env_on_connection e cfd i True (snd w)))"

definition exec_task :: "'a env \<Rightarrow> task \<Rightarrow> tcp \<times> 'a \<Rightarrow> tcp \<times> 'a" where
  "exec_task e t w =
     (case t of AddConn cfd i l \<Rightarrow> addConnection e cfd i l w
      | AppendFlush i data \<Rightarrow> appendAndFlush e i data w
      | CloseTask i \<Rightarrow> closeConnInLoop e i w)"

definition run_in_loop :: "'a env \<Rightarrow> nat \<Rightarrow> task \<Rightarrow> tcp \<times> 'a \<Rightarrow> tcp \<times> 'a" where
  "run_in_loop e l t w =
     (if env_loop e = l then exec_task e t w
      else ((fst w)\<lparr>ts_tasks := (ts_tasks (fst w))(l := ts_tasks (fst w) l @ [t])\<rparr>, snd w))"

definition owner_of :: "u64 \<Rightarrow> tcp \<Rightarrow> nat" where
  "owner_of i s = (case um_find (ts_store s) i of None \<Rightarrow> 0 | Some c \<Rightarrow> cn_owner c)"

definition send :: "'a env \<Rightarrow> fd \<Rightarrow> string \<Rightarrow> tcp \<times> 'a \<Rightarrow> tcp \<times> 'a" where
  "send e f data w =
     (case um_find (ts_conns (fst w)) f of
        None \<Rightarrow> w
      | Some i \<Rightarrow> run_in_loop e (owner_of i (fst w)) (AppendFlush i data) w)"

definition shutdown :: "'a env \<Rightarrow> fd \<Rightarrow> tcp \<times> 'a \<Rightarrow> tcp \<times> 'a" where
  "shutdown e f w =
     (case um_find (ts_conns (fst w)) f of
        None \<Rightarrow> w
      | Some i \<Rightarrow> run_in_loop e (owner_of i (fst w)) (CloseTask i) w)"

definition closeConn :: "'a env \<Rightarrow> u64 \<Rightarrow> tcp \<times> 'a \<Rightarrow> tcp \<times> 'a" where
  "closeConn e i w =
     (if env_loop e \<noteq> owner_of i (fst w) then run_in_loop e (owner_of i (fst w)) (CloseTask i) w
      else closeConnInLoop e i w)"

text \<open>\<open>handleAccept\<close> on the answers of \<open>accept4\<close>; when there are none left it is \<open>EAGAIN\<close>.\<close>

fun handleAccept :: "'a env \<Rightarrow> (errno + fd) list \<Rightarrow> tcp \<times> 'a \<Rightarrow> tcp \<times> 'a" where
  "handleAccept e [] w = w"
| "handleAccept e (Inl er # as) w = (if er = EINTR then handleAccept e as w else w)"
| "handleAccept e (Inr cfd # as) w =
     (let (l, lp) = nextLoop (ts_pool (fst w));
          i = ts_next_conn_id (fst w);
          s = (fst w)\<lparr>ts_pool := lp, ts_next_conn_id := i + 1\<rparr>
      in handleAccept e as (run_in_loop e l (AddConn cfd i l) (s, snd w)))"

text \<open>\<open>handleReadable\<close> on the answers of \<open>readv\<close>; when there are none left it is \<open>EAGAIN\<close>.\<close>

type_synonym 'a on_message = "'a env \<Rightarrow> fd \<Rightarrow> u64 \<Rightarrow> string \<Rightarrow> tcp \<times> 'a \<Rightarrow> tcp \<times> 'a"

fun handleReadable :: "'a env \<Rightarrow> 'a on_message \<Rightarrow> u64 \<Rightarrow> (nat list \<Rightarrow> errno + string) list \<Rightarrow> tcp \<times> 'a \<Rightarrow> tcp \<times> 'a" where
  "handleReadable e om i [] w = w"
| "handleReadable e om i (r # rs) w =
     (case um_find (ts_store (fst w)) i of
        None \<Rightarrow> w
      | Some c \<Rightarrow>
          (case readFd r (cn_in c) of
             (n, saved, buf) \<Rightarrow>
               if n > 0 then
                 (let s = upd_conn i (\<lambda>c. c\<lparr>cn_in := buf, cn_last_active_ms := env_now e,
                            cn_recv_bytes := cn_recv_bytes c + of_int n\<rparr>) (fst w);
                      s = s\<lparr>ts_recv_bytes := ts_recv_bytes s + of_int n\<rparr>;
                      w = om e (cn_fd c) (cn_id c) (peek_string buf (nat n)) (s, snd w);
                      s = upd_conn i (\<lambda>c. c\<lparr>cn_in := retrieve (nat n) (cn_in c)\<rparr>) (fst w)
                  in handleReadable e om i rs (s, snd w))
               else if n = 0 then closeConnInLoop e i (upd_conn i (\<lambda>c. c\<lparr>cn_in := buf\<rparr>) (fst w), snd w)
               else if saved = Some EAGAIN then w
               else if saved = Some EINTR then handleReadable e om i rs w
               else closeConnInLoop e i w))"

definition expired :: "int \<Rightarrow> tcp \<Rightarrow> u64 list" where
  "expired now s =
     map snd (filter (\<lambda>(f, i). case um_find (ts_store s) i of None \<Rightarrow> False
                  | Some c \<Rightarrow> now - cn_last_active_ms c \<ge> ts_idle_timeout_s s * 1000) (ts_conns s))"

definition sweepIdle :: "'a env \<Rightarrow> tcp \<times> 'a \<Rightarrow> tcp \<times> 'a" where
  "sweepIdle e w =
     (if ts_idle_timeout_s (fst w) \<le> 0 then w
      else fold (\<lambda>i (s, a). closeConn e i (s\<lparr>ts_closed_idle := ts_closed_idle s + 1\<rparr>, a)) (expired (env_now e) (fst w)) w)"

definition aliveConnections :: "tcp \<Rightarrow> nat" where
  "aliveConnections s = um_size (ts_conns s)"

section \<open>Events\<close>

text \<open>
  \<open>weak.lock()\<close> succeeds while the table or a queued task holds the object. A callback of a
  channel then runs its handler.
\<close>

fun task_conn :: "task \<Rightarrow> u64 option" where
  "task_conn (AddConn f i l) = None"
| "task_conn (AppendFlush i data) = Some i"
| "task_conn (CloseTask i) = Some i"

definition lock :: "nat list \<Rightarrow> u64 \<Rightarrow> tcp \<Rightarrow> bool" where
  "lock loops i s \<longleftrightarrow> i \<in> set (map snd (ts_conns s)) \<or> (\<exists>l \<in> set loops. Some i \<in> set (map task_conn (ts_tasks s l)))"

definition run_cb :: "'a env \<Rightarrow> 'a on_message \<Rightarrow> nat list \<Rightarrow> (nat list \<Rightarrow> errno + string) list \<Rightarrow> tcp_cb \<Rightarrow> tcp \<times> 'a \<Rightarrow> tcp \<times> 'a" where
  "run_cb e om loops reads cb w =
     (case cb of
        OnReadable i \<Rightarrow> if lock loops i (fst w) then handleReadable e om i reads w else w
      | OnWritable i \<Rightarrow> if lock loops i (fst w) then flushWrite e i w else w
      | OnClose i \<Rightarrow> if lock loops i (fst w) then closeConn e i w else w)"

definition conn_event :: "'a env \<Rightarrow> 'a on_message \<Rightarrow> nat list \<Rightarrow> u64 \<Rightarrow> u32 \<Rightarrow> (nat list \<Rightarrow> errno + string) list \<Rightarrow>
    tcp \<times> 'a \<Rightarrow> tcp \<times> 'a" where
  "conn_event e om loops i revents reads w =
     (case um_find (ts_store (fst w)) i of
        None \<Rightarrow> w
      | Some c \<Rightarrow>
          (let (cbs, ch) = handleEvent revents (cn_channel c)
           in fold (run_cb e om loops reads) cbs (upd_conn i (\<lambda>c. c\<lparr>cn_channel := ch\<rparr>) (fst w), snd w)))"

definition run_tasks :: "'a env \<Rightarrow> tcp \<times> 'a \<Rightarrow> tcp \<times> 'a" where
  "run_tasks e w =
     (let ts = ts_tasks (fst w) (env_loop e)
      in fold (exec_task e) ts ((fst w)\<lparr>ts_tasks := (ts_tasks (fst w))(env_loop e := [])\<rparr>, snd w))"

end
