(* ===== verification/HttpTypes.thy ===== *)
theory HttpTypes
  imports Prelude
begin

text \<open>
  \<open>include/mini_net/HttpTypes.h\<close>: requests and responses, header lookup, reason
  phrases and the serialisation of a response. The properties show that a response is framed
  correctly: its head ends at the first empty line and is followed by exactly
  \<open>Content-Length\<close> bytes of body, as long as no header text carries a line end.
\<close>

section \<open>Data and operations\<close>

record http_request =
  rq_method :: string
  rq_target :: string
  rq_path :: string
  rq_query :: string
  rq_version :: string
  rq_headers :: "(string \<times> string) list"
  rq_body :: string
  rq_keep_alive :: bool

definition new_HttpRequest :: http_request where
  "new_HttpRequest = \<lparr>rq_method = [], rq_target = [], rq_path = [], rq_query = [],
     rq_version = [], rq_headers = [], rq_body = [], rq_keep_alive = True\<rparr>"

primrec find_in_headers :: "(string \<times> string) list \<Rightarrow> string \<Rightarrow> string option" where
  "find_in_headers [] key = None"
| "find_in_headers (kv # hs) key = (if fst kv = key then Some (snd kv) else find_in_headers hs key)"

definition findHeader :: "http_request \<Rightarrow> string \<Rightarrow> string option" where
  "findHeader rq key = find_in_headers (rq_headers rq) key"

definition hasHeader :: "http_request \<Rightarrow> string \<Rightarrow> bool" where
  "hasHeader rq key \<longleftrightarrow> findHeader rq key \<noteq> None"

record http_response =
  rs_status :: int
  rs_content_type :: string
  rs_body :: string
  rs_extra_headers :: "(string \<times> string) list"
  rs_keep_alive :: bool

definition new_HttpResponse :: http_response where
  "new_HttpResponse = \<lparr>rs_status = 200, rs_content_type = ''text/plain; charset=utf-8'',
     rs_body = [], rs_extra_headers = [], rs_keep_alive = True\<rparr>"

definition setJson :: "string \<Rightarrow> http_response \<Rightarrow> http_response" where
  "setJson s r = r\<lparr>rs_content_type := ''application/json; charset=utf-8'', rs_body := s\<rparr>"

definition reason :: "int \<Rightarrow> string" where
  "reason c =
     (if c = 200 then ''OK''
      else if c = 201 then ''Created''
      else if c = 302 then ''Found''
      else if c = 400 then ''Bad Request''
      else if c = 404 then ''Not Found''
      else if c = 405 then ''Method Not Allowed''
      else if c = 408 then ''Request Timeout''
      else if c = 413 then ''Payload Too Large''
      else if c = 431 then ''Request Header Fields Too Large''
      else if c = 500 then ''Internal Server Error''
      else if c = 501 then ''Not Implemented''
      else if c = 505 then ''HTTP Version Not Supported''
      else ''Unknown'')"

text \<open>\<open>snprintf(line, n, ...)\<close> keeps at most \<open>n - 1\<close> characters.\<close>

definition snprintf :: "nat \<Rightarrow> string \<Rightarrow> string" where
  "snprintf n s = take (n - 1) s"

definition extra_header_line :: "string \<times> string \<Rightarrow> string" where
  "extra_header_line kv = fst kv @ '': '' @ snd kv @ CRLF"

definition serialize :: "http_response \<Rightarrow> string" where
  "serialize r =
     snprintf 256 (''HTTP/1.1 '' @ show_int (rs_status r) @ '' '' @ reason (rs_status r) @ CRLF)
     @ snprintf 256 (''Content-Length: '' @ show_nat (length (rs_body r)) @ CRLF)
     @ ''Content-Type: '' @ rs_content_type r @ CRLF
     @ (if rs_keep_alive r then ''Connection: keep-alive'' @ CRLF else ''Connection: close'' @ CRLF)
     @ concat (map extra_header_line (rs_extra_headers r))
     @ CRLF
     @ rs_body r"

section \<open>Lemmas\<close>

lemma find_in_headers_map_of: "find_in_headers hs key = map_of hs key"
  by (induction hs) auto

lemma snprintf_fits [simp]: "length s < n \<Longrightarrow> snprintf n s = s"
  by (simp add: snprintf_def)

lemma show_nat_length: "n < 10 ^ k \<Longrightarrow> 0 < k \<Longrightarrow> length (show_nat n) \<le> k"
proof (induction n arbitrary: k rule: show_nat.induct)
  case (1 n)
  show ?case
  proof (cases "n < 10")
    case True
    with 1 show ?thesis by (subst show_nat.simps) simp
  next
    case False
    then obtain j where k: "k = Suc j" "0 < j"
      using "1.prems" by (cases k; cases "k - 1") auto
    have "n div 10 < 10 ^ j" using "1.prems"(1) k by (simp add: div_less_iff_less_mult)
    then have "length (show_nat (n div 10)) \<le> j" using "1.IH" False k by blast
    with False k show ?thesis by (subst show_nat.simps) simp
  qed
qed

lemma reason_length: "length (reason c) \<le> 31"
  by (simp add: reason_def)

text \<open>The head of a response as a list of lines without their line ends.\<close>

definition head_lines :: "http_response \<Rightarrow> string list" where
  "head_lines r =
     [''HTTP/1.1 '' @ show_int (rs_status r) @ '' '' @ reason (rs_status r),
      ''Content-Length: '' @ show_nat (length (rs_body r)),
      ''Content-Type: '' @ rs_content_type r,
      (if rs_keep_alive r then ''Connection: keep-alive'' else ''Connection: close'')]
     @ map (\<lambda>kv. fst kv @ '': '' @ snd kv) (rs_extra_headers r)"

definition unlines :: "string list \<Rightarrow> string" where
  "unlines ls = concat (map (\<lambda>l. l @ CRLF) ls)"

definition int32 :: "int \<Rightarrow> bool" where
  "int32 i \<longleftrightarrow> - (2 ^ 31) \<le> i \<and> i < 2 ^ 31"

lemma show_int_length: "int32 i \<Longrightarrow> length (show_int i) \<le> 11"
proof -
  assume i: "int32 i"
  then have "nat (- i) < 10 ^ 10" "nat i < 10 ^ 10" by (auto simp: int32_def)
  then have "length (show_nat (nat (- i))) \<le> 10" "length (show_nat (nat i)) \<le> 10"
    using show_nat_length [of _ 10] by simp_all
  then show ?thesis by (simp add: show_int_def)
qed

lemma serialize_lines:
  assumes "int32 (rs_status r)" "length (rs_body r) < 2 ^ 64"
  shows "serialize r = unlines (head_lines r) @ CRLF @ rs_body r"
proof -
  have "length (show_nat (length (rs_body r))) \<le> 20"
    using assms(2) by (intro show_nat_length) simp_all
  moreover have "length (show_int (rs_status r)) \<le> 11" "length (reason (rs_status r)) \<le> 31"
    using assms(1) by (simp_all add: show_int_length reason_length)
  ultimately show ?thesis
    by (simp add: serialize_def unlines_def head_lines_def extra_header_line_def [abs_def] comp_def)
qed

text \<open>What a client does: read lines up to the empty one; the rest is the body.\<close>

lemma find_sub_CRLF_bound: "find_sub CRLF s = Some i \<Longrightarrow> i < length s"
  using find_sub_SomeD [of CRLF s i] by (cases "i < length s") auto

function split_head :: "string \<Rightarrow> (string list \<times> string) option" where
  "split_head s =
     (case find_sub CRLF s of
        None \<Rightarrow> None
      | Some i \<Rightarrow> (if i = 0 then Some ([], drop 2 s)
                   else map_option (\<lambda>(ls, rest). (take i s # ls, rest)) (split_head (drop (i + 2) s))))"
  by pat_completeness auto
termination
  by (relation "measure length") (auto dest: find_sub_CRLF_bound)

declare split_head.simps [simp del]

lemma find_sub_line: "CR \<notin> set l \<Longrightarrow> find_sub CRLF (l @ CR # LF # s) = Some (length l)"
  by (induction l) auto

lemma split_head_Nil [simp]: "split_head (CR # LF # s) = Some ([], s)"
  by (subst split_head.simps) simp

lemma split_head_line:
  "l \<noteq> [] \<Longrightarrow> CR \<notin> set l \<Longrightarrow>
   split_head (l @ CR # LF # s) = map_option (\<lambda>(ls, rest). (l # ls, rest)) (split_head s)"
  by (subst split_head.simps) (simp add: find_sub_line)

lemma split_head_unlines:
  "\<forall>l \<in> set ls. l \<noteq> [] \<and> CR \<notin> set l \<Longrightarrow> split_head (unlines ls @ CRLF @ s) = Some (ls, s)"
  by (induction ls) (simp_all add: unlines_def split_head_line)

lemma CR_notin_show_nat [simp]: "CR \<notin> set (show_nat n)"
  using show_nat_digits [of n] by (auto simp: isdigit_def)

lemma CR_notin_show_int [simp]: "CR \<notin> set (show_int i)"
  by (simp add: show_int_def)

lemma CR_notin_reason [simp]: "CR \<notin> set (reason c)"
  by (simp add: reason_def)

definition no_CR_headers :: "http_response \<Rightarrow> bool" where
  "no_CR_headers r \<longleftrightarrow> CR \<notin> set (rs_content_type r) \<and>
     (\<forall>kv \<in> set (rs_extra_headers r). CR \<notin> set (fst kv) \<and> CR \<notin> set (snd kv))"

section \<open>Properties\<close>

text \<open>
  C29: Framing of responses. If no header text contains a carriage return, a client that
  splits the serialised response at the first empty line gets back exactly the header lines
  the response has, in order, and exactly its body; the second line is the
  \<open>Content-Length\<close> of that body. The 256-byte line buffers never truncate.
\<close>

theorem serialize_framing:
  assumes "int32 (rs_status r)" "length (rs_body r) < 2 ^ 64" "no_CR_headers r"
  shows "split_head (serialize r) = Some (head_lines r, rs_body r)
       \<and> head_lines r ! 1 = ''Content-Length: '' @ show_nat (length (rs_body r))"
proof -
  have "\<forall>l \<in> set (head_lines r). l \<noteq> [] \<and> CR \<notin> set l"
    using assms(3) by (auto simp: head_lines_def no_CR_headers_def)
  then show ?thesis
    using assms(1,2) by (simp only: serialize_lines split_head_unlines) (simp add: head_lines_def)
qed

theorem serialize_framing_witness:
  "split_head (serialize new_HttpResponse) = Some (head_lines new_HttpResponse, [])"
  using serialize_framing [of new_HttpResponse]
  by (simp add: new_HttpResponse_def int32_def no_CR_headers_def)

end
