(* ===== verification/Messages.thy ===== *)
theory Messages
  imports Prelude
begin

text \<open>
  The message texts of the sources, which are UTF-8 literals: each is given by its bytes.
  The comment says what the text means.
\<close>

section \<open>\<open>src/HttpParser.cc\<close>\<close>

definition msg_line_too_long :: string where \<comment> \<open>request line or headers over 8 KiB\<close>
  "msg_line_too_long =
     bytes [0xE8, 0xAF, 0xB7, 0xE6, 0xB1, 0x82, 0xE8, 0xA1, 0x8C, 0xE6, 0x88, 0x96, 0xE8, 0xAF,
       0xB7, 0xE6, 0xB1, 0x82, 0xE5, 0xA4, 0xB4, 0xE8, 0xB6, 0x85, 0xE8, 0xBF, 0x87] @
     '' 8 KiB''"

definition msg_empty_line :: string where \<comment> \<open>the request line is empty\<close>
  "msg_empty_line =
     bytes [0xE8, 0xAF, 0xB7, 0xE6, 0xB1, 0x82, 0xE8, 0xA1, 0x8C, 0xE4, 0xB8, 0xBA, 0xE7, 0xA9,
       0xBA]"

definition msg_line_format :: string where \<comment> \<open>malformed request line\<close>
  "msg_line_format =
     bytes [0xE8, 0xAF, 0xB7, 0xE6, 0xB1, 0x82, 0xE8, 0xA1, 0x8C, 0xE6, 0xA0, 0xBC, 0xE5, 0xBC,
       0x8F, 0xE9, 0x9D, 0x9E, 0xE6, 0xB3, 0x95, 0xEF, 0xBC, 0x88, 0xE5, 0xBA, 0x94, 0xE4,
       0xB8, 0xBA] @
     '' METHOD TARGET VERSION'' @ bytes [0xEF, 0xBC, 0x89]"

definition msg_no_version :: string where \<comment> \<open>no HTTP version\<close>
  "msg_no_version =
     bytes [0xE7, 0xBC, 0xBA, 0xE5, 0xB0, 0x91] @ '' HTTP '' @
     bytes [0xE7, 0x89, 0x88, 0xE6, 0x9C, 0xAC]"

definition msg_version :: string where \<comment> \<open>only HTTP/1.0 and HTTP/1.1\<close>
  "msg_version =
     bytes [0xE5, 0x8F, 0xAA, 0xE6, 0x94, 0xAF, 0xE6, 0x8C, 0x81] @ '' HTTP/1.0 '' @
     bytes [0xE4, 0xB8, 0x8E] @ '' HTTP/1.1''"

definition msg_headers_too_large :: string where \<comment> \<open>headers over 8 KiB\<close>
  "msg_headers_too_large =
     bytes [0xE8, 0xAF, 0xB7, 0xE6, 0xB1, 0x82, 0xE5, 0xA4, 0xB4, 0xE8, 0xB6, 0x85, 0xE8, 0xBF,
       0x87] @
     '' 8 KiB''"

definition msg_chunked :: string where \<comment> \<open>no chunked bodies\<close>
  "msg_chunked =
     ''v1 '' @ bytes [0xE6, 0x9A, 0x82, 0xE4, 0xB8, 0x8D, 0xE6, 0x94, 0xAF, 0xE6, 0x8C, 0x81] @
     '' chunked '' @ bytes [0xE8, 0xAF, 0xB7, 0xE6, 0xB1, 0x82, 0xE4, 0xBD, 0x93]"

definition msg_content_length :: string where \<comment> \<open>bad Content-Length\<close>
  "msg_content_length =
     ''Content-Length '' @ bytes [0xE9, 0x9D, 0x9E, 0xE6, 0xB3, 0x95]"

definition msg_body_too_large :: string where \<comment> \<open>body over 8 KiB\<close>
  "msg_body_too_large =
     bytes [0xE8, 0xAF, 0xB7, 0xE6, 0xB1, 0x82, 0xE4, 0xBD, 0x93, 0xE8, 0xB6, 0x85, 0xE8, 0xBF,
       0x87] @
     '' 8 KiB''"

definition msg_no_colon :: string where \<comment> \<open>header without a colon\<close>
  "msg_no_colon =
     bytes [0xE8, 0xAF, 0xB7, 0xE6, 0xB1, 0x82, 0xE5, 0xA4, 0xB4, 0xE7, 0xBC, 0xBA, 0xE5, 0xB0,
       0x91, 0xE5, 0x86, 0x92, 0xE5, 0x8F, 0xB7]"

section \<open>\<open>src/HttpServer.cc\<close>\<close>

definition msg_no_handler :: string where \<comment> \<open>no handler set\<close>
  "msg_no_handler =
     bytes [0xE6, 0xB2, 0xA1, 0xE6, 0x9C, 0x89, 0xE8, 0xAE, 0xBE, 0xE7, 0xBD, 0xAE] @
     '' handler''"

section \<open>\<open>src/ShortUrlApp.cc\<close>\<close>

definition msg_not_object :: string where \<comment> \<open>the body is not a JSON object\<close>
  "msg_not_object =
     bytes [0xE8, 0xAF, 0xB7, 0xE6, 0xB1, 0x82, 0xE4, 0xBD, 0x93, 0xE4, 0xB8, 0x8D, 0xE6, 0x98,
       0xAF, 0xE5, 0x90, 0x88, 0xE6, 0xB3, 0x95, 0xE7, 0x9A, 0x84] @
     '' JSON '' @ bytes [0xE5, 0xAF, 0xB9, 0xE8, 0xB1, 0xA1]"

definition msg_missing_field :: string where \<comment> \<open>missing field\<close>
  "msg_missing_field =
     bytes [0xE7, 0xBC, 0xBA, 0xE5, 0xB0, 0x91, 0xE5, 0xAD, 0x97, 0xE6, 0xAE, 0xB5] @ '' ''"

definition msg_field_format :: string where \<comment> \<open>malformed field\<close>
  "msg_field_format =
     bytes [0xE5, 0xAD, 0x97, 0xE6, 0xAE, 0xB5, 0xE6, 0xA0, 0xBC, 0xE5, 0xBC, 0x8F, 0xE9, 0x9D,
       0x9E, 0xE6, 0xB3, 0x95]"

definition msg_field :: string where \<comment> \<open>field\<close>
  "msg_field =
     bytes [0xE5, 0xAD, 0x97, 0xE6, 0xAE, 0xB5] @ '' ''"

definition msg_must_be_string :: string where \<comment> \<open>must be a string\<close>
  "msg_must_be_string =
     '' '' @
     bytes [0xE5, 0xBF, 0x85, 0xE9, 0xA1, 0xBB, 0xE6, 0x98, 0xAF, 0xE5, 0xAD, 0x97, 0xE7, 0xAC,
       0xA6, 0xE4, 0xB8, 0xB2]"

definition msg_bad_escape :: string where \<comment> \<open>incomplete unicode escape\<close>
  "msg_bad_escape =
     bytes [0x5C] @ ''u '' @
     bytes [0xE8, 0xBD, 0xAC, 0xE4, 0xB9, 0x89, 0xE4, 0xB8, 0x8D, 0xE5, 0xAE, 0x8C, 0xE6, 0x95,
       0xB4]"

definition msg_no_end_quote :: string where \<comment> \<open>no closing quote\<close>
  "msg_no_end_quote =
     bytes [0xE5, 0xAD, 0x97, 0xE7, 0xAC, 0xA6, 0xE4, 0xB8, 0xB2, 0xE6, 0xB2, 0xA1, 0xE6, 0x9C,
       0x89, 0xE7, 0xBB, 0x93, 0xE6, 0x9D, 0x9F, 0xE5, 0xBC, 0x95, 0xE5, 0x8F, 0xB7]"

definition msg_url_empty :: string where \<comment> \<open>the url is empty\<close>
  "msg_url_empty =
     ''url '' @ bytes [0xE4, 0xB8, 0x8D, 0xE8, 0x83, 0xBD, 0xE4, 0xB8, 0xBA, 0xE7, 0xA9, 0xBA]"

definition msg_url_long :: string where \<comment> \<open>the url is over 2048 bytes\<close>
  "msg_url_long =
     ''url '' @ bytes [0xE8, 0xB6, 0x85, 0xE8, 0xBF, 0x87] @ '' 2048 '' @
     bytes [0xE5, 0xAD, 0x97, 0xE8, 0x8A, 0x82]"

definition msg_url_scheme :: string where \<comment> \<open>only http and https links\<close>
  "msg_url_scheme =
     bytes [0xE5, 0x8F, 0xAA, 0xE6, 0x94, 0xAF, 0xE6, 0x8C, 0x81] @ '' http:// '' @
     bytes [0xE6, 0x88, 0x96] @ '' https:// '' @
     bytes [0xE5, 0xBC, 0x80, 0xE5, 0xA4, 0xB4, 0xE7, 0x9A, 0x84, 0xE9, 0x93, 0xBE, 0xE6, 0x8E,
       0xA5]"

definition msg_no_code :: string where \<comment> \<open>no such code\<close>
  "msg_no_code =
     bytes [0xE7, 0x9F, 0xAD, 0xE7, 0xA0, 0x81, 0xE4, 0xB8, 0x8D, 0xE5, 0xAD, 0x98, 0xE5, 0x9C,
       0xA8]"

definition msg_healthz_get :: string where \<comment> \<open>healthz takes GET only\<close>
  "msg_healthz_get =
     ''/healthz '' @ bytes [0xE5, 0x8F, 0xAA, 0xE6, 0x94, 0xAF, 0xE6, 0x8C, 0x81] @ '' GET''"

definition msg_metrics_get :: string where \<comment> \<open>metrics takes GET only\<close>
  "msg_metrics_get =
     ''/metrics '' @ bytes [0xE5, 0x8F, 0xAA, 0xE6, 0x94, 0xAF, 0xE6, 0x8C, 0x81] @ '' GET''"

definition msg_shorten_post :: string where \<comment> \<open>shorten takes POST only\<close>
  "msg_shorten_post =
     ''/api/shorten '' @ bytes [0xE5, 0x8F, 0xAA, 0xE6, 0x94, 0xAF, 0xE6, 0x8C, 0x81] @
     '' POST''"

definition msg_stats_get :: string where \<comment> \<open>this endpoint takes GET only\<close>
  "msg_stats_get =
     bytes [0xE8, 0xAF, 0xA5, 0xE6, 0x8E, 0xA5, 0xE5, 0x8F, 0xA3, 0xE5, 0x8F, 0xAA, 0xE6, 0x94,
       0xAF, 0xE6, 0x8C, 0x81] @
     '' GET''"

definition msg_redirect_get :: string where \<comment> \<open>redirects take GET only\<close>
  "msg_redirect_get =
     bytes [0xE7, 0x9F, 0xAD, 0xE9, 0x93, 0xBE, 0xE8, 0xB7, 0xB3, 0xE8, 0xBD, 0xAC, 0xE5, 0x8F,
       0xAA, 0xE6, 0x94, 0xAF, 0xE6, 0x8C, 0x81] @
     '' GET''"

definition msg_code_format :: string where \<comment> \<open>codes are 1 to 8 letters or digits\<close>
  "msg_code_format =
     bytes [0xE7, 0x9F, 0xAD, 0xE7, 0xA0, 0x81, 0xE5, 0x8F, 0xAA, 0xE5, 0x85, 0x81, 0xE8, 0xAE,
       0xB8] @
     '' 1-8 '' @
     bytes [0xE4, 0xBD, 0x8D, 0xE5, 0xAD, 0x97, 0xE6, 0xAF, 0x8D, 0xE6, 0x95, 0xB0, 0xE5, 0xAD,
       0x97]"

end
