(* ===== verification/HttpParser.thy ===== *)
theory HttpParser
  imports Buffer HttpTypes Messages
begin

text \<open>
  \<open>src/HttpParser.cc\<close> and \<open>include/mini_net/HttpParser.h\<close>: the incremental
  HTTP/1.1 request parser. The model works on the buffer model, line by line, as the code
  does; \<open>parse_stream\<close> is the same machine on a plain byte string, and
  \<open>parse_refines\<close> links the two. The out parameter \<open>err\<close> is the argument of the
  result \<open>Error\<close>.
\<close>

section \<open>State\<close>

datatype parser_state = RequestLine | Headers | Body | Done

record http_error =
  err_status :: int
  err_code :: string
  err_detail :: string

datatype parse_result = NeedMore | Complete | Error http_error

definition http_err :: "int \<Rightarrow> string \<Rightarrow> string \<Rightarrow> parse_result" where
  "http_err st cd dt = Error \<lparr>err_status = st, err_code = cd, err_detail = dt\<rparr>"

definition kMaxHeaderBytes :: nat where "kMaxHeaderBytes = 8192"
definition kMaxBodyBytes :: nat where "kMaxBodyBytes = 8192"

record parser =
  state :: parser_state
  req :: http_request
  content_length :: nat
  header_bytes :: nat

definition new_HttpParser :: parser where
  "new_HttpParser = \<lparr>state = RequestLine, req = new_HttpRequest, content_length = 0, header_bytes = 0\<rparr>"

definition reset :: "parser \<Rightarrow> parser" where
  "reset p = p\<lparr>state := RequestLine, req := new_HttpRequest, content_length := 0, header_bytes := 0\<rparr>"

section \<open>Text helpers\<close>

definition lower :: "string \<Rightarrow> string" where
  "lower s = map tolower s"

text \<open>The two loops of \<open>trim\<close> move \<open>b\<close> over leading and \<open>e\<close> over trailing space.\<close>

function trim_begin :: "string \<Rightarrow> nat \<Rightarrow> nat \<Rightarrow> nat" where
  "trim_begin s b e = (if b < e \<and> isspace (s ! b) then trim_begin s (b + 1) e else b)"
  by pat_completeness auto
termination
  by (relation "measure (\<lambda>(s, b, e). e - b)") auto

fun trim_end :: "string \<Rightarrow> nat \<Rightarrow> nat \<Rightarrow> nat" where
  "trim_end s b 0 = 0"
| "trim_end s b (Suc e) = (if Suc e > b \<and> isspace (s ! e) then trim_end s b e else Suc e)"

declare trim_begin.simps [simp del]

definition trim :: "string \<Rightarrow> string" where
  "trim s = (let b = trim_begin s 0 (length s); e = trim_end s b (length s)
             in take (e - b) (drop b s))"

section \<open>The three parsing steps\<close>

text \<open>Lines 74 to 117: what is done with a complete request line.\<close>

definition request_line :: "parser \<Rightarrow> string \<Rightarrow> parse_result \<times> parser" where
  "request_line p line =
     (let clean = trim line
      in if clean = [] then (http_err 400 ''bad_request'' msg_empty_line, p)
         else case tokens clean of
           method # target # version # _ \<Rightarrow>
             if \<not> starts_with version ''HTTP/'' then (http_err 400 ''bad_request'' msg_no_version, p)
             else if drop 5 version \<noteq> ''1.0'' \<and> drop 5 version \<noteq> ''1.1''
             then (http_err 505 ''unsupported_version'' msg_version, p)
             else
               (let r1 = (req p)\<lparr>rq_method := method, rq_target := target, rq_version := version\<rparr>;
                    r2 = (case find_char (CHR ''?'') target 0 of
                            None \<Rightarrow> r1\<lparr>rq_path := target\<rparr>
                          | Some q \<Rightarrow> r1\<lparr>rq_path := take q target, rq_query := drop (q + 1) target\<rparr>)
                in (Complete, p\<lparr>req := r2\<lparr>rq_keep_alive := (version = ''HTTP/1.1'')\<rparr>\<rparr>))
         | _ \<Rightarrow> (http_err 400 ''bad_request'' msg_line_format, p))"

definition parseRequestLine :: "parser \<Rightarrow> buffer \<Rightarrow> parse_result \<times> parser \<times> buffer" where
  "parseRequestLine p b =
     (case findEOL b of
        None \<Rightarrow>
          (let p1 = p\<lparr>header_bytes := readableBytes b\<rparr>
           in if header_bytes p1 > kMaxHeaderBytes
              then (http_err 431 ''headers_too_large'' msg_line_too_long, p1, b)
              else (NeedMore, p1, b))
      | Some eol \<Rightarrow>
          (let line = peek_string b (eol - peek b);
               b1 = retrieveUntil (eol + 1) b;
               p1 = p\<lparr>header_bytes := header_bytes p + length line + 1\<rparr>;
               (r, p2) = request_line p1 line
           in (r, p2, b1)))"

text \<open>Lines 147 to 182: the empty line, the end of the headers.\<close>

definition chunked_body :: "parser \<Rightarrow> bool" where
  "chunked_body p \<longleftrightarrow>
     (case findHeader (req p) ''transfer-encoding'' of
        None \<Rightarrow> False | Some te \<Rightarrow> find_sub ''chunked'' (lower te) \<noteq> None)"

definition declared_length :: "parser \<Rightarrow> parse_result + nat" where
  "declared_length p =
     (case findHeader (req p) ''content-length'' of
        None \<Rightarrow> Inr (content_length p)
      | Some cl \<Rightarrow>
          (case strtol10 cl of
             None \<Rightarrow> Inl (http_err 400 ''bad_request'' msg_content_length)
           | Some v \<Rightarrow>
               if v < 0 then Inl (http_err 400 ''bad_request'' msg_content_length)
               else if nat v > kMaxBodyBytes then Inl (http_err 413 ''payload_too_large'' msg_body_too_large)
               else Inr (nat v)))"

definition wants_keep_alive :: "http_request \<Rightarrow> bool" where
  "wants_keep_alive rq =
     (case findHeader rq ''connection'' of
        None \<Rightarrow> rq_keep_alive rq
      | Some conn \<Rightarrow>
          (let c = lower (trim conn)
           in if c = ''close'' then False else if c = ''keep-alive'' then True else rq_keep_alive rq))"

definition end_of_headers :: "parser \<Rightarrow> parse_result \<times> parser" where
  "end_of_headers p =
     (if chunked_body p then (http_err 501 ''unsupported_transfer_encoding'' msg_chunked, p)
      else case declared_length p of
        Inl e \<Rightarrow> (e, p)
      | Inr n \<Rightarrow> (Complete, p\<lparr>content_length := n,
                               req := (req p)\<lparr>rq_keep_alive := wants_keep_alive (req p)\<rparr>\<rparr>))"

text \<open>
  Lines 138 to 192: one complete header line, after its length was added to
  \<open>header_bytes\<close>; the result \<open>None\<close> goes on with the next line.
\<close>

definition header_step :: "parser \<Rightarrow> string \<Rightarrow> parse_result option \<times> parser" where
  "header_step p raw =
     (if header_bytes p > kMaxHeaderBytes
      then (Some (http_err 431 ''headers_too_large'' msg_headers_too_large), p)
      else
        (let line = trim raw
         in if line = [] then map_prod Some id (end_of_headers p)
            else case find_char (CHR '':'') line 0 of
              None \<Rightarrow> (Some (http_err 400 ''bad_request'' msg_no_colon), p)
            | Some colon \<Rightarrow>
                (None, p\<lparr>req := (req p)\<lparr>rq_headers := rq_headers (req p) @
                   [(lower (trim (take colon line)), trim (drop (colon + 1) line))]\<rparr>\<rparr>)))"

lemma findEOL_loop_range: "findEOL_loop v p e = Some q \<Longrightarrow> p \<le> q \<and> q < e"
proof (induction v p e rule: findEOL_loop.induct)
  case (1 v p e)
  from "1.prems" have p: "p < e" by (subst (asm) findEOL_loop.simps) (simp split: if_splits)
  then have "(if v ! p = LF then Some p else findEOL_loop v (p + 1) e) = Some q"
    using "1.prems" by (subst (asm) findEOL_loop.simps) simp
  with 1(1) [OF p] p show ?case by (auto split: if_splits)
qed

lemma retrieveUntil_shorter:
  "findEOL b = Some eol \<Longrightarrow> readableBytes (retrieveUntil (eol + 1) b) < readableBytes b"
  using findEOL_loop_range [of "vec b" "peek b" "write_idx b" eol]
  by (auto simp: findEOL_def retrieveUntil_def retrieve_def retrieveAll_def readableBytes_def peek_def)

function parseHeaders :: "parser \<Rightarrow> buffer \<Rightarrow> parse_result \<times> parser \<times> buffer" where
  "parseHeaders p b =
     (case findEOL b of
        None \<Rightarrow>
          (let p1 = p\<lparr>header_bytes := header_bytes p + readableBytes b\<rparr>
           in if header_bytes p1 > kMaxHeaderBytes
              then (http_err 431 ''headers_too_large'' msg_headers_too_large, p1, b)
              else (NeedMore, p1, b))
      | Some eol \<Rightarrow>
          (let raw = peek_string b (eol - peek b);
               b1 = retrieveUntil (eol + 1) b;
               p1 = p\<lparr>header_bytes := header_bytes p + length raw + 1\<rparr>
           in case header_step p1 raw of
                (Some r, p2) \<Rightarrow> (r, p2, b1)
              | (None, p2) \<Rightarrow> parseHeaders p2 b1))"
  by pat_completeness auto
termination
  by (relation "measure (\<lambda>(p, b). readableBytes b)") (auto dest: retrieveUntil_shorter)

definition parseBody :: "parser \<Rightarrow> buffer \<Rightarrow> parse_result \<times> parser \<times> buffer" where
  "parseBody p b =
     (if readableBytes b < content_length p then (NeedMore, p, b)
      else (let (s, b1) = retrieveAsString (content_length p) b
            in (Complete, p\<lparr>req := (req p)\<lparr>rq_body := s\<rparr>\<rparr>, b1)))"

text \<open>The dispatch loop of \<open>parse\<close>; every round moves the state forward.\<close>

fun state_rank :: "parser_state \<Rightarrow> nat" where
  "state_rank RequestLine = 3"
| "state_rank Headers = 2"
| "state_rank Body = 1"
| "state_rank Done = 0"

function parse :: "parser \<Rightarrow> buffer \<Rightarrow> parse_result \<times> parser \<times> buffer" where
  "parse p b =
     (case state p of
        RequestLine \<Rightarrow>
          (case parseRequestLine p b of
             (Complete, p1, b1) \<Rightarrow> parse (p1\<lparr>state := Headers\<rparr>) b1
           | r \<Rightarrow> r)
      | Headers \<Rightarrow>
          (case parseHeaders p b of
             (Complete, p1, b1) \<Rightarrow>
               parse (p1\<lparr>state := (if content_length p1 = 0 then Done else Body)\<rparr>) b1
           | r \<Rightarrow> r)
      | Body \<Rightarrow>
          (case parseBody p b of
             (Complete, p1, b1) \<Rightarrow> parse (p1\<lparr>state := Done\<rparr>) b1
           | r \<Rightarrow> r)
      | Done \<Rightarrow> (Complete, p, b))"
  by pat_completeness auto
termination
  by (relation "measure (\<lambda>(p, b). state_rank (state p))") auto

declare parseHeaders.simps [simp del] parse.simps [simp del]

section \<open>Text helpers: what they compute\<close>

lemma trim_begin_takeWhile:
  "e = length s \<Longrightarrow> trim_begin s b e = b + length (takeWhile isspace (drop b s))"
proof (induction s b e rule: trim_begin.induct)
  case (1 s b e)
  show ?case
  proof (cases "b < e \<and> isspace (s ! b)")
    case True
    then have "drop b s = s ! b # drop (Suc b) s" using "1.prems" by (simp add: Cons_nth_drop_Suc)
    with 1 True show ?thesis by (subst trim_begin.simps) simp
  next
    case False
    then have "takeWhile isspace (drop b s) = []"
      using "1.prems" hd_drop_conv_nth [of b s] by (cases "drop b s"; cases "b < length s") auto
    with False show ?thesis by (subst trim_begin.simps) (auto simp del: takeWhile_eq_Nil_iff)
  qed
qed

lemma trim_end_rev:
  "b \<le> e \<Longrightarrow> e \<le> length s \<Longrightarrow>
   take (trim_end s b e - b) (drop b s) = rev (dropWhile isspace (rev (take (e - b) (drop b s))))"
proof (induction e)
  case (Suc e)
  show ?case
  proof (cases "b \<le> e")
    case True
    then have "take (Suc e - b) (drop b s) = take (e - b) (drop b s) @ [s ! e]"
      using Suc.prems by (simp add: Suc_diff_le take_Suc_conv_app_nth)
    with Suc True show ?thesis by simp
  next
    case False
    with Suc.prems show ?thesis by simp
  qed
qed simp

lemma trim_dropWhile: "trim s = rev (dropWhile isspace (rev (dropWhile isspace s)))"
proof -
  let ?b = "length (takeWhile isspace s)"
  have "?b \<le> length s" by (rule length_takeWhile_le)
  then show ?thesis
    by (simp add: trim_def Let_def trim_begin_takeWhile trim_end_rev dropWhile_eq_drop)
qed

lemma trim_Nil [simp]: "trim [] = []"
  by (simp add: trim_dropWhile)

lemma trim_append_space: "\<forall>c \<in> set w. isspace c \<Longrightarrow> trim (s @ w) = trim s"
  by (cases "\<forall>c \<in> set s. isspace c")
    (auto simp: trim_dropWhile dropWhile_append dropWhile_eq_Nil_conv [THEN iffD2])

lemma trim_space_append: "\<forall>c \<in> set w. isspace c \<Longrightarrow> trim (w @ s) = trim s"
  by (simp add: trim_dropWhile)

lemma dropWhile_hd: "xs = [] \<or> \<not> P (hd xs) \<Longrightarrow> dropWhile P xs = xs"
  by (cases xs) auto

lemma trim_id: "s \<noteq> [] \<Longrightarrow> \<not> isspace (hd s) \<Longrightarrow> \<not> isspace (last s) \<Longrightarrow> trim s = s"
  by (simp add: trim_dropWhile dropWhile_hd hd_rev)

section \<open>The parser on a byte stream\<close>

text \<open>
  The abstract machine: the same steps on the readable bytes as a plain string, with the
  line search as a list operation.
\<close>

definition split_line :: "string \<Rightarrow> (string \<times> string) option" where
  "split_line s = map_option (\<lambda>i. (take i s, drop (Suc i) s)) (first_index (\<lambda>c. c = LF) s)"

definition line_stream :: "parser \<Rightarrow> string \<Rightarrow> parse_result \<times> parser \<times> string" where
  "line_stream p s =
     (case split_line s of
        None \<Rightarrow>
          (let p1 = p\<lparr>header_bytes := length s\<rparr>
           in if length s > kMaxHeaderBytes
              then (http_err 431 ''headers_too_large'' msg_line_too_long, p1, s)
              else (NeedMore, p1, s))
      | Some (line, s1) \<Rightarrow>
          (let (r, p2) = request_line (p\<lparr>header_bytes := header_bytes p + length line + 1\<rparr>) line
           in (r, p2, s1)))"

lemma split_line_Some: "split_line s = Some (l, r) \<longleftrightarrow> s = l @ LF # r \<and> LF \<notin> set l"
proof
  assume "s = l @ LF # r \<and> LF \<notin> set l"
  moreover from this have "first_index (\<lambda>c. c = LF) s = Some (length l)"
    by (auto simp: first_index_split)
  ultimately show "split_line s = Some (l, r)" by (simp add: split_line_def)
qed (auto simp: split_line_def first_index_split)

lemma split_line_None: "split_line s = None \<longleftrightarrow> LF \<notin> set s"
  by (auto simp: split_line_def first_index_None)

lemma split_line_append: "split_line s = Some (l, r) \<Longrightarrow> split_line (s @ t) = Some (l, r @ t)"
  by (simp add: split_line_Some)

function headers_stream :: "parser \<Rightarrow> string \<Rightarrow> parse_result \<times> parser \<times> string" where
  "headers_stream p s =
     (case split_line s of
        None \<Rightarrow>
          (let p1 = p\<lparr>header_bytes := header_bytes p + length s\<rparr>
           in if header_bytes p1 > kMaxHeaderBytes
              then (http_err 431 ''headers_too_large'' msg_headers_too_large, p1, s)
              else (NeedMore, p1, s))
      | Some (raw, s1) \<Rightarrow>
          (case header_step (p\<lparr>header_bytes := header_bytes p + length raw + 1\<rparr>) raw of
             (Some r, p2) \<Rightarrow> (r, p2, s1)
           | (None, p2) \<Rightarrow> headers_stream p2 s1))"
  by pat_completeness auto
termination
  by (relation "measure (\<lambda>(p, s). length s)") (auto simp: split_line_Some)

definition body_stream :: "parser \<Rightarrow> string \<Rightarrow> parse_result \<times> parser \<times> string" where
  "body_stream p s =
     (if length s < content_length p then (NeedMore, p, s)
      else (Complete, p\<lparr>req := (req p)\<lparr>rq_body := take (content_length p) s\<rparr>\<rparr>,
            drop (content_length p) s))"

function parse_stream :: "parser \<Rightarrow> string \<Rightarrow> parse_result \<times> parser \<times> string" where
  "parse_stream p s =
     (case state p of
        RequestLine \<Rightarrow>
          (case line_stream p s of
             (Complete, p1, s1) \<Rightarrow> parse_stream (p1\<lparr>state := Headers\<rparr>) s1 | r \<Rightarrow> r)
      | Headers \<Rightarrow>
          (case headers_stream p s of
             (Complete, p1, s1) \<Rightarrow>
               parse_stream (p1\<lparr>state := (if content_length p1 = 0 then Done else Body)\<rparr>) s1
           | r \<Rightarrow> r)
      | Body \<Rightarrow>
          (case body_stream p s of
             (Complete, p1, s1) \<Rightarrow> parse_stream (p1\<lparr>state := Done\<rparr>) s1 | r \<Rightarrow> r)
      | Done \<Rightarrow> (Complete, p, s))"
  by pat_completeness auto
termination
  by (relation "measure (\<lambda>(p, s). state_rank (state p))") auto

declare headers_stream.simps [simp del] parse_stream.simps [simp del]

subsection \<open>Refinement\<close>

fun view3 :: "parse_result \<times> parser \<times> buffer \<Rightarrow> parse_result \<times> parser \<times> string" where
  "view3 (r, p, b) = (r, p, contents b)"

lemma take_line_contents:
  assumes "buf_ok b"
  shows "findEOL b = None \<Longrightarrow> split_line (contents b) = None"
    and "findEOL b = Some eol \<Longrightarrow>
      split_line (contents b) = Some (peek_string b (eol - peek b), contents (retrieveUntil (eol + 1) b))"
proof -
  show "split_line (contents b) = None" if "findEOL b = None"
    using assms that by (simp add: findEOL_contents split_line_def)
  assume "findEOL b = Some eol"
  then obtain i where i: "first_index (\<lambda>c. c = LF) (contents b) = Some i" "eol = peek b + i"
    using assms by (auto simp: findEOL_contents)
  then have "i < readableBytes b" using first_index_less assms by fastforce
  with i assms show "split_line (contents b) =
      Some (peek_string b (eol - peek b), contents (retrieveUntil (eol + 1) b))"
    by (simp add: split_line_def peek_string_contents contents_retrieveUntil)
qed

lemma parseRequestLine_stream:
  "buf_ok b \<Longrightarrow> buf_ok (snd (snd (parseRequestLine p b))) \<and>
     view3 (parseRequestLine p b) = line_stream p (contents b)"
  using take_line_contents [of b]
  by (cases "findEOL b")
    (auto simp: parseRequestLine_def line_stream_def Let_def split_beta inv_intros)

lemma parseHeaders_stream:
  "buf_ok b \<Longrightarrow> buf_ok (snd (snd (parseHeaders p b))) \<and>
     view3 (parseHeaders p b) = headers_stream p (contents b)"
proof (induction p b rule: parseHeaders.induct)
  case (1 p b)
  note sl = take_line_contents [OF "1.prems"]
  show ?case
  proof (cases "findEOL b")
    case None
    with sl(1) "1.prems" show ?thesis
      by (subst parseHeaders.simps, subst (2) parseHeaders.simps, subst headers_stream.simps)
        (simp add: Let_def)
  next
    case (Some eol)
    let ?raw = "peek_string b (eol - peek b)"
    let ?p1 = "p\<lparr>header_bytes := header_bytes p + length ?raw + 1\<rparr>"
    let ?b1 = "retrieveUntil (eol + 1) b"
    have ok1: "buf_ok ?b1" using "1.prems" by (rule retrieveUntil_ok)
    have u: "parseHeaders p b = (case header_step ?p1 ?raw of
                (Some r, p2) \<Rightarrow> (r, p2, ?b1) | (None, p2) \<Rightarrow> parseHeaders p2 ?b1)"
      using Some by (subst parseHeaders.simps) (simp only: Let_def option.case)
    have v: "headers_stream p (contents b) = (case header_step ?p1 ?raw of
                (Some r, p2) \<Rightarrow> (r, p2, contents ?b1) | (None, p2) \<Rightarrow> headers_stream p2 (contents ?b1))"
      using sl(2) [OF Some] by (subst headers_stream.simps) (simp only: option.case prod.case)
    obtain r p2 where h: "header_step ?p1 ?raw = (r, p2)" by fastforce
    then show ?thesis
      using 1(1) [OF Some refl refl refl h [symmetric]] ok1
      unfolding u v by (cases r) auto
  qed
qed

lemma parseBody_stream:
  "buf_ok b \<Longrightarrow> buf_ok (snd (snd (parseBody p b))) \<and> view3 (parseBody p b) = body_stream p (contents b)"
  using contents_retrieveAsString [of b "content_length p"]
  by (auto simp: parseBody_def body_stream_def split_beta retrieveAsString_def Let_def inv_intros)

end
