(* ===== verification/HttpParser_Correct.thy ===== *)
theory HttpParser_Correct
  imports HttpParser
begin

text \<open>
  Correctness of the request parser. It refines the stream machine (\<open>parse_refines\<close>);
  how the bytes are cut into reads does not matter except for the header size limit; a
  well-formed request is read back field by field and leaves the bytes of the next request
  in place; every branch of the header rules is stated; the body and header limits hold.
\<close>

section \<open>Refinement of the stream machine\<close>

lemma parse_unfold:
  "state p = RequestLine \<Longrightarrow> parse p b = (case parseRequestLine p b of
     (Complete, p1, b1) \<Rightarrow> parse (p1\<lparr>state := Headers\<rparr>) b1 | r \<Rightarrow> r)"
  "state p = Headers \<Longrightarrow> parse p b = (case parseHeaders p b of
     (Complete, p1, b1) \<Rightarrow> parse (p1\<lparr>state := (if content_length p1 = 0 then Done else Body)\<rparr>) b1
   | r \<Rightarrow> r)"
  "state p = Body \<Longrightarrow> parse p b = (case parseBody p b of
     (Complete, p1, b1) \<Rightarrow> parse (p1\<lparr>state := Done\<rparr>) b1 | r \<Rightarrow> r)"
  "state p = Done \<Longrightarrow> parse p b = (Complete, p, b)"
  by (subst parse.simps; simp)+

lemma parse_stream_unfold:
  "state p = RequestLine \<Longrightarrow> parse_stream p s = (case line_stream p s of
     (Complete, p1, s1) \<Rightarrow> parse_stream (p1\<lparr>state := Headers\<rparr>) s1 | r \<Rightarrow> r)"
  "state p = Headers \<Longrightarrow> parse_stream p s = (case headers_stream p s of
     (Complete, p1, s1) \<Rightarrow> parse_stream (p1\<lparr>state := (if content_length p1 = 0 then Done else Body)\<rparr>) s1
   | r \<Rightarrow> r)"
  "state p = Body \<Longrightarrow> parse_stream p s = (case body_stream p s of
     (Complete, p1, s1) \<Rightarrow> parse_stream (p1\<lparr>state := Done\<rparr>) s1 | r \<Rightarrow> r)"
  "state p = Done \<Longrightarrow> parse_stream p s = (Complete, p, s)"
  by (subst parse_stream.simps; simp)+

text \<open>One round of the dispatch loop: a step that refines, then the loop again.\<close>

lemma dispatch_refines:
  assumes "buf_ok (snd (snd R)) \<and> view3 R = S"
    and "\<And>p1 b1. R = (Complete, p1, b1) \<Longrightarrow>
      buf_ok (snd (snd (F p1 b1))) \<and> view3 (F p1 b1) = G p1 (contents b1)"
  shows "buf_ok (snd (snd (case R of (Complete, p1, b1) \<Rightarrow> F p1 b1 | r \<Rightarrow> r))) \<and>
    view3 (case R of (Complete, p1, b1) \<Rightarrow> F p1 b1 | r \<Rightarrow> r) =
    (case S of (Complete, p1, s1) \<Rightarrow> G p1 s1 | r \<Rightarrow> r)"
proof -
  obtain r p1 b1 where R: "R = (r, p1, b1)" by (cases R)
  show ?thesis
    using assms unfolding R by (cases r) auto
qed

lemma parse_refines_aux:
  "buf_ok b \<Longrightarrow> buf_ok (snd (snd (parse p b))) \<and> view3 (parse p b) = parse_stream p (contents b)"
proof (induction p b rule: parse.induct)
  case (1 p b)
  show ?case
  proof (cases "state p")
    case RequestLine
    have *: "buf_ok (snd (snd (parse (p1\<lparr>state := Headers\<rparr>) b1))) \<and>
        view3 (parse (p1\<lparr>state := Headers\<rparr>) b1) = parse_stream (p1\<lparr>state := Headers\<rparr>) (contents b1)"
      if "parseRequestLine p b = (Complete, p1, b1)" for p1 b1
      using "1.IH"(1) [OF RequestLine that [symmetric] refl refl]
        parseRequestLine_stream [OF "1.prems", of p] that by auto
    show ?thesis
      unfolding parse_unfold(1) [OF RequestLine] parse_stream_unfold(1) [OF RequestLine]
      by (rule dispatch_refines [OF parseRequestLine_stream [OF "1.prems"]]) (rule *)
  next
    case Headers
    let ?st = "\<lambda>p1. if content_length p1 = 0 then Done else Body"
    have *: "buf_ok (snd (snd (parse (p1\<lparr>state := ?st p1\<rparr>) b1))) \<and>
        view3 (parse (p1\<lparr>state := ?st p1\<rparr>) b1) = parse_stream (p1\<lparr>state := ?st p1\<rparr>) (contents b1)"
      if "parseHeaders p b = (Complete, p1, b1)" for p1 b1
      using "1.IH"(2) [OF Headers that [symmetric] refl refl]
        parseHeaders_stream [OF "1.prems", of p] that by auto
    show ?thesis
      unfolding parse_unfold(2) [OF Headers] parse_stream_unfold(2) [OF Headers]
      by (rule dispatch_refines [OF parseHeaders_stream [OF "1.prems"]]) (rule *)
  next
    case Body
    have *: "buf_ok (snd (snd (parse (p1\<lparr>state := Done\<rparr>) b1))) \<and>
        view3 (parse (p1\<lparr>state := Done\<rparr>) b1) = parse_stream (p1\<lparr>state := Done\<rparr>) (contents b1)"
      if "parseBody p b = (Complete, p1, b1)" for p1 b1
      using "1.IH"(3) [OF Body that [symmetric] refl refl]
        parseBody_stream [OF "1.prems", of p] that by auto
    show ?thesis
      unfolding parse_unfold(3) [OF Body] parse_stream_unfold(3) [OF Body]
      by (rule dispatch_refines [OF parseBody_stream [OF "1.prems"]]) (rule *)
  next
    case Done
    then show ?thesis using "1.prems" by (simp add: parse_unfold parse_stream_unfold)
  qed
qed

section \<open>Independence of the header byte counter\<close>

text \<open>
  \<open>ahead p q\<close>: \<open>q\<close> is \<open>p\<close> with a header counter at least as high. The chunked
  parser is ahead of the one that sees all bytes at once, because it counts a partial line
  each time it has to wait.
\<close>

definition ahead :: "parser \<Rightarrow> parser \<Rightarrow> bool" where
  "ahead p q \<longleftrightarrow> q = p\<lparr>header_bytes := header_bytes q\<rparr> \<and> header_bytes p \<le> header_bytes q"

definition too_large :: "parse_result \<Rightarrow> bool" where
  "too_large r \<longleftrightarrow> (case r of Error e \<Rightarrow> err_status e = 431 | _ \<Rightarrow> False)"

definition agree :: "parse_result \<times> parser \<times> string \<Rightarrow> parse_result \<times> parser \<times> string \<Rightarrow> bool" where
  "agree x y \<longleftrightarrow> fst x = fst y \<and> ahead (fst (snd x)) (fst (snd y)) \<and> snd (snd x) = snd (snd y)"

lemma too_large_simps [simp]:
  "\<not> too_large NeedMore" "\<not> too_large Complete" "too_large (http_err st cd dt) = (st = 431)"
  by (simp_all add: too_large_def http_err_def)

lemma ahead_obtain:
  assumes "ahead p q"
  obtains h where "q = p\<lparr>header_bytes := h\<rparr>" "header_bytes p \<le> h"
  using assms by (auto simp: ahead_def)

lemma ahead_upd [simp]: "ahead p (p\<lparr>header_bytes := h\<rparr>) = (header_bytes p \<le> h)"
  by (simp add: ahead_def)

lemma request_line_counter:
  "request_line (p\<lparr>header_bytes := h\<rparr>) l = map_prod id (header_bytes_update (\<lambda>_. h)) (request_line p l)"
  by (auto simp: request_line_def Let_def split: list.splits option.splits)

lemma request_line_keeps: "header_bytes (snd (request_line p l)) = header_bytes p"
  by (auto simp: request_line_def Let_def split: list.splits option.splits)

lemma end_of_headers_counter:
  "end_of_headers (p\<lparr>header_bytes := h\<rparr>) = map_prod id (header_bytes_update (\<lambda>_. h)) (end_of_headers p)"
  by (auto simp: end_of_headers_def chunked_body_def declared_length_def split: sum.splits option.splits)

lemma header_step_counter:
  assumes "header_bytes p \<le> h" "h \<le> kMaxHeaderBytes"
  shows "header_step (p\<lparr>header_bytes := h\<rparr>) l = map_prod id (header_bytes_update (\<lambda>_. h)) (header_step p l)"
  using assms
  by (auto simp: header_step_def Let_def end_of_headers_counter map_prod.compositionality comp_def
      split: option.splits)

lemma end_of_headers_keeps: "header_bytes (snd (end_of_headers p)) = header_bytes p"
  by (auto simp: end_of_headers_def split: sum.splits)

lemma header_step_keeps: "header_bytes (snd (header_step p l)) = header_bytes p"
  by (auto simp: header_step_def Let_def end_of_headers_keeps split: option.splits)

lemma line_stream_ahead:
  assumes "ahead p q"
  shows "agree (line_stream p s) (line_stream q s)"
proof -
  obtain h where q: "q = p\<lparr>header_bytes := h\<rparr>" "header_bytes p \<le> h" using assms by (rule ahead_obtain)
  then show ?thesis
    by (cases "split_line s")
      (auto simp: line_stream_def Let_def agree_def split_beta request_line_counter [where p = p] ahead_def
        request_line_keeps)
qed

lemma headers_stream_step:
  "split_line s = Some (raw, s1) \<Longrightarrow> headers_stream p s =
     (case header_step (p\<lparr>header_bytes := header_bytes p + length raw + 1\<rparr>) raw of
        (Some r, p2) \<Rightarrow> (r, p2, s1) | (None, p2) \<Rightarrow> headers_stream p2 s1)"
  by (subst headers_stream.simps) simp

lemma headers_stream_wait:
  "split_line s = None \<Longrightarrow> headers_stream p s =
     (if header_bytes p + length s > kMaxHeaderBytes
      then (http_err 431 ''headers_too_large'' msg_headers_too_large,
            p\<lparr>header_bytes := header_bytes p + length s\<rparr>, s)
      else (NeedMore, p\<lparr>header_bytes := header_bytes p + length s\<rparr>, s))"
  by (subst headers_stream.simps) (simp add: Let_def)

lemma headers_stream_ahead:
  "ahead p q \<Longrightarrow> \<not> too_large (fst (headers_stream q s)) \<Longrightarrow>
   agree (headers_stream p s) (headers_stream q s)"
proof (induction p s arbitrary: q rule: headers_stream.induct)
  case (1 p s)
  from "1.prems"(1) obtain h where q: "q = p\<lparr>header_bytes := h\<rparr>" "header_bytes p \<le> h"
    by (rule ahead_obtain)
  show ?case
  proof (cases "split_line s")
    case None
    with "1.prems"(2) q show ?thesis
      by (auto simp: headers_stream_wait agree_def ahead_def split: if_splits)
  next
    case (Some a)
    then obtain raw s1 where sl: "split_line s = Some (raw, s1)" by (cases a) auto
    let ?p1 = "p\<lparr>header_bytes := header_bytes p + length raw + 1\<rparr>"
    let ?h1 = "h + length raw + 1"
    obtain r p2 where step: "header_step ?p1 raw = (r, p2)" by fastforce
    have hb: "header_bytes p2 = header_bytes p + length raw + 1"
      using header_step_keeps [of ?p1 raw] step by simp
    have hq: "headers_stream q s =
        (case header_step (?p1\<lparr>header_bytes := ?h1\<rparr>) raw of
           (Some r, p2) \<Rightarrow> (r, p2, s1) | (None, p2) \<Rightarrow> headers_stream p2 s1)"
      by (simp add: headers_stream_step [OF sl] q)
    have "?h1 \<le> kMaxHeaderBytes"
      using "1.prems"(2) unfolding hq by (rule contrapos_np) (simp add: header_step_def)
    then have step': "header_step (?p1\<lparr>header_bytes := ?h1\<rparr>) raw = (r, p2\<lparr>header_bytes := ?h1\<rparr>)"
      using header_step_counter [of ?p1 ?h1 raw] q(2) step by simp
    have hp: "headers_stream p s = (case r of Some r' \<Rightarrow> (r', p2, s1) | None \<Rightarrow> headers_stream p2 s1)"
      using step by (simp add: headers_stream_step [OF sl] split: option.split)
    have hq': "headers_stream q s = (case r of Some r' \<Rightarrow> (r', p2\<lparr>header_bytes := ?h1\<rparr>, s1)
        | None \<Rightarrow> headers_stream (p2\<lparr>header_bytes := ?h1\<rparr>) s1)"
      using step' unfolding hq by (simp split: option.split)
    have le: "header_bytes p2 \<le> ?h1" using hb q(2) by simp
    show ?thesis
    proof (cases r)
      case None
      then show ?thesis
        using 1(1) [OF sl refl step [symmetric] None, of "p2\<lparr>header_bytes := ?h1\<rparr>"] le "1.prems"(2)
        unfolding hp hq' by simp
    next
      case (Some r')
      then show ?thesis using le unfolding hp hq' agree_def by simp
    qed
  qed
qed

text \<open>One round of the dispatch loop on the stream: agreeing steps, then the loop again.\<close>

lemma dispatch_agree:
  assumes "agree R S"
    and "\<And>p1 q1 s1. \<lbrakk>R = (Complete, p1, s1); S = (Complete, q1, s1); ahead p1 q1\<rbrakk> \<Longrightarrow>
      agree (F p1 s1) (F q1 s1)"
  shows "agree (case R of (Complete, p1, s1) \<Rightarrow> F p1 s1 | r \<Rightarrow> r)
               (case S of (Complete, q1, s1) \<Rightarrow> F q1 s1 | r \<Rightarrow> r)"
proof -
  obtain r p1 s1 where R: "R = (r, p1, s1)" by (cases R)
  with assms(1) obtain q1 where S: "S = (r, q1, s1)" and "ahead p1 q1"
    by (cases S) (auto simp: agree_def)
  then show ?thesis
    using assms unfolding R S by (cases r) auto
qed

lemma ahead_state: "ahead p q \<Longrightarrow> state q = state p \<and> content_length q = content_length p \<and> req q = req p"
  by (auto elim!: ahead_obtain)

lemma ahead_state_upd: "ahead p q \<Longrightarrow> ahead (p\<lparr>state := st\<rparr>) (q\<lparr>state := st\<rparr>)"
  by (erule ahead_obtain) (simp add: ahead_def)

lemma body_stream_ahead: "ahead p q \<Longrightarrow> agree (body_stream p s) (body_stream q s)"
  by (erule ahead_obtain) (simp add: body_stream_def agree_def ahead_def)

lemma not_too_large_dispatch:
  "\<not> too_large (fst (case R of (Complete, p1, s1) \<Rightarrow> F p1 s1 | r \<Rightarrow> r)) \<Longrightarrow> \<not> too_large (fst R)"
  by (cases R; cases "fst R") auto

lemma parse_stream_ahead:
  "ahead p q \<Longrightarrow> \<not> too_large (fst (parse_stream q s)) \<Longrightarrow>
   agree (parse_stream p s) (parse_stream q s)"
proof (induction p s arbitrary: q rule: parse_stream.induct)
  case (1 p s)
  note q = ahead_state [OF "1.prems"(1)]
  show ?case
  proof (cases "state p")
    case RequestLine
    with q have q': "state q = RequestLine" by simp
    note nl = "1.prems"(2) [unfolded parse_stream_unfold(1) [OF q']]
    show ?thesis
      unfolding parse_stream_unfold(1) [OF RequestLine] parse_stream_unfold(1) [OF q']
      using nl by (intro dispatch_agree line_stream_ahead "1.prems"(1))
        (auto intro!: "1.IH"(1) [OF RequestLine _ refl refl] ahead_state_upd)
  next
    case Headers
    with q have q': "state q = Headers" by simp
    note nl = "1.prems"(2) [unfolded parse_stream_unfold(2) [OF q']]
    show ?thesis
      unfolding parse_stream_unfold(2) [OF Headers] parse_stream_unfold(2) [OF q']
      using nl not_too_large_dispatch [OF nl]
      by (intro dispatch_agree headers_stream_ahead "1.prems"(1))
        (auto intro!: "1.IH"(2) [OF Headers _ refl refl] ahead_state_upd simp: ahead_state split del: if_split)
  next
    case Body
    with q have q': "state q = Body" by simp
    note nl = "1.prems"(2) [unfolded parse_stream_unfold(3) [OF q']]
    show ?thesis
      unfolding parse_stream_unfold(3) [OF Body] parse_stream_unfold(3) [OF q']
      using nl by (intro dispatch_agree body_stream_ahead "1.prems"(1))
        (auto intro!: "1.IH"(3) [OF Body _ refl refl] ahead_state_upd)
  next
    case Done
    with q "1.prems"(1) show ?thesis by (simp add: parse_stream_unfold agree_def)
  qed
qed

section \<open>Cutting the stream\<close>

text \<open>
  A parser that waits holds everything it has seen: going on with the remaining bytes gives
  what the uncut input gives, unless the header limit strikes first. In state
  \<open>RequestLine\<close> the counter is at most the number of bytes in the buffer.
\<close>

definition counter_ok :: "parser \<Rightarrow> string \<Rightarrow> bool" where
  "counter_ok p s \<longleftrightarrow> (state p = RequestLine \<longrightarrow> header_bytes p \<le> length s)"

lemma headers_never_wait_after_line:
  assumes "header_step p raw = (Some r, p2)"
  shows "r \<noteq> NeedMore"
  using assms
  by (auto simp: header_step_def end_of_headers_def declared_length_def http_err_def Let_def
      split: if_splits option.splits sum.splits)

lemma headers_stream_cut:
  "headers_stream p s = (NeedMore, p', s') \<Longrightarrow> \<not> too_large (fst (headers_stream p' (s' @ t))) \<Longrightarrow>
   agree (headers_stream p (s @ t)) (headers_stream p' (s' @ t))"
proof (induction p s rule: headers_stream.induct)
  case (1 p s)
  show ?case
  proof (cases "split_line s")
    case None
    with "1.prems"(1) have "p' = p\<lparr>header_bytes := header_bytes p + length s\<rparr>" "s' = s"
      by (auto simp: headers_stream_wait http_err_def split: if_splits)
    with "1.prems"(2) show ?thesis using headers_stream_ahead [of p p' "s' @ t"] by simp
  next
    case (Some a)
    then obtain raw s1 where sl: "split_line s = Some (raw, s1)" by (cases a) auto
    obtain r p2 where step:
      "header_step (p\<lparr>header_bytes := header_bytes p + length raw + 1\<rparr>) raw = (r, p2)" by fastforce
    show ?thesis
    proof (cases r)
      case None
      with sl step 1 show ?thesis
        by (simp add: headers_stream_step [OF sl] headers_stream_step [OF split_line_append [OF sl]])
    next
      case (Some r')
      then have "r' = NeedMore" using sl step "1.prems"(1) by (simp add: headers_stream_step [OF sl])
      with headers_never_wait_after_line [of _ raw r' p2] step Some show ?thesis by blast
    qed
  qed
qed

lemma request_line_never_waits: "fst (request_line p l) \<noteq> NeedMore"
  by (auto simp: request_line_def Let_def http_err_def split: list.splits)

lemma line_stream_wait:
  "line_stream p s = (NeedMore, p', s') \<Longrightarrow>
     p' = p\<lparr>header_bytes := length s\<rparr> \<and> s' = s \<and> LF \<notin> set s"
  using request_line_never_waits
  by (auto simp: line_stream_def Let_def split_beta http_err_def split_line_None split: option.splits if_splits)

text \<open>A result other than waiting and other than the size limit does not depend on later bytes.\<close>

definition final :: "parse_result \<Rightarrow> bool" where
  "final r \<longleftrightarrow> r \<noteq> NeedMore \<and> \<not> too_large r"

lemma final_simps [simp]: "final Complete" "\<not> final NeedMore" "final (http_err st cd dt) = (st \<noteq> 431)"
  by (simp_all add: final_def http_err_def too_large_def)

lemma line_stream_cut:
  "line_stream p s = (r, p1, s1) \<Longrightarrow> final r \<Longrightarrow> line_stream p (s @ t) = (r, p1, s1 @ t)"
  by (auto simp: line_stream_def Let_def split_beta split_line_append split: option.splits if_splits)

lemma headers_stream_cut_final:
  "headers_stream p s = (r, p1, s1) \<Longrightarrow> final r \<Longrightarrow> headers_stream p (s @ t) = (r, p1, s1 @ t)"
proof (induction p s rule: headers_stream.induct)
  case (1 p s)
  show ?case
  proof (cases "split_line s")
    case None
    with "1.prems" show ?thesis by (auto simp: headers_stream_wait split: if_splits)
  next
    case (Some a)
    then obtain raw s2 where sl: "split_line s = Some (raw, s2)" by (cases a) auto
    obtain r2 p2 where step:
      "header_step (p\<lparr>header_bytes := header_bytes p + length raw + 1\<rparr>) raw = (r2, p2)" by fastforce
    with sl 1 show ?thesis
      by (cases r2)
        (simp_all add: headers_stream_step [OF sl] headers_stream_step [OF split_line_append [OF sl]])
  qed
qed

lemma body_stream_cut:
  "body_stream p s = (r, p1, s1) \<Longrightarrow> final r \<Longrightarrow> body_stream p (s @ t) = (r, p1, s1 @ t)"
  by (auto simp: body_stream_def split: if_splits)

lemma header_step_state: "state (snd (header_step p l)) = state p"
  by (auto simp: header_step_def Let_def end_of_headers_def split: option.splits sum.splits)

lemma headers_stream_state: "state (fst (snd (headers_stream p s))) = state p"
proof (induction p s rule: headers_stream.induct)
  case (1 p s)
  show ?case
  proof (cases "split_line s")
    case None
    then show ?thesis by (simp add: headers_stream_wait)
  next
    case (Some a)
    then obtain raw s1 where sl: "split_line s = Some (raw, s1)" by (cases a) auto
    let ?p1 = "p\<lparr>header_bytes := header_bytes p + length raw + 1\<rparr>"
    obtain r p2 where step: "header_step ?p1 raw = (r, p2)" by fastforce
    then have "state p2 = state p" using header_step_state [of ?p1 raw] by simp
    with sl step 1 show ?thesis by (cases r) (simp_all add: headers_stream_step [OF sl])
  qed
qed

lemma dispatch_result:
  assumes "(case R of (Complete, p, s) \<Rightarrow> F p s | x \<Rightarrow> x) = (r, p', s')"
    and "R = (r, p', s') \<Longrightarrow> r \<noteq> Complete \<Longrightarrow> Q" and "\<And>p1 s1. R = (Complete, p1, s1) \<Longrightarrow> F p1 s1 = (r, p', s') \<Longrightarrow> Q"
  shows Q
proof -
  obtain x p1 s1 where R: "R = (x, p1, s1)" by (cases R)
  then show Q using assms by (cases x) auto
qed

lemmas dispatch_wait = dispatch_result [where r = NeedMore]

text \<open>Waiting in the request line and in the header block.\<close>

lemma parse_line_cut:
  assumes "state p = RequestLine" "line_stream p s = (NeedMore, p', s')" "counter_ok p s"
    and "\<not> too_large (fst (parse_stream p' (s' @ t)))"
  shows "agree (parse_stream p (s @ t)) (parse_stream p' (s' @ t))"
proof -
  from line_stream_wait [OF assms(2)] have p': "p' = p\<lparr>header_bytes := length s\<rparr>" "s' = s" by auto
  with assms(1,3) have "ahead p p'" by (simp add: counter_ok_def)
  with p' show ?thesis using parse_stream_ahead [of p p' "s' @ t"] assms(4) by simp
qed

lemma parse_headers_cut:
  assumes "state p = Headers" "headers_stream p s = (NeedMore, p', s')" and "\<not> too_large (fst (parse_stream p' (s' @ t)))"
  shows "agree (parse_stream p (s @ t)) (parse_stream p' (s' @ t))"
proof -
  have st: "state p' = Headers" using headers_stream_state [of p s] assms by simp
  note nl = assms(3) [unfolded parse_stream_unfold(2) [OF st]]
  show ?thesis
    unfolding parse_stream_unfold(2) [OF assms(1)] parse_stream_unfold(2) [OF st]
    by (rule dispatch_agree [OF headers_stream_cut [OF assms(2) not_too_large_dispatch [OF nl]]])
      (use nl in \<open>auto intro!: parse_stream_ahead ahead_state_upd simp: ahead_state split del: if_split\<close>)
qed

lemma parse_stream_cut:
  "parse_stream p s = (NeedMore, p', s') \<Longrightarrow> counter_ok p s \<Longrightarrow>
   \<not> too_large (fst (parse_stream p' (s' @ t))) \<Longrightarrow>
   agree (parse_stream p (s @ t)) (parse_stream p' (s' @ t))"
proof (induction p s rule: parse_stream.induct)
  case (1 p s)
  show ?case
  proof (cases "state p")
    case RequestLine
    show ?thesis
    proof (rule dispatch_wait [OF "1.prems"(1) [unfolded parse_stream_unfold(1) [OF RequestLine]]])
      fix p1 s1 assume L: "line_stream p s = (Complete, p1, s1)" and "parse_stream (p1\<lparr>state := Headers\<rparr>) s1 = (NeedMore, p', s')"
      with RequestLine "1.prems" "1.IH"(1) [OF RequestLine L [symmetric] refl refl] show ?thesis
        by (simp add: parse_stream_unfold line_stream_cut [OF L] counter_ok_def)
    qed (rule parse_line_cut [OF RequestLine _ "1.prems"(2,3)])
  next
    case Headers
    show ?thesis
    proof (rule dispatch_wait [OF "1.prems"(1) [unfolded parse_stream_unfold(2) [OF Headers]]])
      fix p1 s1 assume L: "headers_stream p s = (Complete, p1, s1)"
      with Headers "1.prems" "1.IH"(2) [OF Headers L [symmetric] refl refl] show ?thesis
        by (simp add: parse_stream_unfold headers_stream_cut_final [OF L] counter_ok_def)
    qed (rule parse_headers_cut [OF Headers _ "1.prems"(3)])
  next
    case Body
    with "1.prems"(1) have "p' = p" "s' = s"
      by (auto simp: parse_stream_unfold body_stream_def split: if_splits)
    then show ?thesis by (simp add: agree_def ahead_def)
  next
    case Done
    with "1.prems"(1) show ?thesis by (simp add: parse_stream_unfold)
  qed
qed

lemma dispatch_final:
  assumes "R = (r2, p2, s2)" "final r2 \<Longrightarrow> R' = (r2, p2, s2 @ t)"
    and "(case R of (Complete, p, s) \<Rightarrow> F p s | x \<Rightarrow> x) = (r, p1, s1)" "final r"
    and "\<lbrakk>r2 = Complete; F p2 s2 = (r, p1, s1)\<rbrakk> \<Longrightarrow> F p2 (s2 @ t) = (r, p1, s1 @ t)"
  shows "(case R' of (Complete, p, s) \<Rightarrow> F p s | x \<Rightarrow> x) = (r, p1, s1 @ t)"
  using assms by (cases r2) auto

lemma parse_stream_final:
  "parse_stream p s = (r, p1, s1) \<Longrightarrow> final r \<Longrightarrow> parse_stream p (s @ t) = (r, p1, s1 @ t)"
proof (induction p s rule: parse_stream.induct)
  case (1 p s)
  show ?case
  proof (cases "state p")
    case RequestLine
    obtain r2 p2 s2 where L: "line_stream p s = (r2, p2, s2)" by (cases "line_stream p s")
    note E = parse_stream_unfold(1) [OF RequestLine]
    show ?thesis
      unfolding E by (rule dispatch_final [OF L line_stream_cut [OF L] "1.prems"(1) [unfolded E] "1.prems"(2)])
        (use L "1.IH"(1) [OF RequestLine L [symmetric] _ refl] "1.prems"(2) in auto)
  next
    case Headers
    obtain r2 p2 s2 where L: "headers_stream p s = (r2, p2, s2)" by (cases "headers_stream p s")
    note E = parse_stream_unfold(2) [OF Headers]
    show ?thesis
      unfolding E by (rule dispatch_final [OF L headers_stream_cut_final [OF L] "1.prems"(1) [unfolded E] "1.prems"(2)])
        (use L "1.IH"(2) [OF Headers L [symmetric] _ refl] "1.prems"(2) in \<open>auto split del: if_split\<close>)
  next
    case Body
    obtain r2 p2 s2 where L: "body_stream p s = (r2, p2, s2)" by (cases "body_stream p s")
    note E = parse_stream_unfold(3) [OF Body]
    show ?thesis
      unfolding E by (rule dispatch_final [OF L body_stream_cut [OF L] "1.prems"(1) [unfolded E] "1.prems"(2)])
        (use L "1.IH"(3) [OF Body L [symmetric] _ refl] "1.prems"(2) in auto)
  next
    case Done
    with "1.prems" show ?thesis by (simp add: parse_stream_unfold)
  qed
qed

lemma parse_stream_counter: "parse_stream p s = (NeedMore, p', s') \<Longrightarrow> counter_ok p' s'"
proof (induction p s rule: parse_stream.induct)
  case (1 p s)
  show ?case
  proof (cases "state p")
    case RequestLine
    show ?thesis
    proof (rule dispatch_wait [OF "1.prems" [unfolded parse_stream_unfold(1) [OF RequestLine]]])
      assume "line_stream p s = (NeedMore, p', s')"
      from line_stream_wait [OF this] show ?thesis by (simp add: counter_ok_def)
    qed (rule "1.IH"(1) [OF RequestLine sym refl refl])
  next
    case Headers
    show ?thesis
    proof (rule dispatch_wait [OF "1.prems" [unfolded parse_stream_unfold(2) [OF Headers]]])
      assume "headers_stream p s = (NeedMore, p', s')"
      then show ?thesis
        using headers_stream_state [of p s] Headers by (simp add: counter_ok_def)
    qed (rule "1.IH"(2) [OF Headers sym refl refl])
  next
    case Body
    show ?thesis
    proof (rule dispatch_wait [OF "1.prems" [unfolded parse_stream_unfold(3) [OF Body]]])
      assume "body_stream p s = (NeedMore, p', s')"
      then show ?thesis using Body by (auto simp: body_stream_def counter_ok_def split: if_splits)
    qed (rule "1.IH"(3) [OF Body sym refl refl])
  next
    case Done
    with "1.prems" show ?thesis by (simp add: parse_stream_unfold)
  qed
qed

text \<open>
  The reads of one request, as \<open>HttpServer::onMessage\<close> performs them: append a chunk,
  parse, wait for the next one. Chunks after the end of the request stay in the buffer.
\<close>

fun feed :: "parser \<Rightarrow> buffer \<Rightarrow> string list \<Rightarrow> parse_result \<times> parser \<times> buffer" where
  "feed p b [] = (NeedMore, p, b)"
| "feed p b (c # cs) =
     (case parse p (buf_append c b) of
        (NeedMore, p1, b1) \<Rightarrow> feed p1 b1 cs
      | (r, p1, b1) \<Rightarrow> (r, p1, buf_append (concat cs) b1))"

fun feed_stream :: "parser \<Rightarrow> string \<Rightarrow> string list \<Rightarrow> parse_result \<times> parser \<times> string" where
  "feed_stream p s [] = (NeedMore, p, s)"
| "feed_stream p s (c # cs) =
     (case parse_stream p (s @ c) of
        (NeedMore, p1, s1) \<Rightarrow> feed_stream p1 s1 cs
      | (r, p1, s1) \<Rightarrow> (r, p1, s1 @ concat cs))"

lemma feed_refines:
  "buf_ok b \<Longrightarrow> buf_ok (snd (snd (feed p b cs))) \<and> view3 (feed p b cs) = feed_stream p (contents b) cs"
proof (induction cs arbitrary: p b)
  case (Cons c cs)
  let ?b = "buf_append c b"
  obtain r p1 b1 where P: "parse p ?b = (r, p1, b1)" by (cases "parse p ?b")
  have "buf_ok b1" "parse_stream p (contents b @ c) = (r, p1, contents b1)"
    using parse_refines_aux [of ?b p] Cons.prems P by (auto simp: inv_intros abs_simps)
  with P Cons.IH [of b1 p1] show ?case by (cases r) (simp_all add: inv_intros abs_simps)
qed simp

lemma agree_trans: "agree x y \<Longrightarrow> agree y z \<Longrightarrow> agree x z"
  by (auto simp: agree_def elim!: ahead_obtain)

lemma agree_refl [simp]: "agree x x"
  by (simp add: agree_def ahead_def)

lemma feed_stream_agree:
  "cs \<noteq> [] \<Longrightarrow> counter_ok p s \<Longrightarrow> \<not> too_large (fst (feed_stream p s cs)) \<Longrightarrow>
   agree (parse_stream p (s @ concat cs)) (feed_stream p s cs)"
proof (induction cs arbitrary: p s)
  case (Cons c cs)
  obtain r p1 s1 where P: "parse_stream p (s @ c) = (r, p1, s1)" by (cases "parse_stream p (s @ c)")
  have ok: "counter_ok p (s @ c)" using Cons.prems(2) by (auto simp: counter_ok_def)
  show ?case
  proof (cases "r = NeedMore")
    case True
    show ?thesis
    proof (cases "cs = []")
      case True
      with \<open>r = NeedMore\<close> P show ?thesis by simp
    next
      case False
      have IH: "agree (parse_stream p1 (s1 @ concat cs)) (feed_stream p1 s1 cs)"
        using Cons True False P parse_stream_counter [of p "s @ c" p1 s1] by simp
      then have "\<not> too_large (fst (parse_stream p1 (s1 @ concat cs)))"
        using Cons.prems(3) True P by (simp add: agree_def)
      then have "agree (parse_stream p ((s @ c) @ concat cs)) (parse_stream p1 (s1 @ concat cs))"
        using parse_stream_cut [of p "s @ c"] P True ok by blast
      from agree_trans [OF this IH] show ?thesis using True P by simp
    qed
  next
    case False
    then have "feed_stream p s (c # cs) = (r, p1, s1 @ concat cs)" using P by (cases r) simp_all
    moreover from this False Cons.prems(3) have "final r" by (simp add: final_def)
    ultimately show ?thesis using parse_stream_final [OF P, of "concat cs"] by simp
  qed
qed simp

section \<open>Reading a well-formed request\<close>

definition header_text :: "(string \<times> string) list \<Rightarrow> string" where
  "header_text hs = concat (map (\<lambda>kv. fst kv @ '': '' @ snd kv @ CRLF) hs)"

definition head_text :: "string \<Rightarrow> string \<Rightarrow> string \<Rightarrow> (string \<times> string) list \<Rightarrow> string" where
  "head_text m t v hs = m @ '' '' @ t @ '' '' @ v @ CRLF @ header_text hs @ CRLF"

definition wf_token :: "string \<Rightarrow> bool" where
  "wf_token w \<longleftrightarrow> w \<noteq> [] \<and> (\<forall>c \<in> set w. \<not> isspace c)"

definition wf_header :: "string \<times> string \<Rightarrow> bool" where
  "wf_header kv \<longleftrightarrow> trim (fst kv) = fst kv \<and> trim (snd kv) = snd kv \<and>
     CHR '':'' \<notin> set (fst kv) \<and> LF \<notin> set (fst kv) \<and> LF \<notin> set (snd kv)"

definition lower_keys :: "(string \<times> string) list \<Rightarrow> (string \<times> string) list" where
  "lower_keys hs = map (\<lambda>kv. (lower (fst kv), snd kv)) hs"

lemma trimmed_ends: "trim s = s \<Longrightarrow> s \<noteq> [] \<Longrightarrow> \<not> isspace (hd s) \<and> \<not> isspace (last s)"
proof -
  assume t: "trim s = s" and ne: "s \<noteq> []"
  let ?d = "dropWhile isspace s"
  have "length (dropWhile isspace (rev ?d)) \<le> length ?d" "length ?d \<le> length s"
    using length_dropWhile_le [of isspace "rev ?d"] length_dropWhile_le [of isspace s] by auto
  moreover have "length (dropWhile isspace (rev ?d)) = length s"
    using t by (metis length_rev trim_dropWhile)
  ultimately have "?d = s"
    by (metis append_eq_append_conv append_Nil le_antisym takeWhile_dropWhile_id)
  moreover from this t have "dropWhile isspace (rev s) = rev s"
    by (metis rev_rev_ident trim_dropWhile)
  ultimately show ?thesis
    using ne hd_dropWhile [of isspace s] hd_dropWhile [of isspace "rev s"] by (metis hd_rev rev_is_Nil_conv)
qed

lemma hd_append_colon: "trim k = k \<Longrightarrow> \<not> isspace (hd (k @ CHR '':'' # x))"
  using trimmed_ends [of k] by (cases k) (auto simp: isspace_def)

lemma trim_header:
  assumes "trim k = k" "trim v = v"
  shows "trim (k @ '': '' @ v @ [CR]) = (if v = [] then k @ '':'' else k @ '': '' @ v)"
proof (cases "v = []")
  case True
  have "trim ((k @ '':'') @ [CHR '' '', CR]) = trim (k @ '':'')" by (rule trim_append_space) simp
  also have "\<dots> = k @ '':''"
    using assms hd_append_colon [of k] by (intro trim_id) (auto simp: isspace_def)
  finally show ?thesis using True by simp
next
  case False
  have "trim ((k @ '': '' @ v) @ [CR]) = trim (k @ '': '' @ v)" by (rule trim_append_space) simp
  also have "\<dots> = k @ '': '' @ v"
    using False assms trimmed_ends [of v] hd_append_colon [of k] by (intro trim_id) auto
  finally show ?thesis using False by simp
qed

lemma find_char_0: "find_char c s 0 = first_index (\<lambda>x. x = c) s"
  by (simp add: find_char_def option.map_ident)

lemma find_char_hit: "c \<notin> set l \<Longrightarrow> find_char c (l @ c # r) 0 = Some (length l)"
  by (auto simp: find_char_0 first_index_split)

lemma header_step_line:
  assumes "wf_header (k, v)" "header_bytes p \<le> kMaxHeaderBytes"
  shows "header_step p (k @ '': '' @ v @ [CR]) =
    (None, p\<lparr>req := (req p)\<lparr>rq_headers := rq_headers (req p) @ [(lower k, v)]\<rparr>\<rparr>)"
proof -
  have kv: "trim k = k" "trim v = v" "CHR '':'' \<notin> set k" using assms(1) by (simp_all add: wf_header_def)
  let ?x = "if v = [] then [] else CHR '' '' # v"
  have line: "trim (k @ '': '' @ v @ [CR]) = k @ CHR '':'' # ?x" using kv trim_header by simp
  have "trim ?x = v" using kv(2) trim_space_append [of "'' ''" v] by simp
  moreover have "find_char (CHR '':'') (k @ CHR '':'' # ?x) 0 = Some (length k)"
    using kv(3) by (rule find_char_hit)
  ultimately show ?thesis
    using assms(2) kv by (simp only: header_step_def Let_def line option.case) simp
qed

lemma headers_stream_prefix:
  "\<lbrakk>\<forall>kv \<in> set hs. wf_header kv; header_bytes p + length (header_text hs) \<le> kMaxHeaderBytes\<rbrakk> \<Longrightarrow>
   headers_stream p (header_text hs @ s) =
     headers_stream (p\<lparr>header_bytes := header_bytes p + length (header_text hs),
       req := (req p)\<lparr>rq_headers := rq_headers (req p) @ lower_keys hs\<rparr>\<rparr>) s"
proof (induction hs arbitrary: p)
  case (Cons kv hs)
  obtain k v where kv: "kv = (k, v)" by (cases kv)
  let ?raw = "k @ '': '' @ v @ [CR]"
  have "LF \<notin> set ?raw" using Cons.prems(1) by (auto simp: kv wf_header_def)
  then have sl: "split_line (header_text (kv # hs) @ s) = Some (?raw, header_text hs @ s)"
    by (auto simp: split_line_Some header_text_def kv)
  let ?p1 = "p\<lparr>header_bytes := header_bytes p + length ?raw + 1\<rparr>"
  let ?p2 = "?p1\<lparr>req := (req p)\<lparr>rq_headers := rq_headers (req p) @ [(lower k, v)]\<rparr>\<rparr>"
  have len: "length (header_text (kv # hs)) = length ?raw + 1 + length (header_text hs)"
    by (simp add: header_text_def kv)
  have "header_step ?p1 ?raw = (None, ?p2)"
    using header_step_line [of k v ?p1] Cons.prems len by (simp add: kv)
  then have "headers_stream p (header_text (kv # hs) @ s) = headers_stream ?p2 (header_text hs @ s)"
    unfolding headers_stream_step [OF sl] by simp
  also have "\<dots> = headers_stream (?p2\<lparr>header_bytes := header_bytes ?p2 + length (header_text hs),
            req := (req ?p2)\<lparr>rq_headers := rq_headers (req ?p2) @ lower_keys hs\<rparr>\<rparr>) s"
    using Cons.prems len by (intro Cons.IH) simp_all
  finally show ?case by (simp add: len [unfolded kv] lower_keys_def kv add.assoc)
qed (simp add: header_text_def lower_keys_def)

lemma headers_stream_text:
  assumes "\<forall>kv \<in> set hs. wf_header kv" "header_bytes p + length (header_text hs) + 2 \<le> kMaxHeaderBytes"
  shows "headers_stream p (header_text hs @ CRLF @ rest) =
     (let (r, p2) = end_of_headers (p\<lparr>header_bytes := header_bytes p + length (header_text hs) + 2,
            req := (req p)\<lparr>rq_headers := rq_headers (req p) @ lower_keys hs\<rparr>\<rparr>)
      in (r, p2, rest))"
proof -
  have "split_line (CRLF @ rest) = Some ([CR], rest)" by (simp add: split_line_Some)
  moreover have "trim [CR] = []" using trim_append_space [of "[CR]" "[]"] by simp
  ultimately show ?thesis
    unfolding headers_stream_prefix [OF assms(1) add_leD1 [OF assms(2)]]
    using assms(2) by (cases p) (simp add: headers_stream_step header_step_def split_beta Let_def)
qed

lemma tokens_line:
  assumes "wf_token m" "wf_token t" "wf_token v"
  shows "trim (m @ '' '' @ t @ '' '' @ v @ [CR]) = m @ '' '' @ t @ '' '' @ v"
    and "tokens (m @ '' '' @ t @ '' '' @ v) = [m, t, v]"
proof -
  have "trim ((m @ '' '' @ t @ '' '' @ v) @ [CR]) = trim (m @ '' '' @ t @ '' '' @ v)"
    by (rule trim_append_space) simp
  also have "\<dots> = m @ '' '' @ t @ '' '' @ v"
    using assms by (intro trim_id) (auto simp: wf_token_def hd_append)
  finally show "trim (m @ '' '' @ t @ '' '' @ v @ [CR]) = m @ '' '' @ t @ '' '' @ v" by simp
  show "tokens (m @ '' '' @ t @ '' '' @ v) = [m, t, v]"
    using assms tokens_word [of v "[]"] by (simp add: wf_token_def tokens_word)
qed

definition request_of :: "string \<Rightarrow> string \<Rightarrow> string \<Rightarrow> (string \<times> string) list \<Rightarrow> string \<Rightarrow> http_request" where
  "request_of m t v hs body =
     \<lparr>rq_method = m, rq_target = t, rq_path = takeWhile (\<lambda>c. c \<noteq> CHR ''?'') t,
      rq_query = tl (dropWhile (\<lambda>c. c \<noteq> CHR ''?'') t), rq_version = v, rq_headers = lower_keys hs,
      rq_body = body,
      rq_keep_alive =
        (case map_of (lower_keys hs) ''connection'' of
           None \<Rightarrow> v = ''HTTP/1.1''
         | Some c \<Rightarrow> if lower (trim c) = ''close'' then False
                     else lower (trim c) = ''keep-alive'' \<or> v = ''HTTP/1.1'')\<rparr>"

lemma target_parts:
  "(case find_char (CHR ''?'') t 0 of
      None \<Rightarrow> r\<lparr>rq_path := t\<rparr> | Some q \<Rightarrow> r\<lparr>rq_path := take q t, rq_query := drop (q + 1) t\<rparr>) =
   r\<lparr>rq_path := takeWhile (\<lambda>c. c \<noteq> CHR ''?'') t,
     rq_query := (if CHR ''?'' \<in> set t then tl (dropWhile (\<lambda>c. c \<noteq> CHR ''?'') t) else rq_query r)\<rparr>"
proof (cases "find_char (CHR ''?'') t 0")
  case None
  then have "CHR ''?'' \<notin> set t" by (auto simp: find_char_0 first_index_None)
  moreover from this have "takeWhile (\<lambda>c. c \<noteq> CHR ''?'') t = t" by (auto simp: takeWhile_eq_all_conv)
  ultimately show ?thesis using None by (simp del: takeWhile_eq_all_conv)
next
  case (Some q)
  then obtain l x where "t = l @ CHR ''?'' # x" "CHR ''?'' \<notin> set l" "q = length l"
    by (auto simp: find_char_0 first_index_split)
  then show ?thesis using Some by (auto simp: takeWhile_append dropWhile_append)
qed

lemma request_line_text:
  assumes "wf_token m" "wf_token t" "v = ''HTTP/1.0'' \<or> v = ''HTTP/1.1''"
  shows "request_line p (m @ '' '' @ t @ '' '' @ v @ [CR]) =
    (Complete, p\<lparr>req := (req p)\<lparr>rq_method := m, rq_target := t, rq_version := v,
       rq_path := takeWhile (\<lambda>c. c \<noteq> CHR ''?'') t,
       rq_query := (if CHR ''?'' \<in> set t then tl (dropWhile (\<lambda>c. c \<noteq> CHR ''?'') t) else rq_query (req p)),
       rq_keep_alive := (v = ''HTTP/1.1'')\<rparr>\<rparr>)"
proof -
  have v: "wf_token v" using assms(3) by (auto simp: wf_token_def isspace_def)
  have "starts_with v ''HTTP/'' \<and> (drop 5 v = ''1.0'' \<or> drop 5 v = ''1.1'')"
    using assms(3) by auto
  then show ?thesis
    using tokens_line [OF assms(1,2) v] assms(1)
    by (elim conjE disjE) (simp_all add: request_line_def Let_def target_parts wf_token_def)
qed

definition wf_body :: "(string \<times> string) list \<Rightarrow> string \<Rightarrow> bool" where
  "wf_body hs body \<longleftrightarrow> length body \<le> kMaxBodyBytes \<and>
     map_of (lower_keys hs) ''transfer-encoding'' = None \<and>
     (map_of (lower_keys hs) ''content-length'' = Some (show_nat (length body)) \<or>
      map_of (lower_keys hs) ''content-length'' = None \<and> body = [])"

lemma end_of_headers_text:
  assumes "wf_body hs body" "rq_headers (req p) = lower_keys hs" "content_length p = 0"
  shows "end_of_headers p = (Complete, p\<lparr>content_length := length body,
      req := (req p)\<lparr>rq_keep_alive := wants_keep_alive (req p)\<rparr>\<rparr>)"
proof -
  have "int (length body) < 2 ^ 63" using assms(1) by (simp add: wf_body_def kMaxBodyBytes_def)
  then show ?thesis
    using assms strtol10_show_nat [of "length body"]
    by (auto simp: end_of_headers_def chunked_body_def declared_length_def findHeader_def
        find_in_headers_map_of wf_body_def)
qed

lemma no_query: "CHR ''?'' \<notin> set t \<Longrightarrow> tl (dropWhile (\<lambda>c. c \<noteq> CHR ''?'') t) = []"
  by (induction t) auto

text \<open>The parser after the request line, and after the headers, of such a request.\<close>

definition after_line :: "string \<Rightarrow> string \<Rightarrow> string \<Rightarrow> parser" where
  "after_line m t v =
     \<lparr>state = Headers, req = request_of m t v [] [], content_length = 0,
      header_bytes = length (m @ '' '' @ t @ '' '' @ v @ CRLF)\<rparr>"

lemma line_stream_text:
  assumes "wf_token m" "wf_token t" "v = ''HTTP/1.0'' \<or> v = ''HTTP/1.1''"
  shows "line_stream new_HttpParser (m @ '' '' @ t @ '' '' @ v @ CRLF @ s) =
    (Complete, (after_line m t v)\<lparr>state := RequestLine\<rparr>, s)"
proof -
  let ?line = "m @ '' '' @ t @ '' '' @ v @ [CR]"
  have "LF \<notin> set ?line" using assms by (auto simp: wf_token_def)
  then have "split_line (m @ '' '' @ t @ '' '' @ v @ CRLF @ s) = Some (?line, s)"
    by (auto simp: split_line_Some)
  then show ?thesis
    using no_query [of t]
    by (simp add: line_stream_def request_line_text [OF assms, simplified] new_HttpParser_def
        after_line_def request_of_def new_HttpRequest_def lower_keys_def)
qed

lemma headers_stream_request:
  assumes "\<forall>kv \<in> set hs. wf_header kv" "wf_body hs body" "length (head_text m t v hs) \<le> kMaxHeaderBytes"
  shows "headers_stream (after_line m t v) (header_text hs @ CRLF @ body @ rest) =
    (Complete, \<lparr>state = Headers, req = request_of m t v hs [], content_length = length body,
                header_bytes = length (head_text m t v hs)\<rparr>, body @ rest)"
proof -
  let ?p = "after_line m t v"
  let ?p2 = "?p\<lparr>header_bytes := header_bytes ?p + length (header_text hs) + 2,
            req := (req ?p)\<lparr>rq_headers := rq_headers (req ?p) @ lower_keys hs\<rparr>\<rparr>"
  have len: "header_bytes ?p + length (header_text hs) + 2 = length (head_text m t v hs)"
    by (simp add: head_text_def after_line_def)
  have hs: "rq_headers (req ?p) = []" by (simp add: after_line_def request_of_def lower_keys_def)
  have ka: "wants_keep_alive (req ?p2) = rq_keep_alive (request_of m t v hs [])"
    by (auto simp: wants_keep_alive_def hs findHeader_def find_in_headers_map_of Let_def
        split: option.split) (auto simp: after_line_def request_of_def lower_keys_def)
  have "headers_stream ?p (header_text hs @ CRLF @ body @ rest) =
      (let (r, p2) = end_of_headers ?p2 in (r, p2, body @ rest))"
    using assms(1,3) len by (intro headers_stream_text) simp_all
  also have "\<dots> = (Complete, ?p2\<lparr>content_length := length body,
      req := (req ?p2)\<lparr>rq_keep_alive := wants_keep_alive (req ?p2)\<rparr>\<rparr>, body @ rest)"
    using end_of_headers_text [OF assms(2), of ?p2] hs by (simp add: after_line_def)
  finally show ?thesis
    unfolding len using ka by (simp add: after_line_def request_of_def lower_keys_def)
qed

lemma parse_stream_text:
  assumes "wf_token m" "wf_token t" "v = ''HTTP/1.0'' \<or> v = ''HTTP/1.1''"
    and "\<forall>kv \<in> set hs. wf_header kv" "wf_body hs body" "length (head_text m t v hs) \<le> kMaxHeaderBytes"
  shows "parse_stream new_HttpParser (head_text m t v hs @ body @ rest) =
    (Complete, \<lparr>state = Done, req = request_of m t v hs body, content_length = length body,
                header_bytes = length (head_text m t v hs)\<rparr>, rest)"
proof -
  have 1: "state new_HttpParser = RequestLine" by (simp add: new_HttpParser_def)
  have 2: "state (after_line m t v) = Headers" by (simp add: after_line_def)
  have "parse_stream new_HttpParser (head_text m t v hs @ body @ rest) =
      parse_stream (after_line m t v) (header_text hs @ CRLF @ body @ rest)"
    using line_stream_text [OF assms(1-3), of "header_text hs @ CRLF @ body @ rest"]
    by (simp add: parse_stream_unfold(1) [OF 1] head_text_def) (simp add: after_line_def)
  then show ?thesis
    unfolding parse_stream_unfold(2) [OF 2] headers_stream_request [OF assms(4-6)]
    by (simp add: parse_stream_unfold body_stream_def request_of_def)
qed

section \<open>What a waiting or finished parser holds\<close>

definition head_ok :: "http_request \<Rightarrow> bool" where
  "head_ok rq \<longleftrightarrow> rq_method rq \<noteq> [] \<and> rq_target rq \<noteq> [] \<and> rq_body rq = [] \<and>
     (rq_version rq = ''HTTP/1.0'' \<or> rq_version rq = ''HTTP/1.1'')"

definition parser_ok :: "parser \<Rightarrow> bool" where
  "parser_ok p \<longleftrightarrow>
     (case state p of
        RequestLine \<Rightarrow> req p = new_HttpRequest \<and> content_length p = 0
      | Headers \<Rightarrow> head_ok (req p) \<and> content_length p = 0
      | Body \<Rightarrow> head_ok (req p) \<and> content_length p \<le> kMaxBodyBytes \<and> header_bytes p \<le> kMaxHeaderBytes
      | Done \<Rightarrow> head_ok ((req p)\<lparr>rq_body := []\<rparr>) \<and> length (rq_body (req p)) = content_length p \<and>
                content_length p \<le> kMaxBodyBytes \<and> header_bytes p \<le> kMaxHeaderBytes)"

lemma prefix_HTTP: "prefix ''HTTP/'' v \<Longrightarrow> drop 5 v = x \<Longrightarrow> v = ''HTTP/'' @ x"
  by (auto simp: prefix_def)

lemma request_line_Complete:
  assumes "request_line p l = (Complete, p')" "req p = new_HttpRequest"
  shows "head_ok (req p')" "content_length p' = content_length p"
proof -
  from assms(1) obtain m t v ws where tk: "tokens (trim l) = m # t # v # ws"
    and v: "prefix ''HTTP/'' v" "drop 5 v = ''1.0'' \<or> drop 5 v = ''1.1''"
    and p': "p' = p\<lparr>req := (req p)\<lparr>rq_method := m, rq_target := t, rq_version := v,
       rq_path := takeWhile (\<lambda>c. c \<noteq> CHR ''?'') t,
       rq_query := (if CHR ''?'' \<in> set t then tl (dropWhile (\<lambda>c. c \<noteq> CHR ''?'') t) else rq_query (req p)),
       rq_keep_alive := (v = ''HTTP/1.1'')\<rparr>\<rparr>"
    by (auto simp: request_line_def Let_def http_err_def target_parts simp del: One_nat_def
        split: if_splits list.splits)
  have "m \<noteq> [] \<and> t \<noteq> []" using tokens_wf [of m "trim l"] tokens_wf [of t "trim l"] tk by simp
  then show "head_ok (req p')" "content_length p' = content_length p"
    using v prefix_HTTP [OF v(1)] p' assms(2) by (auto simp: head_ok_def new_HttpRequest_def)
qed

lemma line_stream_Complete:
  assumes "line_stream p s = (Complete, p1, s1)" "req p = new_HttpRequest" "content_length p = 0"
  shows "head_ok (req p1) \<and> content_length p1 = 0"
proof -
  obtain l where "request_line (p\<lparr>header_bytes := header_bytes p + length l + 1\<rparr>) l = (Complete, p1)"
    using assms(1) by (auto simp: line_stream_def Let_def split_beta http_err_def prod_eq_iff
        split: option.splits if_splits)
  from request_line_Complete [OF this] assms(2,3) show ?thesis by simp
qed

lemma header_step_None:
  "header_step p l = (None, p') \<Longrightarrow> head_ok (req p) \<Longrightarrow>
   head_ok (req p') \<and> content_length p' = content_length p"
  by (auto simp: header_step_def Let_def head_ok_def map_prod_eq_Pair split: if_splits option.splits)

lemma header_step_Complete:
  assumes "header_step p l = (Some Complete, p')" "head_ok (req p)" "content_length p = 0"
  shows "head_ok (req p') \<and> content_length p' \<le> kMaxBodyBytes \<and> header_bytes p' \<le> kMaxHeaderBytes"
proof -
  from assms(1) have "header_bytes p \<le> kMaxHeaderBytes" "end_of_headers p = (Complete, p')"
    by (auto simp: header_step_def Let_def http_err_def map_prod_eq_Pair prod_eq_iff
        split: if_splits option.splits)
  with assms(2,3) show ?thesis
    by (auto simp: end_of_headers_def declared_length_def head_ok_def http_err_def
        split: if_splits sum.splits option.splits)
qed

lemma headers_stream_ok:
  "\<lbrakk>headers_stream p s = (r, p', s'); head_ok (req p); content_length p = 0\<rbrakk> \<Longrightarrow>
   (r = NeedMore \<longrightarrow> head_ok (req p') \<and> content_length p' = 0 \<and> length s' \<le> kMaxHeaderBytes) \<and>
   (r = Complete \<longrightarrow> head_ok (req p') \<and> content_length p' \<le> kMaxBodyBytes \<and> header_bytes p' \<le> kMaxHeaderBytes)"
proof (induction p s rule: headers_stream.induct)
  case (1 p s)
  show ?case
  proof (cases "split_line s")
    case None
    with "1.prems" show ?thesis by (auto simp: headers_stream_wait http_err_def split: if_splits)
  next
    case (Some a)
    then obtain raw s1 where sl: "split_line s = Some (raw, s1)" by (cases a) auto
    let ?p1 = "p\<lparr>header_bytes := header_bytes p + length raw + 1\<rparr>"
    obtain x p2 where step: "header_step ?p1 raw = (x, p2)" by fastforce
    show ?thesis
    proof (cases x)
      case None
      with step "1.prems" header_step_None [of ?p1 raw p2] 1(1) [OF sl refl step [symmetric] None] sl
      show ?thesis by (simp add: headers_stream_step)
    next
      case (Some r')
      with sl step "1.prems"(1) have "r' = r" "p2 = p'" by (simp_all add: headers_stream_step)
      with Some step "1.prems" header_step_Complete [of ?p1 raw p'] headers_never_wait_after_line [of ?p1 raw r p']
      show ?thesis by auto
    qed
  qed
qed

lemma parse_stream_ok:
  "\<lbrakk>parse_stream p s = (r, p', s'); parser_ok p\<rbrakk> \<Longrightarrow>
   (r = NeedMore \<longrightarrow> parser_ok p' \<and> length s' \<le> 8192) \<and> (r = Complete \<longrightarrow> parser_ok p' \<and> state p' = Done)"
proof (induction p s rule: parse_stream.induct)
  case (1 p s)
  show ?case
  proof (cases "state p")
    case RequestLine
    show ?thesis
    proof (rule dispatch_result [OF "1.prems"(1) [unfolded parse_stream_unfold(1) [OF RequestLine]]])
      assume L: "line_stream p s = (r, p', s')" and "r \<noteq> Complete"
      then show ?thesis
        using line_stream_wait [of p s p' s'] split_line_None [of s] "1.prems"(2) RequestLine
        by (auto simp: line_stream_def Let_def http_err_def kMaxHeaderBytes_def parser_ok_def split: if_splits)
    next
      fix p1 s1 assume L: "line_stream p s = (Complete, p1, s1)" and rest: "parse_stream (p1\<lparr>state := Headers\<rparr>) s1 = (r, p', s')"
      have "parser_ok (p1\<lparr>state := Headers\<rparr>)"
        using line_stream_Complete [OF L] "1.prems"(2) RequestLine by (simp add: parser_ok_def)
      with "1.IH"(1) [OF RequestLine L [symmetric] refl refl rest] show ?thesis .
    qed
  next
    case Headers
    note ok = headers_stream_ok "1.prems"(2) [unfolded parser_ok_def Headers parser_state.case]
    show ?thesis
    proof (rule dispatch_result [OF "1.prems"(1) [unfolded parse_stream_unfold(2) [OF Headers]]])
      assume "headers_stream p s = (r, p', s')" "r \<noteq> Complete"
      then show ?thesis
        using ok(1) [of p s r p' s'] ok(2-) headers_stream_state [of p s] Headers
        by (auto simp: parser_ok_def kMaxHeaderBytes_def kMaxBodyBytes_def)
    next
      fix p1 s1 assume L: "headers_stream p s = (Complete, p1, s1)"
        and rest: "parse_stream (p1\<lparr>state := (if content_length p1 = 0 then Done else Body)\<rparr>) s1 = (r, p', s')"
      have "parser_ok (p1\<lparr>state := (if content_length p1 = 0 then Done else Body)\<rparr>)"
        using ok(1) [OF L] ok(2-) by (simp add: parser_ok_def head_ok_def)
      with "1.IH"(2) [OF Headers L [symmetric] refl refl rest] show ?thesis .
    qed
  next
    case Body
    with "1.prems" show ?thesis
      by (auto simp: parse_stream_unfold body_stream_def parser_ok_def kMaxBodyBytes_def head_ok_def
          split: if_splits)
  next
    case Done
    with "1.prems" show ?thesis by (simp add: parse_stream_unfold)
  qed
qed

lemma parser_ok_new [simp]: "parser_ok new_HttpParser"
  by (simp add: parser_ok_def new_HttpParser_def)

lemma feed_stream_ok:
  "\<lbrakk>feed_stream p s cs = (r, p', s'); parser_ok p; length s \<le> 8192\<rbrakk> \<Longrightarrow>
   (r = NeedMore \<longrightarrow> parser_ok p' \<and> length s' \<le> 8192) \<and> (r = Complete \<longrightarrow> parser_ok p' \<and> state p' = Done)"
proof (induction cs arbitrary: p s)
  case (Cons c cs)
  obtain x p1 s1 where P: "parse_stream p (s @ c) = (x, p1, s1)" by (cases "parse_stream p (s @ c)")
  note ok = parse_stream_ok [OF P Cons.prems(2)]
  show ?case
  proof (cases x)
    case NeedMore
    with P Cons.prems(1) have "feed_stream p1 s1 cs = (r, p', s')" by simp
    with NeedMore ok show ?thesis using Cons.IH [of p1 s1] by simp
  qed (use P Cons.prems(1) ok in auto)
qed simp

lemma counter_ok_new [simp]: "counter_ok new_HttpParser []"
  by (simp add: counter_ok_def new_HttpParser_def)

lemma parse_stream_partial_header:
  assumes "state p = Headers" "LF \<notin> set s"
  shows "parse_stream p s =
    (if header_bytes p + length s > kMaxHeaderBytes
     then (http_err 431 ''headers_too_large'' msg_headers_too_large,
           p\<lparr>header_bytes := header_bytes p + length s\<rparr>, s)
     else (NeedMore, p\<lparr>header_bytes := header_bytes p + length s\<rparr>, s))"
  using assms split_line_None [of s]
  by (simp add: parse_stream_unfold headers_stream_wait http_err_def)

lemma parse_stream_line:
  assumes "wf_token m" "wf_token t" "v = ''HTTP/1.0'' \<or> v = ''HTTP/1.1''"
  shows "parse_stream new_HttpParser (m @ '' '' @ t @ '' '' @ v @ CRLF @ s) = parse_stream (after_line m t v) s"
proof -
  have "state new_HttpParser = RequestLine" by (simp add: new_HttpParser_def)
  then show ?thesis
    by (simp only: parse_stream_unfold line_stream_text [OF assms] prod.case parse_result.case)
      (simp add: after_line_def)
qed

lemma fst_view3: "fst (view3 x) = fst x"
  by (cases x) auto

lemma parse_new_buffer:
  "fst (parse p (buf_append s (new_Buffer n))) = fst (parse_stream p s)"
proof -
  have "view3 (parse p (buf_append s (new_Buffer n))) = parse_stream p s"
    using parse_refines_aux [of "buf_append s (new_Buffer n)" p] by (simp add: inv_intros abs_simps)
  then show ?thesis by (metis fst_view3)
qed

lemma feed_new_buffer:
  "fst (feed p (new_Buffer n) cs) = fst (feed_stream p [] cs)"
  using feed_refines [of "new_Buffer n" p cs] by (metis buf_ok_new contents_new fst_view3)

lemma reset_new: "reset p = new_HttpParser"
  by (simp add: reset_def new_HttpParser_def)

lemma end_of_headers_rejects:
  assumes "rq_headers (req p) = lower_keys hs"
  shows "map_of (lower_keys hs) ''transfer-encoding'' = Some te \<Longrightarrow> sublist ''chunked'' (lower te) \<Longrightarrow>
      end_of_headers p = (http_err 501 ''unsupported_transfer_encoding'' msg_chunked, p)"
    and "map_of (lower_keys hs) ''transfer-encoding'' = None \<Longrightarrow>
      map_of (lower_keys hs) ''content-length'' = Some cl \<Longrightarrow> strtol10 cl = Some v \<Longrightarrow> v > int kMaxBodyBytes \<Longrightarrow>
      end_of_headers p = (http_err 413 ''payload_too_large'' msg_body_too_large, p)"
    and "map_of (lower_keys hs) ''transfer-encoding'' = None \<Longrightarrow>
      map_of (lower_keys hs) ''content-length'' = Some cl \<Longrightarrow>
      (case strtol10 cl of None \<Rightarrow> True | Some v \<Rightarrow> v < 0) \<Longrightarrow>
      end_of_headers p = (http_err 400 ''bad_request'' msg_content_length, p)"
  using assms find_sub_None [of "''chunked''" "lower te"]
  by (auto simp: end_of_headers_def chunked_body_def declared_length_def findHeader_def
      find_in_headers_map_of split: option.splits)

lemma parse_stream_bad_headers:
  assumes "wf_token m" "wf_token t" "v = ''HTTP/1.0'' \<or> v = ''HTTP/1.1''"
    and "\<forall>kv \<in> set hs. wf_header kv" "length (head_text m t v hs) \<le> kMaxHeaderBytes"
    and "\<And>p. rq_headers (req p) = lower_keys hs \<Longrightarrow> end_of_headers p = (Error e, p)"
  shows "fst (parse_stream new_HttpParser (head_text m t v hs @ rest)) = Error e"
proof -
  let ?p = "after_line m t v"
  have st: "state ?p = Headers" by (simp add: after_line_def)
  have "head_text m t v hs @ rest = m @ '' '' @ t @ '' '' @ v @ CRLF @ (header_text hs @ CRLF @ rest)"
    by (simp add: head_text_def)
  then have a: "parse_stream new_HttpParser (head_text m t v hs @ rest) = parse_stream ?p (header_text hs @ CRLF @ rest)"
    by (simp only: parse_stream_line [OF assms(1-3)])
  let ?p2 = "?p\<lparr>header_bytes := header_bytes ?p + length (header_text hs) + 2,
            req := (req ?p)\<lparr>rq_headers := rq_headers (req ?p) @ lower_keys hs\<rparr>\<rparr>"
  have "headers_stream ?p (header_text hs @ CRLF @ rest) = (let (r, p2) = end_of_headers ?p2 in (r, p2, rest))"
    using assms(4,5) by (intro headers_stream_text) (simp_all add: head_text_def after_line_def)
  moreover have "end_of_headers ?p2 = (Error e, ?p2)"
    by (rule assms(6)) (simp add: after_line_def request_of_def lower_keys_def)
  ultimately have "headers_stream ?p (header_text hs @ CRLF @ rest) = (Error e, ?p2, rest)" by simp
  then show ?thesis unfolding a by (simp only: parse_stream_unfold(2) [OF st]) simp
qed

text \<open>The bytes of the head that the request keeps; each of them was counted.\<close>

definition held :: "http_request \<Rightarrow> nat" where
  "held rq = length (rq_method rq) + length (rq_target rq) + length (rq_version rq) +
     sum_list (map (\<lambda>kv. length (fst kv) + length (snd kv)) (rq_headers rq))"

lemma held_new [simp]: "held new_HttpRequest = 0"
  by (simp add: held_def new_HttpRequest_def)

lemma trim_shorter: "length (trim s) \<le> length s"
  using length_dropWhile_le [of isspace "rev (dropWhile isspace s)"] length_dropWhile_le [of isspace s]
  by (simp add: trim_dropWhile)

lemma tokens_length: "sum_list (map length (tokens s)) \<le> length s"
proof (induction s rule: tokens.induct)
  case (1 s)
  let ?t = "dropWhile isspace s"
  show ?case
  proof (cases "?t = []")
    case False
    have "length (takeWhile (\<lambda>c. \<not> isspace c) ?t) + length (dropWhile (\<lambda>c. \<not> isspace c) ?t) = length ?t"
      by (metis length_append takeWhile_dropWhile_id)
    with "1.IH" [OF refl False] False length_dropWhile_le [of isspace s] show ?thesis
      by (subst tokens.simps) (simp add: Let_def del: dropWhile_eq_Nil_conv)
  qed (subst tokens.simps, simp)
qed

lemma request_line_held:
  assumes "req p = new_HttpRequest" "length l \<le> header_bytes p"
  shows "held (req (snd (request_line p l))) \<le> header_bytes p"
proof -
  have "length m + length t + length v \<le> length (trim l)" if "tokens (trim l) = m # t # v # ws" for m t v ws
    using tokens_length [of "trim l"] that by simp
  with trim_shorter [of l] assms show ?thesis
    by (auto simp: request_line_def Let_def held_def new_HttpRequest_def split: list.splits option.splits)
qed

lemma held_add: "held (rq\<lparr>rq_headers := rq_headers rq @ [(k, v)]\<rparr>) = held rq + (length k + length v)"
  by (simp add: held_def)

lemma header_step_held:
  assumes "held (req p) + length raw \<le> header_bytes p"
  shows "held (req (snd (header_step p raw))) \<le> header_bytes p"
proof -
  have e: "held (req (snd (end_of_headers p))) = held (req p)"
    by (simp add: end_of_headers_def held_def split: sum.split)
  have "length (trim (take c (trim raw))) + length (trim (drop (c + 1) (trim raw))) \<le> length raw" for c
    using trim_shorter [of "take c (trim raw)"] trim_shorter [of "drop (c + 1) (trim raw)"] trim_shorter [of raw]
    by simp arith
  then have "held (req p) + (length (trim (take c (trim raw))) + length (trim (drop (c + 1) (trim raw)))) \<le> header_bytes p" for c
    using assms by (meson add_left_mono le_trans)
  then show ?thesis
    using assms by (auto simp: header_step_def Let_def e held_add lower_def split: option.splits)
qed

lemma headers_stream_held:
  "\<lbrakk>headers_stream p s = (r, p', s'); held (req p) \<le> header_bytes p\<rbrakk> \<Longrightarrow>
   held (req p') \<le> header_bytes p' \<and> (r = NeedMore \<longrightarrow> header_bytes p' \<le> kMaxHeaderBytes)"
proof (induction p s rule: headers_stream.induct)
  case (1 p s)
  show ?case
  proof (cases "split_line s")
    case None
    with "1.prems" show ?thesis by (auto simp: headers_stream_wait http_err_def split: if_splits)
  next
    case (Some a)
    then obtain raw s1 where sl: "split_line s = Some (raw, s1)" by (cases a) auto
    let ?p1 = "p\<lparr>header_bytes := header_bytes p + length raw + 1\<rparr>"
    obtain x p2 where step: "header_step ?p1 raw = (x, p2)" by fastforce
    have h: "held (req p2) \<le> header_bytes p2"
      using header_step_held [of ?p1 raw] header_step_keeps [of ?p1 raw] step "1.prems"(2) by simp
    show ?thesis
    proof (cases x)
      case None
      with step "1.prems"(1) sl have "headers_stream p2 s1 = (r, p', s')" by (simp add: headers_stream_step)
      from 1(1) [OF sl refl step [symmetric] None this h] show ?thesis .
    next
      case (Some r')
      with sl step "1.prems"(1) have "r' = r" "p2 = p'" by (simp_all add: headers_stream_step)
      with Some step h headers_never_wait_after_line [of ?p1 raw r p'] show ?thesis by auto
    qed
  qed
qed

lemma line_stream_held:
  assumes "line_stream p s = (r, p', s')" "req p = new_HttpRequest"
  shows "held (req p') \<le> header_bytes p'" "r = NeedMore \<longrightarrow> header_bytes p' \<le> kMaxHeaderBytes"
proof -
  let ?p = "\<lambda>l. p\<lparr>header_bytes := header_bytes p + length l + 1\<rparr>"
  have "held (req (snd (request_line (?p l) l))) \<le> header_bytes (snd (request_line (?p l) l))" for l :: string
    using assms(2) request_line_held [of "?p l" l] request_line_keeps [of "?p l" l] by simp
  then show "held (req p') \<le> header_bytes p'" "r = NeedMore \<longrightarrow> header_bytes p' \<le> kMaxHeaderBytes"
    using assms request_line_never_waits
    by (auto simp: line_stream_def Let_def http_err_def split_beta split: option.splits if_splits)
qed

lemma parse_stream_held:
  "\<lbrakk>parse_stream p s = (r, p', s'); parser_ok p; held (req p) \<le> header_bytes p\<rbrakk> \<Longrightarrow>
   held (req p') \<le> header_bytes p' \<and> (r = NeedMore \<longrightarrow> header_bytes p' \<le> kMaxHeaderBytes)"
proof (induction p s rule: parse_stream.induct)
  case (1 p s)
  show ?case
  proof (cases "state p")
    case RequestLine
    have new: "req p = new_HttpRequest" using "1.prems"(2) RequestLine by (simp add: parser_ok_def)
    show ?thesis
    proof (rule dispatch_result [OF "1.prems"(1) [unfolded parse_stream_unfold(1) [OF RequestLine]]])
      assume "line_stream p s = (r, p', s')"
      from line_stream_held [OF this new] show ?thesis by simp
    next
      fix p1 s1 assume L: "line_stream p s = (Complete, p1, s1)" and rest: "parse_stream (p1\<lparr>state := Headers\<rparr>) s1 = (r, p', s')"
      have "parser_ok (p1\<lparr>state := Headers\<rparr>)"
        using line_stream_Complete [OF L] "1.prems"(2) RequestLine by (simp add: parser_ok_def)
      with "1.IH"(1) [OF RequestLine L [symmetric] refl refl rest] line_stream_held(1) [OF L new] show ?thesis by simp
    qed
  next
    case Headers
    note ok = headers_stream_ok "1.prems"(2) [unfolded parser_ok_def Headers parser_state.case]
    show ?thesis
    proof (rule dispatch_result [OF "1.prems"(1) [unfolded parse_stream_unfold(2) [OF Headers]]])
      assume "headers_stream p s = (r, p', s')"
      from headers_stream_held [OF this "1.prems"(3)] show ?thesis .
    next
      fix p1 s1 assume L: "headers_stream p s = (Complete, p1, s1)"
        and rest: "parse_stream (p1\<lparr>state := (if content_length p1 = 0 then Done else Body)\<rparr>) s1 = (r, p', s')"
      have "parser_ok (p1\<lparr>state := (if content_length p1 = 0 then Done else Body)\<rparr>)"
        using ok(1) [OF L] ok(2-) by (simp add: parser_ok_def head_ok_def)
      with "1.IH"(2) [OF Headers L [symmetric] refl refl rest] headers_stream_held [OF L "1.prems"(3)] show ?thesis by simp
    qed
  next
    case Body
    with "1.prems" show ?thesis
      by (auto simp: parse_stream_unfold body_stream_def parser_ok_def held_def split: if_splits)
  next
    case Done
    with "1.prems" show ?thesis by (simp add: parse_stream_unfold)
  qed
qed

lemma feed_stream_held:
  "\<lbrakk>feed_stream p s cs = (r, p', s'); parser_ok p; held (req p) \<le> header_bytes p; header_bytes p \<le> kMaxHeaderBytes\<rbrakk> \<Longrightarrow>
   held (req p') \<le> header_bytes p' \<and> (r = NeedMore \<longrightarrow> header_bytes p' \<le> kMaxHeaderBytes)"
proof (induction cs arbitrary: p s)
  case (Cons c cs)
  obtain x p1 s1 where P: "parse_stream p (s @ c) = (x, p1, s1)" by (cases "parse_stream p (s @ c)")
  note h = parse_stream_held [OF P Cons.prems(2,3)] and ok = parse_stream_ok [OF P Cons.prems(2)]
  show ?case
  proof (cases x)
    case NeedMore
    with P Cons.prems(1) have "feed_stream p1 s1 cs = (r, p', s')" by simp
    with NeedMore h ok show ?thesis using Cons.IH [of p1 s1] by simp
  qed (use P Cons.prems(1) h in auto)
qed simp

lemma parse_stream_no_colon:
  assumes "wf_token m" "wf_token t" "v = ''HTTP/1.0'' \<or> v = ''HTTP/1.1''" "\<forall>kv \<in> set hs. wf_header kv"
    and "length (head_text m t v hs) + length l \<le> kMaxHeaderBytes" "LF \<notin> set l" "CHR '':'' \<notin> set l" "trim l \<noteq> []"
  shows "fst (parse_stream new_HttpParser (m @ '' '' @ t @ '' '' @ v @ CRLF @ header_text hs @ l @ LF # rest)) =
    http_err 400 ''bad_request'' msg_no_colon"
proof -
  let ?p = "after_line m t v"
  let ?p1 = "?p\<lparr>header_bytes := header_bytes ?p + length (header_text hs), req := (req ?p)\<lparr>rq_headers := rq_headers (req ?p) @ lower_keys hs\<rparr>\<rparr>"
  let ?p2 = "?p1\<lparr>header_bytes := header_bytes ?p1 + length l + 1\<rparr>"
  have st: "state ?p = Headers" by (simp add: after_line_def)
  have len: "header_bytes ?p + length (header_text hs) \<le> kMaxHeaderBytes" "header_bytes ?p2 \<le> kMaxHeaderBytes"
    using assms(5) by (simp_all add: after_line_def head_text_def)
  have "set (trim l) \<subseteq> set l" by (auto simp: trim_dropWhile dest!: set_dropWhileD)
  then have "find_char (CHR '':'') (trim l) 0 = None" using assms(7) by (auto simp: find_char_0 first_index_None)
  then have "header_step ?p2 l = (Some (http_err 400 ''bad_request'' msg_no_colon), ?p2)"
    using len(2) assms(8) by (simp add: header_step_def Let_def)
  moreover have "split_line (l @ LF # rest) = Some (l, rest)" using assms(6) by (simp add: split_line_Some)
  ultimately have "headers_stream ?p1 (l @ LF # rest) = (http_err 400 ''bad_request'' msg_no_colon, ?p2, rest)"
    by (simp add: headers_stream_step)
  then have "headers_stream ?p (header_text hs @ l @ LF # rest) = (http_err 400 ''bad_request'' msg_no_colon, ?p2, rest)"
    using headers_stream_prefix [OF assms(4) len(1)] by simp
  then show ?thesis
    by (simp only: parse_stream_line [OF assms(1-3)] parse_stream_unfold(2) [OF st]) (simp add: http_err_def)
qed

lemma rejected_by_fields:
  assumes "wf_token m" "wf_token t" "v = ''HTTP/1.0'' \<or> v = ''HTTP/1.1''"
    and "\<forall>kv \<in> set hs. wf_header kv" "length (head_text m t v hs) \<le> kMaxHeaderBytes"
  shows "(case map_of (lower_keys hs) ''transfer-encoding'' of
       Some te \<Rightarrow> sublist ''chunked'' (lower te) \<longrightarrow>
         fst (parse new_HttpParser (buf_append (head_text m t v hs @ rest) (new_Buffer n)))
           = http_err 501 ''unsupported_transfer_encoding'' msg_chunked
     | None \<Rightarrow>
         (\<forall>cl. map_of (lower_keys hs) ''content-length'' = Some cl \<longrightarrow>
           (case strtol10 cl of None \<Rightarrow> True | Some x \<Rightarrow> x < 0 \<or> x > 8192) \<longrightarrow>
           fst (parse new_HttpParser (buf_append (head_text m t v hs @ rest) (new_Buffer n))) =
             (if (case strtol10 cl of None \<Rightarrow> True | Some x \<Rightarrow> x < 0)
              then http_err 400 ''bad_request'' msg_content_length
              else http_err 413 ''payload_too_large'' msg_body_too_large)))"
proof -
  note bad = parse_stream_bad_headers [OF assms, of _ rest] and rej = end_of_headers_rejects
  show ?thesis
  proof (cases "map_of (lower_keys hs) ''transfer-encoding''")
    case (Some te)
    with rej(1) [of _ hs te] show ?thesis
      by (simp add: parse_new_buffer) (auto simp: http_err_def intro!: bad)
  next
    case None
    have "fst (parse_stream new_HttpParser (head_text m t v hs @ rest)) =
             (if (case strtol10 cl of None \<Rightarrow> True | Some x \<Rightarrow> x < 0)
              then http_err 400 ''bad_request'' msg_content_length
              else http_err 413 ''payload_too_large'' msg_body_too_large)"
      if "map_of (lower_keys hs) ''content-length'' = Some cl"
        "case strtol10 cl of None \<Rightarrow> True | Some x \<Rightarrow> x < 0 \<or> x > 8192" for cl
      using that rej(2) [of _ hs cl] rej(3) [of _ hs cl] None
      by (auto simp: http_err_def kMaxBodyBytes_def intro!: bad split: option.splits)
    with None show ?thesis by (simp add: parse_new_buffer)
  qed
qed

section \<open>Properties\<close>

text \<open>
  C19: \<open>HttpParser::parse\<close> on a well-formed buffer computes exactly the stream machine
  on the readable bytes: same result, same parser, and the bytes left in the buffer are the
  ones the stream machine leaves; the buffer stays well-formed.
\<close>

theorem parse_refines_stream:
  assumes "buf_ok b"
  shows "buf_ok (snd (snd (parse p b))) \<and> view3 (parse p b) = parse_stream p (contents b)"
  using assms by (rule parse_refines_aux)

theorem parse_refines_stream_witness:
  "buf_ok (new_Buffer 0) \<and> view3 (parse new_HttpParser (new_Buffer 0)) = (NeedMore, new_HttpParser, [])"
  using parse_refines_stream [OF buf_ok_new, of new_HttpParser 0]
  by (simp add: parse_stream_unfold line_stream_def split_line_def new_HttpParser_def kMaxHeaderBytes_def)

text \<open>
  C3: Half packets and glued packets. However the bytes of the connection are cut into
  reads, the incremental parser ends with the result, the request and the leftover bytes
  that it would have for the whole input in one read, unless it rejects the request with
  status 431.
\<close>

theorem parse_chunking:
  assumes "cs \<noteq> []" "\<not> too_large (fst (feed new_HttpParser (new_Buffer n) cs))"
  shows "case feed new_HttpParser (new_Buffer n) cs of (r, p, b) \<Rightarrow>
     (case parse new_HttpParser (buf_append (concat cs) (new_Buffer n)) of (r', p', b') \<Rightarrow>
        r = r' \<and> req p = req p' \<and> state p = state p' \<and> content_length p = content_length p' \<and>
        contents b = contents b')"
proof -
  obtain r p b where F: "feed new_HttpParser (new_Buffer n) cs = (r, p, b)"
    by (cases "feed new_HttpParser (new_Buffer n) cs")
  obtain r' p' b' where P: "parse new_HttpParser (buf_append (concat cs) (new_Buffer n)) = (r', p', b')"
    by (cases "parse new_HttpParser (buf_append (concat cs) (new_Buffer n))")
  have F': "feed_stream new_HttpParser [] cs = (r, p, contents b)"
    using feed_refines [of "new_Buffer n" new_HttpParser cs] F by simp
  have P': "parse_stream new_HttpParser (concat cs) = (r', p', contents b')"
    using parse_refines_aux [of "buf_append (concat cs) (new_Buffer n)" new_HttpParser] P
    by (simp add: inv_intros abs_simps)
  have "agree (parse_stream new_HttpParser ([] @ concat cs)) (feed_stream new_HttpParser [] cs)"
    using assms by (intro feed_stream_agree) (simp_all add: feed_new_buffer)
  then show ?thesis
    using F P F' P' by (auto simp: agree_def dest: ahead_state)
qed

theorem parse_chunking_witness:
  "case feed new_HttpParser (new_Buffer 0) [''GE'', ''T''] of (r, p, b) \<Rightarrow>
     (case parse new_HttpParser (buf_append ''GET'' (new_Buffer 0)) of (r', p', b') \<Rightarrow>
        r = r' \<and> contents b = contents b')"
proof -
  have "fst (feed new_HttpParser (new_Buffer 0) [''GE'', ''T'']) = NeedMore"
    unfolding feed_new_buffer
    by (simp add: parse_stream_unfold line_stream_def split_line_def new_HttpParser_def
        kMaxHeaderBytes_def)
  then have "\<not> too_large (fst (feed new_HttpParser (new_Buffer 0) [''GE'', ''T'']))" by simp
  from parse_chunking [OF _ this] show ?thesis by (auto split: prod.splits)
qed

text \<open>
  C4: A well-formed request is read back. For any method and target without white space,
  version HTTP/1.0 or HTTP/1.1, headers within 8 KiB and a body announced by
  \<open>Content-Length\<close>, the parser completes with exactly these fields (header names in
  lower case, path and query split at the question mark, keep-alive as version and
  \<open>Connection\<close> say) and leaves the bytes that follow, the next pipelined request, in
  the buffer; \<open>reset\<close> then restores the initial parser.
\<close>

theorem parse_reads_request:
  assumes "wf_token m" "wf_token t" "v = ''HTTP/1.0'' \<or> v = ''HTTP/1.1''"
    and "\<forall>kv \<in> set hs. wf_header kv" "wf_body hs body" "length (head_text m t v hs) \<le> kMaxHeaderBytes"
  shows "\<exists>p b. parse new_HttpParser (buf_append (head_text m t v hs @ body @ rest) (new_Buffer n)) = (Complete, p, b)
     \<and> req p = request_of m t v hs body \<and> contents b = rest \<and> reset p = new_HttpParser"
proof -
  let ?b = "buf_append (head_text m t v hs @ body @ rest) (new_Buffer n)"
  have "view3 (parse new_HttpParser ?b) =
      (Complete, \<lparr>state = Done, req = request_of m t v hs body, content_length = length body,
                header_bytes = length (head_text m t v hs)\<rparr>, rest)"
    using parse_refines_aux [of ?b new_HttpParser] parse_stream_text [OF assms, of rest]
    by (simp add: inv_intros abs_simps)
  then show ?thesis by (cases "parse new_HttpParser ?b") (auto simp: reset_new)
qed

theorem parse_reads_request_witness:
  "\<exists>p b. parse new_HttpParser (buf_append
       (head_text ''POST'' ''/api/shorten?x=1'' ''HTTP/1.1'' [(''Content-Length'', ''2'')] @ ''{}'' @ ''GET'')
       (new_Buffer 0)) = (Complete, p, b)
     \<and> rq_method (req p) = ''POST'' \<and> rq_path (req p) = ''/api/shorten'' \<and> rq_body (req p) = ''{}''
     \<and> contents b = ''GET''"
proof -
  have "\<exists>p b. parse new_HttpParser (buf_append
       (head_text ''POST'' ''/api/shorten?x=1'' ''HTTP/1.1'' [(''Content-Length'', ''2'')] @ ''{}'' @ ''GET'')
       (new_Buffer 0)) = (Complete, p, b)
     \<and> req p = request_of ''POST'' ''/api/shorten?x=1'' ''HTTP/1.1'' [(''Content-Length'', ''2'')] ''{}''
     \<and> contents b = ''GET'' \<and> reset p = new_HttpParser"
  proof (rule parse_reads_request)
    show "wf_body [(''Content-Length'', ''2'')] ''{}''"
      by code_simp
    show "\<forall>kv \<in> set [(''Content-Length'', ''2'')]. wf_header kv"
      by (simp add: wf_header_def trim_dropWhile isspace_def)
  qed (simp_all add: wf_token_def isspace_def head_text_def header_text_def kMaxHeaderBytes_def)
  then show ?thesis by (auto simp: request_of_def)
qed

text \<open>
  C27: Bounds. For any sequence of reads on a new connection: while the parser waits, the method, the
  target, the version and the header fields that it keeps are at most as many bytes as it counted, at
  most 8192, and at most 8192 bytes are buffered; when it completes, the request has a method and a
  target, its version is one of the two supported ones, its body is exactly as long as announced and at
  most 8192 bytes, and the bytes of the head that it keeps are again at most those counted, at most 8192.
\<close>

theorem parse_bounds:
  assumes "feed new_HttpParser (new_Buffer n) cs = (r, p, b)"
  shows "(r = NeedMore \<longrightarrow> length (contents b) \<le> 8192 \<and> held (req p) \<le> header_bytes p \<and> header_bytes p \<le> 8192) \<and>
    (r = Complete \<longrightarrow> rq_method (req p) \<noteq> [] \<and> rq_target (req p) \<noteq> [] \<and>
       rq_version (req p) \<in> {''HTTP/1.0'', ''HTTP/1.1''} \<and>
       length (rq_body (req p)) = content_length p \<and> content_length p \<le> 8192 \<and>
       held (req p) \<le> header_bytes p \<and> header_bytes p \<le> 8192)"
proof -
  have "feed_stream new_HttpParser [] cs = (r, p, contents b)"
    using feed_refines [of "new_Buffer n" new_HttpParser cs] assms by simp
  from feed_stream_ok [OF this parser_ok_new] feed_stream_held [OF this parser_ok_new] show ?thesis
    by (auto simp: parser_ok_def head_ok_def kMaxBodyBytes_def kMaxHeaderBytes_def new_HttpParser_def)
qed

theorem parse_bounds_witness:
  "\<exists>p b. feed new_HttpParser (new_Buffer 0) [''GET /a HTTP'', ''/1.1'' @ CRLF @ ''Host: x'' @ CRLF @ ''Acc''] = (NeedMore, p, b) \<and>
     rq_headers (req p) = [(''host'', ''x'')] \<and> held (req p) = 18 \<and> held (req p) \<le> header_bytes p \<and> header_bytes p \<le> 8192"
proof -
  let ?cs = "[''GET /a HTTP'', ''/1.1'' @ CRLF @ ''Host: x'' @ CRLF @ ''Acc'']"
  obtain r p b where f: "feed new_HttpParser (new_Buffer 0) ?cs = (r, p, b)" by (metis prod_cases3)
  have "feed_stream new_HttpParser [] ?cs = (r, p, contents b)"
    using feed_refines [of "new_Buffer 0" new_HttpParser ?cs] f by simp
  moreover have "case feed_stream new_HttpParser [] ?cs of (r, p, s) \<Rightarrow> r = NeedMore \<and> rq_headers (req p) = [(''host'', ''x'')] \<and> held (req p) = 18"
    by code_simp
  ultimately have "r = NeedMore" "rq_headers (req p) = [(''host'', ''x'')]" "held (req p) = 18" by simp_all
  with f parse_bounds [OF f] show ?thesis by blast
qed

text \<open>
  C28: Rejections decided by the headers. After a well-formed request line and well-formed header lines, a
  line that has no colon and is not blank gives status 400. For a complete well-formed head, a
  \<open>Transfer-Encoding\<close> that mentions \<open>chunked\<close> gives status 501; without that field a
  \<open>Content-Length\<close> that does not begin with a number or begins with a negative one gives 400, and one whose
  number is above 8192 gives 413, all before any byte of the body is awaited. What follows the digits does not
  matter.
\<close>

theorem parse_rejects_headers:
  assumes "wf_token m" "wf_token t" "v = ''HTTP/1.0'' \<or> v = ''HTTP/1.1''"
    and "\<forall>kv \<in> set hs. wf_header kv" "length (head_text m t v hs) \<le> kMaxHeaderBytes"
  shows "(\<forall>l. LF \<notin> set l \<and> CHR '':'' \<notin> set l \<and> trim l \<noteq> [] \<and> length (head_text m t v hs) + length l \<le> kMaxHeaderBytes \<longrightarrow>
       fst (parse new_HttpParser (buf_append (m @ '' '' @ t @ '' '' @ v @ CRLF @ header_text hs @ l @ LF # rest) (new_Buffer n)))
         = http_err 400 ''bad_request'' msg_no_colon) \<and>
    (case map_of (lower_keys hs) ''transfer-encoding'' of
       Some te \<Rightarrow> sublist ''chunked'' (lower te) \<longrightarrow>
         fst (parse new_HttpParser (buf_append (head_text m t v hs @ rest) (new_Buffer n)))
           = http_err 501 ''unsupported_transfer_encoding'' msg_chunked
     | None \<Rightarrow>
         (\<forall>cl. map_of (lower_keys hs) ''content-length'' = Some cl \<longrightarrow>
           (case strtol10 cl of None \<Rightarrow> True | Some x \<Rightarrow> x < 0 \<or> x > 8192) \<longrightarrow>
           fst (parse new_HttpParser (buf_append (head_text m t v hs @ rest) (new_Buffer n))) =
             (if (case strtol10 cl of None \<Rightarrow> True | Some x \<Rightarrow> x < 0)
              then http_err 400 ''bad_request'' msg_content_length
              else http_err 413 ''payload_too_large'' msg_body_too_large)))"
proof (intro conjI allI impI)
  fix l assume "LF \<notin> set l \<and> CHR '':'' \<notin> set l \<and> trim l \<noteq> [] \<and> length (head_text m t v hs) + length l \<le> kMaxHeaderBytes"
  then show "fst (parse new_HttpParser (buf_append (m @ '' '' @ t @ '' '' @ v @ CRLF @ header_text hs @ l @ LF # rest) (new_Buffer n)))
      = http_err 400 ''bad_request'' msg_no_colon"
    unfolding parse_new_buffer using parse_stream_no_colon [OF assms(1-4)] by blast
qed (rule rejected_by_fields [OF assms])

theorem parse_rejects_headers_witness:
  "fst (parse new_HttpParser (buf_append
     (head_text ''POST'' ''/'' ''HTTP/1.1'' [(''Content-Length'', ''9000'')] @ []) (new_Buffer 0)))
     = http_err 413 ''payload_too_large'' msg_body_too_large \<and>
   fst (parse new_HttpParser (buf_append
     (''POST'' @ '' '' @ ''/'' @ '' '' @ ''HTTP/1.1'' @ CRLF @ header_text [(''Content-Length'', ''9000'')] @ ''nonsense'' @ [LF]) (new_Buffer 0)))
     = http_err 400 ''bad_request'' msg_no_colon"
proof -
  let ?hs = "[(''Content-Length'', ''9000'')]"
  have hs: "map_of (lower_keys ?hs) ''transfer-encoding'' = None"
    "map_of (lower_keys ?hs) ''content-length'' = Some ''9000''" "strtol10 ''9000'' = Some 9000"
    by code_simp+
  have wf: "\<forall>kv \<in> set ?hs. wf_header kv" by (simp add: wf_header_def trim_dropWhile isspace_def)
  have l: "LF \<notin> set ''nonsense''" "CHR '':'' \<notin> set ''nonsense''" "trim ''nonsense'' \<noteq> []" by code_simp+
  have r: "wf_token ''POST''" "wf_token ''/''" "length (head_text ''POST'' ''/'' ''HTTP/1.1'' ?hs) + length ''nonsense'' \<le> kMaxHeaderBytes"
    by (simp_all add: wf_token_def isspace_def head_text_def header_text_def kMaxHeaderBytes_def)
  note p = parse_rejects_headers [OF r(1,2) disjI2 [OF refl] wf, of "[]" 0]
  from p [THEN conjunct1, rule_format, of "''nonsense''"] p [THEN conjunct2] l r(3) hs show ?thesis
    by (simp add: wf_token_def isspace_def head_text_def header_text_def kMaxHeaderBytes_def)
qed

text \<open>
  C40: The size limit counts waiting bytes again and again: while a header line is
  incomplete, every read adds all bytes of the partial line to the counter. A request with
  a head of 6023 bytes, within the 8 KiB limit, is accepted when it arrives in one read
  and rejected with status 431 when the same bytes arrive in five reads.
\<close>

theorem partial_lines_counted_twice:
  "let a = replicate 2000 (CHR ''a'');
       cs = [''GET / HTTP/1.1'' @ CRLF @ ''X: '', a, a, a, CRLF @ CRLF]
   in length (concat cs) = 6023 \<and>
      fst (parse new_HttpParser (buf_append (concat cs) (new_Buffer 0))) = Complete \<and>
      fst (feed new_HttpParser (new_Buffer 0) cs) = http_err 431 ''headers_too_large'' msg_headers_too_large"
proof -
  let ?a = "replicate 2000 (CHR ''a'')"
  let ?cs = "[''GET / HTTP/1.1'' @ CRLF @ ''X: '', ?a, ?a, ?a, CRLF @ CRLF]"
  let ?v = "?a @ ?a @ ?a"
  have tk: "wf_token ''GET''" "wf_token ''/''" by (simp_all add: wf_token_def isspace_def)
  have "trim ?v = ?v" by (rule trim_id) (simp_all add: isspace_def)
  moreover have "trim ''X'' = ''X''" by (simp add: trim_dropWhile isspace_def)
  ultimately have wf: "wf_header (''X'', ?v)" by (simp add: wf_header_def)
  have eq: "concat ?cs = head_text ''GET'' ''/'' ''HTTP/1.1'' [(''X'', ?v)] @ [] @ []"
    by (simp add: head_text_def header_text_def)
  have len: "length (concat ?cs) = 6023" by (simp)
  have "wf_body [(''X'', ?v)] []" 
    by (simp add: wf_body_def lower_keys_def lower_def tolower_def isupper_def)
  then have "fst (parse_stream new_HttpParser (concat ?cs)) = Complete"
    using parse_stream_text [OF tk, of "''HTTP/1.1''" "[(''X'', ?v)]" "[]" "[]"] wf len
    unfolding eq by (simp add: kMaxHeaderBytes_def)
  moreover have "fst (feed_stream new_HttpParser [] ?cs) = http_err 431 ''headers_too_large'' msg_headers_too_large"
    using parse_stream_line [OF tk, of "''HTTP/1.1''" "''X: ''"]
    by (simp add: parse_stream_partial_header after_line_def kMaxHeaderBytes_def http_err_def
       )
  ultimately show ?thesis
    unfolding Let_def parse_new_buffer feed_new_buffer using len by blast
qed

end
