(* ===== verification/ShortUrlService.thy ===== *)
theory ShortUrlService
  imports Prelude
begin

text \<open>
  \<open>src/ShortUrlService.cc\<close> and \<open>include/mini_net/ShortUrlService.h\<close>: the table of
  short links. Every public operation runs under one mutex, so each is one atomic step on
  the state. Counters are 64-bit words. The clock \<open>nowSeconds()\<close> is an argument of
  \<open>shorten\<close>. The search for a free code is a loop whose end is not syntactically
  evident, so it is a partial function into \<open>option\<close>; \<open>shorten_loop_ends\<close> shows
  when it returns. The interface \<open>link_store\<close> is what the routing layer relies on.
\<close>

section \<open>State\<close>

record entry =
  e_url :: string
  e_hits :: u64
  e_created_at :: int

record service =
  by_code :: "(string, entry) umap"
  by_url :: "(string, string) umap"
  counter :: u64
  shorten_total :: u64
  redirect_total :: u64

definition new_ShortUrlService :: service where
  "new_ShortUrlService = \<lparr>by_code = [], by_url = [], counter = 0, shorten_total = 0, redirect_total = 0\<rparr>"

section \<open>Operations\<close>

definition kAlphabet :: string where
  "kAlphabet = ''0123456789abcdefghijklmnopqrstuvwxyzABCDEFGHIJKLMNOPQRSTUVWXYZ''"

lemma unat_div_62: "unat (n div 62 :: u64) = unat n div 62"
  by (simp add: unat_div)

function base62_loop :: "u64 \<Rightarrow> string" where
  "base62_loop n =
     kAlphabet ! unat (n mod 62) # (if n div 62 > 0 then base62_loop (n div 62) else [])"
  by pat_completeness auto
termination
  by (relation "measure unat") (auto simp: unat_div_62 word_less_nat_alt)

declare base62_loop.simps [simp del]

definition base62 :: "u64 \<Rightarrow> string" where
  "base62 n = base62_loop (n + 100000)"

definition validCode :: "string \<Rightarrow> bool" where
  "validCode s \<longleftrightarrow> \<not> (s = [] \<or> length s > 8) \<and> list_all isalnum s"

partial_function (option) shorten_loop :: "(string, entry) umap \<Rightarrow> u64 \<Rightarrow> (string \<times> u64) option" where
  "shorten_loop m c =
     (if um_find m (base62 (c + 1)) \<noteq> None then shorten_loop m (c + 1) else Some (base62 (c + 1), c + 1))"

definition shorten :: "int \<Rightarrow> string \<Rightarrow> service \<Rightarrow> (string \<times> service) option" where
  "shorten now url s =
     (case um_find (by_url s) url of
        Some code \<Rightarrow> Some (code, s\<lparr>shorten_total := shorten_total s + 1\<rparr>)
      | None \<Rightarrow>
          (case shorten_loop (by_code s) (counter s) of
             None \<Rightarrow> None
           | Some (code, c) \<Rightarrow>
               Some (code, s\<lparr>counter := c,
                  by_code := um_put code \<lparr>e_url = url, e_hits = 0, e_created_at = now\<rparr> (by_code s),
                  by_url := um_put url code (by_url s),
                  shorten_total := shorten_total s + 1\<rparr>)))"

definition lookup :: "string \<Rightarrow> service \<Rightarrow> entry option \<times> service" where
  "lookup code s =
     (case um_find (by_code s) code of
        None \<Rightarrow> (None, s)
      | Some e \<Rightarrow>
          (let e' = e\<lparr>e_hits := e_hits e + 1\<rparr>
           in (Some e', s\<lparr>by_code := um_put code e' (by_code s),
                          redirect_total := redirect_total s + 1\<rparr>)))"

definition stats :: "string \<Rightarrow> service \<Rightarrow> entry option" where
  "stats code s = um_find (by_code s) code"

definition stored :: "service \<Rightarrow> nat" where \<comment> \<open>\<open>size()\<close>\<close>
  "stored s = um_size (by_code s)"

section \<open>Codes\<close>

text \<open>The number a code stands for: base 62, least significant digit first.\<close>

definition digit62 :: "char \<Rightarrow> nat" where
  "digit62 c = (case first_index (\<lambda>x. x = c) kAlphabet of None \<Rightarrow> 0 | Some i \<Rightarrow> i)"

fun decode62 :: "string \<Rightarrow> nat" where
  "decode62 [] = 0"
| "decode62 (c # cs) = digit62 c + 62 * decode62 cs"

lemma length_kAlphabet: "length kAlphabet = 62"
  by (simp add: kAlphabet_def)

lemma distinct_kAlphabet: "distinct kAlphabet"
  by (simp add: kAlphabet_def)

lemma alnum_kAlphabet: "list_all isalnum kAlphabet"
  by (simp add: kAlphabet_def isalnum_def isdigit_def isupper_def islower_def)

lemma digit62_nth:
  assumes "i < 62"
  shows "digit62 (kAlphabet ! i) = i"
proof -
  have "first_index (\<lambda>x. x = kAlphabet ! i) kAlphabet = Some i"
  proof (rule first_index_SomeI)
    show "\<forall>x \<in> set (take i kAlphabet). x \<noteq> kAlphabet ! i"
      using assms distinct_kAlphabet length_kAlphabet
      by (auto simp: in_set_conv_nth nth_eq_iff_index_eq)
  qed (use assms length_kAlphabet in simp_all)
  then show ?thesis by (simp add: digit62_def)
qed

lemma unat_mod_62: "unat (n mod 62 :: u64) = unat n mod 62"
  by (simp add: unat_mod)

lemma base62_loop_induct_simps:
  "base62_loop n = kAlphabet ! (unat n mod 62) # (if unat n \<ge> 62 then base62_loop (n div 62) else [])"
  by (subst base62_loop.simps) (auto simp: unat_mod_62 word_less_nat_alt unat_div_62)

lemma decode62_loop: "decode62 (base62_loop n) = unat n"
proof (induction n rule: base62_loop.induct)
  case (1 n)
  have d: "digit62 (kAlphabet ! (unat n mod 62)) = unat n mod 62" by (rule digit62_nth) simp
  show ?case
  proof (cases "unat n \<ge> 62")
    case True
    then have "n div 62 > 0" by (simp add: word_less_nat_alt unat_div_62)
    from "1.IH" [OF this] True d show ?thesis
      by (subst base62_loop_induct_simps) (simp add: unat_div_62)
  next
    case False
    then show ?thesis using d by (subst base62_loop_induct_simps) simp
  qed
qed

lemma base62_loop_alnum: "list_all isalnum (base62_loop n)"
proof (induction n rule: base62_loop.induct)
  case (1 n)
  have "isalnum (kAlphabet ! (unat n mod 62))"
    using alnum_kAlphabet length_kAlphabet by (simp add: list_all_length)
  moreover have "unat n \<ge> 62 \<Longrightarrow> n div 62 > 0" by (simp add: word_less_nat_alt unat_div_62)
  ultimately show ?case using 1 by (subst base62_loop_induct_simps) simp
qed

lemma base62_loop_length: "0 < k \<Longrightarrow> length (base62_loop n) \<le> k \<longleftrightarrow> unat n < 62 ^ k"
proof (induction n arbitrary: k rule: base62_loop.induct)
  case (1 n)
  obtain j where k: "k = Suc j" using "1.prems" by (cases k) auto
  show ?case
  proof (cases "unat n \<ge> 62")
    case True
    then have pos: "n div 62 > 0" by (simp add: word_less_nat_alt unat_div_62)
    have "length (base62_loop n) \<le> k \<longleftrightarrow> length (base62_loop (n div 62)) \<le> j"
      using True by (subst base62_loop_induct_simps) (simp add: k)
    also have "\<dots> \<longleftrightarrow> unat n < 62 ^ k"
    proof (cases "j = 0")
      case True
      have "base62_loop (n div 62) \<noteq> []" by (subst base62_loop_induct_simps) simp
      with True \<open>unat n \<ge> 62\<close> show ?thesis by (simp add: k)
    next
      case False
      then show ?thesis
        using "1.IH" [OF pos, of j] by (simp add: k unat_div_62 div_less_iff_less_mult mult.commute)
    qed
    finally show ?thesis .
  next
    case False
    moreover have "unat n < 62 ^ k" using False k by (auto intro: order.strict_trans2 [where b = 62])
    ultimately show ?thesis using "1.prems" by (subst base62_loop_induct_simps) simp
  qed
qed

lemma base62_inj: "base62 m = base62 n \<longleftrightarrow> m = n"
  by (metis add_right_cancel base62_def decode62_loop word_unat_eq_iff)

section \<open>The search for a free code ends\<close>

lemma shorten_loop_steps:
  "\<lbrakk>um_find m (base62 (c + of_nat (Suc k))) = None;
    \<forall>j < k. um_find m (base62 (c + of_nat (Suc j))) \<noteq> None\<rbrakk> \<Longrightarrow>
   shorten_loop m c = Some (base62 (c + of_nat (Suc k)), c + of_nat (Suc k))"
proof (induction k arbitrary: c)
  case 0
  then show ?case by (subst shorten_loop.simps) simp
next
  case (Suc k)
  have "um_find m (base62 (c + 1)) \<noteq> None" using Suc.prems(2) by fastforce
  then have "shorten_loop m c = shorten_loop m (c + 1)" by (subst shorten_loop.simps) simp
  also have "\<dots> = Some (base62 ((c + 1) + of_nat (Suc k)), (c + 1) + of_nat (Suc k))"
  proof (rule Suc.IH)
    show "um_find m (base62 ((c + 1) + of_nat (Suc k))) = None"
      using Suc.prems(1) by (simp add: algebra_simps)
    show "\<forall>j < k. um_find m (base62 ((c + 1) + of_nat (Suc j))) \<noteq> None"
    proof (intro allI impI)
      fix j assume "j < k"
      then show "um_find m (base62 ((c + 1) + of_nat (Suc j))) \<noteq> None"
        using Suc.prems(2) [rule_format, of "Suc j"] by (simp add: algebra_simps)
    qed
  qed
  finally show ?case by (simp add: algebra_simps)
qed

lemma free_code_exists:
  assumes "um_size m < 2 ^ 64"
  shows "\<exists>k. um_find m (base62 (c + of_nat (Suc k))) = None"
proof (rule ccontr)
  assume all: "\<nexists>k. um_find m (base62 (c + of_nat (Suc k))) = None"
  have "base62 n \<in> set (map fst m)" for n :: u64
  proof -
    have "n = c + of_nat (Suc (unat (n - c - 1)))" by simp
    with all have "um_find m (base62 n) \<noteq> None" by metis
    then show ?thesis by (metis map_of_eq_None_iff list.set_map)
  qed
  then have "base62 ` (UNIV :: u64 set) \<subseteq> set (map fst m)" by blast
  then have "card (base62 ` (UNIV :: u64 set)) \<le> card (set (map fst m))" by (intro card_mono) simp_all
  moreover have "card (base62 ` (UNIV :: u64 set)) = 2 ^ 64"
    by (subst card_image) (simp_all add: inj_def base62_inj card_word)
  moreover have "card (set (map fst m)) \<le> um_size m" by (metis card_length length_map)
  ultimately show False using assms by simp
qed

lemma shorten_loop_Some:
  assumes "um_size m < 2 ^ 64"
  shows "\<exists>k. shorten_loop m c = Some (base62 (c + of_nat (Suc k)), c + of_nat (Suc k)) \<and>
    um_find m (base62 (c + of_nat (Suc k))) = None"
proof -
  let ?P = "\<lambda>k. um_find m (base62 (c + of_nat (Suc k))) = None"
  from LeastI_ex [OF free_code_exists [OF assms, of c]] have "?P (Least ?P)" .
  moreover have "\<forall>j < Least ?P. \<not> ?P j" using not_less_Least by blast
  ultimately show ?thesis using shorten_loop_steps [of m c "Least ?P"] by blast
qed

section \<open>Invariant\<close>

text \<open>
  The two tables are inverse to each other, and the codes in use are exactly those of the
  numbers from 1 up to the counter.
\<close>

definition service_ok :: "service \<Rightarrow> bool" where
  "service_ok s \<longleftrightarrow> um_ok (by_code s) \<and> um_ok (by_url s) \<and>
     (\<forall>c e. um_find (by_code s) c = Some e \<longrightarrow> um_find (by_url s) (e_url e) = Some c) \<and>
     (\<forall>u c. um_find (by_url s) u = Some c \<longrightarrow> (\<exists>e. um_find (by_code s) c = Some e \<and> e_url e = u)) \<and>
     (\<forall>n. um_find (by_code s) (base62 n) \<noteq> None \<longleftrightarrow> 0 < n \<and> n \<le> counter s) \<and>
     (\<forall>c. um_find (by_code s) c \<noteq> None \<longrightarrow> c \<in> range base62)"

lemma service_ok_new [simp, inv_intros]: "service_ok new_ShortUrlService"
  by (auto simp: service_ok_def new_ShortUrlService_def)

lemma service_ok_url:
  "\<lbrakk>service_ok s; um_find (by_url s) u = Some c\<rbrakk> \<Longrightarrow> \<exists>e. um_find (by_code s) c = Some e \<and> e_url e = u"
  unfolding service_ok_def by blast

lemma shorten_loop_once:
  assumes "service_ok s" "counter s \<noteq> -1"
  shows "shorten_loop (by_code s) (counter s) = Some (base62 (counter s + 1), counter s + 1)"
    and "um_find (by_code s) (base62 (counter s + 1)) = None"
proof -
  have "\<not> counter s + 1 \<le> counter s" using plus_1_gt [OF assms(2)] by simp
  then show *: "um_find (by_code s) (base62 (counter s + 1)) = None"
    using assms(1) by (auto simp: service_ok_def)
  show "shorten_loop (by_code s) (counter s) = Some (base62 (counter s + 1), counter s + 1)"
    using * by (subst shorten_loop.simps) simp
qed

lemma shorten_known:
  "um_find (by_url s) url = Some c \<Longrightarrow> shorten now url s = Some (c, s\<lparr>shorten_total := shorten_total s + 1\<rparr>)"
  by (simp add: shorten_def)

lemma shorten_fresh:
  assumes "service_ok s" "counter s \<noteq> -1" "um_find (by_url s) url = None"
  shows "shorten now url s = Some (base62 (counter s + 1), s\<lparr>counter := counter s + 1,
     by_code := um_put (base62 (counter s + 1)) \<lparr>e_url = url, e_hits = 0, e_created_at = now\<rparr> (by_code s),
     by_url := um_put url (base62 (counter s + 1)) (by_url s), shorten_total := shorten_total s + 1\<rparr>)"
  using assms(3) shorten_loop_once [OF assms(1,2)] by (simp add: shorten_def)

lemma service_ok_shorten [inv_intros]:
  assumes "service_ok s" "counter s \<noteq> -1" "shorten now url s = Some (c, s')"
  shows "service_ok s'"
proof (cases "um_find (by_url s) url")
  case (Some c0)
  with assms show ?thesis by (auto simp: shorten_known service_ok_def)
next
  case None
  note fresh = shorten_loop_once(2) [OF assms(1,2)]
  have pos: "0 < counter s + 1"
    using plus_1_gt [OF assms(2)] by (metis word_gt_0 word_not_simps(1))
  have keep: "um_find (by_code s) c' = Some e \<Longrightarrow> e_url e \<noteq> url" for c' e
    using assms(1) None by (auto simp: service_ok_def)
  have keep': "um_find (by_url s) u = Some c' \<Longrightarrow> c' \<noteq> base62 (counter s + 1)" for u c'
    using service_ok_url [OF assms(1), of u c'] fresh by auto
  show ?thesis
    using assms(1,3) keep keep' pos unfolding shorten_fresh [OF assms(1,2) None]
    by (auto simp: service_ok_def um.find_put um.ok_put base62_inj le_plus_1 [OF assms(2)] split: if_splits)
qed

lemma lookup_hit:
  "um_find (by_code s) c = Some e \<Longrightarrow> lookup c s =
     (Some (e\<lparr>e_hits := e_hits e + 1\<rparr>),
      s\<lparr>by_code := um_put c (e\<lparr>e_hits := e_hits e + 1\<rparr>) (by_code s), redirect_total := redirect_total s + 1\<rparr>)"
  by (simp add: lookup_def Let_def)

lemma lookup_miss: "um_find (by_code s) c = None \<Longrightarrow> lookup c s = (None, s)"
  by (simp add: lookup_def)

lemma service_ok_lookup [inv_intros]: "service_ok s \<Longrightarrow> service_ok (snd (lookup c s))"
proof (cases "um_find (by_code s) c")
  case (Some e)
  assume ok: "service_ok s"
  have "um_find (by_url s) u = Some c \<Longrightarrow> e_url e = u" for u
    using service_ok_url [OF ok, of u c] Some by simp
  then show ?thesis using ok Some
    by (auto simp: lookup_hit service_ok_def um.find_put um.ok_put split: if_splits)
qed (simp add: lookup_miss)

section \<open>The interface of the store\<close>

text \<open>
  What a client may rely on: every link has a target and a number of visits; shortening adds
  at most one link and never changes another one, a target has one code, and a visit changes
  nothing but its own counter. \<open>used\<close> bounds how many codes were handed out, so that a client
  can tell when the store cannot run out of them.
\<close>

datatype link_op = Shorten int string | Visit string

locale link_store =
  fixes shorten :: "int \<Rightarrow> string \<Rightarrow> 's \<Rightarrow> (string \<times> 's) option"
    and visit :: "string \<Rightarrow> 's \<Rightarrow> entry option \<times> 's"
    and ok :: "'s \<Rightarrow> bool"
    and view :: "'s \<Rightarrow> string \<Rightarrow> (string \<times> u64) option"
    and used :: "'s \<Rightarrow> nat"
    and limit :: nat
  assumes shorten_returns:
      "\<lbrakk>ok s; used s < limit\<rbrakk> \<Longrightarrow> \<exists>c s'. shorten t u s = Some (c, s') \<and> ok s' \<and> used s' \<le> Suc (used s) \<and>
         view s' = (if \<exists>h. view s c = Some (u, h) then view s else (view s)(c \<mapsto> (u, 0))) \<and>
         (view s c = None \<or> (\<exists>h. view s c = Some (u, h)))"
    and one_code: "\<lbrakk>ok s; view s c = Some (u, h); view s c' = Some (u, h')\<rbrakk> \<Longrightarrow> c = c'"
    and visit_ok: "ok s \<Longrightarrow> ok (snd (visit c s))"
    and visit_used: "used (snd (visit c s)) = used s"
    and visit_result: "ok s \<Longrightarrow> map_option e_url (fst (visit c s)) = map_option fst (view s c)"
    and visit_view: "ok s \<Longrightarrow> view (snd (visit c s)) =
         (case view s c of None \<Rightarrow> view s | Some (u, h) \<Rightarrow> (view s)(c \<mapsto> (u, h + 1)))"
begin

primrec step :: "link_op \<Rightarrow> 's \<Rightarrow> 's option" where
  "step (Shorten t u) s = map_option snd (shorten t u s)"
| "step (Visit c) s = Some (snd (visit c s))"

primrec steps :: "link_op list \<Rightarrow> 's \<Rightarrow> 's option" where
  "steps [] s = Some s"
| "steps (op # ops) s = Option.bind (step op s) (steps ops)"

lemma step_keeps:
  assumes "ok s" "used s < limit"
  shows "\<exists>s'. step op s = Some s' \<and> ok s' \<and> used s' \<le> Suc (used s) \<and>
    (\<forall>c u h. view s c = Some (u, h) \<longrightarrow> view s' c = Some (u, h + (if op = Visit c then 1 else 0)))"
proof (cases op)
  case (Shorten t u)
  from shorten_returns [OF assms, of t u] show ?thesis using Shorten by (fastforce split: if_splits)
next
  case (Visit c)
  then show ?thesis
    using assms by (auto simp: visit_ok visit_used visit_view split: option.split prod.split)
qed

lemma steps_keep:
  "\<lbrakk>ok s; used s + length ops \<le> limit\<rbrakk> \<Longrightarrow>
   \<exists>s'. steps ops s = Some s' \<and> ok s' \<and> used s' \<le> used s + length ops \<and>
    (\<forall>c u h. view s c = Some (u, h) \<longrightarrow> view s' c = Some (u, h + of_nat (count_list ops (Visit c))))"
proof (induction ops arbitrary: s)
  case (Cons op ops)
  obtain s1 where 1: "step op s = Some s1" "ok s1" "used s1 \<le> Suc (used s)"
    "\<forall>c u h. view s c = Some (u, h) \<longrightarrow> view s1 c = Some (u, h + (if op = Visit c then 1 else 0))"
    using step_keeps [of s op] Cons.prems by auto
  from Cons.IH [OF 1(2)] 1(3) Cons.prems(2) obtain s' where 2: "steps ops s1 = Some s'" "ok s'"
    "used s' \<le> used s1 + length ops"
    "\<forall>c u h. view s1 c = Some (u, h) \<longrightarrow> view s' c = Some (u, h + of_nat (count_list ops (Visit c)))"
    by auto
  show ?case
    using 1 2 by (intro exI [of _ s']) (auto simp: algebra_simps)
qed simp

lemma shorten_then:
  assumes "ok s" "used s + length ops + 2 \<le> limit"
  shows "\<exists>c s1 s2. shorten t u s = Some (c, s1) \<and> steps ops s1 = Some s2 \<and>
    map_option e_url (fst (visit c s2)) = Some u \<and> map_option fst (shorten t' u s2) = Some c"
proof -
  obtain c s1 where 1: "shorten t u s = Some (c, s1)" "ok s1" "used s1 \<le> Suc (used s)" "\<exists>h. view s1 c = Some (u, h)"
    using shorten_returns [of s t u] assms by (fastforce split: if_splits)
  then obtain s2 where 2: "steps ops s1 = Some s2" "ok s2" "used s2 \<le> used s1 + length ops" "\<exists>h. view s2 c = Some (u, h)"
    using steps_keep [of s1 ops] assms by fastforce
  obtain c' s3 where 3: "shorten t' u s2 = Some (c', s3)" "ok s3" "\<exists>h. view s3 c' = Some (u, h)" "\<exists>h. view s3 c = Some (u, h)"
    using shorten_returns [of s2 t' u] 1 2 assms by (fastforce split: if_splits)
  then have "c' = c" using one_code by blast
  with 1 2 3 visit_result [of s2 c] show ?thesis by auto
qed

lemma visits_counted:
  assumes "ok s" "used s + length ops \<le> limit" "view s c = Some (u, h)"
  shows "\<exists>s'. steps ops s = Some s' \<and> view s' c = Some (u, h + of_nat (count_list ops (Visit c)))"
  using steps_keep [OF assms(1,2)] assms(3) by blast

end

text \<open>The service as a link store.\<close>

definition links :: "service \<Rightarrow> string \<Rightarrow> (string \<times> u64) option" where
  "links s c = map_option (\<lambda>e. (e_url e, e_hits e)) (um_find (by_code s) c)"

definition codes_used :: "service \<Rightarrow> nat" where
  "codes_used s = unat (counter s)"

lemma links_upd: "links (s\<lparr>shorten_total := n\<rparr>) = links s"
  by (simp add: links_def fun_eq_iff)

lemma links_shorten:
  assumes "service_ok s" "counter s \<noteq> -1"
  shows "\<exists>c s'. shorten t u s = Some (c, s') \<and> service_ok s' \<and> codes_used s' \<le> Suc (codes_used s) \<and>
    links s' = (if \<exists>h. links s c = Some (u, h) then links s else (links s)(c \<mapsto> (u, 0))) \<and>
    (links s c = None \<or> (\<exists>h. links s c = Some (u, h)))"
proof (cases "um_find (by_url s) u")
  case None
  note fresh = shorten_loop_once(2) [OF assms] and sh = shorten_fresh [OF assms None, of t]
  show ?thesis unfolding sh using service_ok_shorten [OF assms sh] fresh assms
    by (auto simp: links_def codes_used_def unat_plus_1 service_ok_def um.find_put fun_eq_iff)
next
  case (Some c)
  then obtain e where "um_find (by_code s) c = Some e" "e_url e = u"
    using service_ok_url [OF assms(1)] by blast
  then have "\<exists>h. links s c = Some (u, h)" by (simp add: links_def)
  moreover have "service_ok (s\<lparr>shorten_total := shorten_total s + 1\<rparr>)"
    by (rule service_ok_shorten [OF assms shorten_known [OF Some, of t]])
  ultimately show ?thesis
    by (intro exI [of _ c] exI [of _ "s\<lparr>shorten_total := shorten_total s + 1\<rparr>"])
      (simp add: shorten_known [OF Some] codes_used_def links_upd)
qed

interpretation links: link_store shorten lookup service_ok links codes_used "2 ^ 64 - 1"
proof unfold_locales
  fix s t u assume "service_ok s" "codes_used s < 2 ^ 64 - 1"
  then show "\<exists>c s'. shorten t u s = Some (c, s') \<and> service_ok s' \<and> codes_used s' \<le> Suc (codes_used s) \<and>
    links s' = (if \<exists>h. links s c = Some (u, h) then links s else (links s)(c \<mapsto> (u, 0))) \<and>
    (links s c = None \<or> (\<exists>h. links s c = Some (u, h)))"
    by (intro links_shorten) (auto simp: codes_used_def unsigned_minus_1_eq_mask mask_eq_exp_minus_1)
next
  fix s c u h c' h' assume "service_ok s" "links s c = Some (u, h)" "links s c' = Some (u, h')"
  then show "c = c'" by (auto simp: links_def service_ok_def) (metis option.inject)
next
  fix s c assume "service_ok s"
  then show "service_ok (snd (lookup c s))" by (rule service_ok_lookup)
next
  fix s c show "codes_used (snd (lookup c s)) = codes_used s"
    by (simp add: lookup_def codes_used_def Let_def split: option.split)
next
  fix s c assume "service_ok s"
  then show "map_option e_url (fst (lookup c s)) = map_option fst (links s c)"
    by (simp add: lookup_def Let_def links_def split: option.split)
next
  fix s c assume "service_ok s"
  then show "links (snd (lookup c s)) = (case links s c of None \<Rightarrow> links s | Some (u, h) \<Rightarrow> (links s)(c \<mapsto> (u, h + 1)))"
    by (auto simp: lookup_def Let_def links_def service_ok_def um.find_put fun_eq_iff split: option.split)
qed

section \<open>Properties\<close>

text \<open>
  C33: the codes of \<open>base62\<close> are alphanumeric, decode to the number they were made from (the
  fixed offset included), and are therefore different for different counters.
\<close>

theorem base62_roundtrip:
  "decode62 (base62 n) = unat (n + 100000) \<and> list_all isalnum (base62 n) \<and> (base62 m = base62 n \<longleftrightarrow> m = n)"
  by (simp add: base62_inj) (simp add: base62_def decode62_loop base62_loop_alnum)

text \<open>
  \<open>validCode\<close>, which the router applies before a lookup, accepts the code of the \<open>n\<close>-th
  link as long as \<open>n + 100000\<close> is below \<open>62^8\<close>, and rejects every code issued from there on:
  the length limit of eight is the capacity of the service.
\<close>

theorem issued_code_valid: "validCode (base62 n) \<longleftrightarrow> unat (n + 100000) < 62 ^ 8"
proof -
  have "base62 n \<noteq> []" unfolding base62_def by (subst base62_loop_induct_simps) simp
  then show ?thesis
    using base62_loop_length [of 8 "n + 100000"] base62_loop_alnum [of "n + 100000"]
    by (simp add: validCode_def base62_def not_less)
qed

text \<open>
  C34: the search for a free code returns, whatever the table holds, as long as the table has
  fewer than \<open>2^64\<close> entries, and what it returns is the code of the new counter and unused.
\<close>

theorem shorten_loop_ends:
  assumes "um_size m < 2 ^ 64"
  shows "\<exists>c'. shorten_loop m c = Some (base62 c', c') \<and> um_find m (base62 c') = None"
  using shorten_loop_Some [OF assms, of c] by blast

theorem shorten_loop_ends_witness:
  "\<exists>c'. shorten_loop [(base62 1, \<lparr>e_url = ''a'', e_hits = 0, e_created_at = 0\<rparr>)] 0 = Some (base62 c', c') \<and>
     um_find [(base62 1, \<lparr>e_url = ''a'', e_hits = 0, e_created_at = 0\<rparr>)] (base62 c') = None"
  by (rule shorten_loop_ends) simp

text \<open>
  C20: the tables stay consistent. The invariant \<open>service_ok\<close> (the two maps are inverse to
  each other and the codes in use are those of the numbers up to the counter) holds of the
  fresh service and after every \<open>shorten\<close> and \<open>lookup\<close>, and \<open>shorten\<close> takes its search loop
  exactly once.
\<close>

theorem service_invariant:
  assumes "service_ok s" "counter s \<noteq> -1"
  shows "service_ok new_ShortUrlService \<and> service_ok (snd (lookup c s)) \<and>
    (\<exists>code s'. shorten now url s = Some (code, s') \<and> service_ok s' \<and>
       (um_find (by_url s) url = Some code \<and> stored s' = stored s \<or>
        um_find (by_url s) url = None \<and> code = base62 (counter s + 1) \<and> stored s' = Suc (stored s)))"
proof (cases "um_find (by_url s) url")
  case None
  have "um_ok (by_code s)" using assms(1) by (simp add: service_ok_def)
  then have "stored (snd (the (shorten now url s))) = Suc (stored s)"
    using shorten_loop_once(2) [OF assms]
    by (simp add: shorten_fresh [OF assms None] stored_def um.count_put_new)
  then show ?thesis
    using assms(1) None service_ok_shorten [OF assms shorten_fresh [OF assms None, of now]]
    by (simp add: service_ok_lookup shorten_fresh [OF assms None])
next
  case (Some code)
  then show ?thesis
    using assms(1) service_ok_shorten [OF assms shorten_known [OF Some, of now]]
    by (simp add: service_ok_lookup shorten_known [OF Some] stored_def)
qed

theorem service_invariant_witness:
  "service_ok new_ShortUrlService \<and> service_ok (snd (lookup ''q0U'' new_ShortUrlService)) \<and>
    (\<exists>code s'. shorten 7 ''http://a'' new_ShortUrlService = Some (code, s') \<and> service_ok s' \<and>
       (um_find (by_url new_ShortUrlService) ''http://a'' = Some code \<and> stored s' = stored new_ShortUrlService \<or>
        um_find (by_url new_ShortUrlService) ''http://a'' = None \<and>
        code = base62 (counter new_ShortUrlService + 1) \<and> stored s' = Suc (stored new_ShortUrlService)))"
  by (rule service_invariant) (simp_all add: new_ShortUrlService_def service_ok_new [unfolded new_ShortUrlService_def])

text \<open>
  After \<open>shorten url\<close> returned a code, and after any further
  sequence of \<open>shorten\<close> and \<open>lookup\<close> calls, looking the code up yields \<open>url\<close> and shortening
  \<open>url\<close> again yields the same code (as long as the 64-bit counter has room for the calls made).
\<close>

theorem link_persists:
  assumes "service_ok s" "unat (counter s) + length ops + 2 < 2 ^ 64"
  shows "\<exists>c s1 s2. shorten t url s = Some (c, s1) \<and> links.steps ops s1 = Some s2 \<and>
    map_option e_url (fst (lookup c s2)) = Some url \<and> map_option fst (shorten t' url s2) = Some c"
  by (rule links.shorten_then) (use assms in \<open>simp_all add: codes_used_def\<close>)

theorem link_persists_witness:
  "\<exists>c s1 s2. shorten 1 ''http://a'' new_ShortUrlService = Some (c, s1) \<and>
    links.steps [Shorten 2 ''http://b'', Visit ''xyz''] s1 = Some s2 \<and>
    map_option e_url (fst (lookup c s2)) = Some ''http://a'' \<and> map_option fst (shorten 3 ''http://a'' s2) = Some c"
  by (rule link_persists) (simp_all add: new_ShortUrlService_def service_ok_new [unfolded new_ShortUrlService_def])

text \<open>
  Hits count visits. Over any sequence of calls, the hit counter of an existing code grows
  by exactly the number of lookups of that code (modulo \<open>2^64\<close>) and its target never changes.
\<close>

theorem hits_count_visits:
  assumes "service_ok s" "unat (counter s) + length ops < 2 ^ 64" "stats c s = Some e"
  shows "\<exists>s' e'. links.steps ops s = Some s' \<and> stats c s' = Some e' \<and> e_url e' = e_url e \<and>
    e_hits e' = e_hits e + of_nat (count_list ops (Visit c))"
  using links.visits_counted [of s ops c "e_url e" "e_hits e"] assms
  by (auto simp: codes_used_def stats_def links_def)

definition one_link :: service where
  "one_link = snd (the (shorten 1 ''http://a'' new_ShortUrlService))"

lemma one_link_eq: "one_link =
  \<lparr>by_code = [(base62 1, \<lparr>e_url = ''http://a'', e_hits = 0, e_created_at = 1\<rparr>)],
   by_url = [(''http://a'', base62 1)], counter = 1, shorten_total = 1, redirect_total = 0\<rparr>"
  unfolding one_link_def
  by (subst shorten_fresh) (simp_all add: new_ShortUrlService_def service_ok_new [unfolded new_ShortUrlService_def])

lemma one_link_ok: "service_ok one_link"
  unfolding one_link_def
  by (rule service_ok_shorten [of new_ShortUrlService 1 "''http://a''" "base62 1"])
    (simp_all add: shorten_fresh new_ShortUrlService_def service_ok_new [unfolded new_ShortUrlService_def])

theorem hits_count_visits_witness:
  "\<exists>s' e'. links.steps [Visit (base62 1), Visit ''no'', Visit (base62 1)] one_link = Some s' \<and>
    stats (base62 1) s' = Some e' \<and>
    e_url e' = e_url \<lparr>e_url = ''http://a'', e_hits = 0, e_created_at = 1\<rparr> \<and>
    e_hits e' = e_hits \<lparr>e_url = ''http://a'', e_hits = 0, e_created_at = 1\<rparr> +
      of_nat (count_list [Visit (base62 1), Visit ''no'', Visit (base62 1)] (Visit (base62 1)))"
  by (rule hits_count_visits) (simp_all add: one_link_ok, simp_all add: one_link_eq stats_def)

end
