(* ===== verification/ShortUrlApp.thy ===== *)
theory ShortUrlApp
  imports HttpTypes Messages ShortUrlService
begin

unbundle bit_operations_syntax

text \<open>
  \<open>src/ShortUrlApp.cc\<close>: the JSON field extraction with its unicode escapes, the validation of
  links and the routes of the service. A function that reports through \<open>std::string* err\<close>
  returns a sum, \<open>Inl\<close> the message. A handler takes the response it fills and the state and
  returns both; it returns \<open>None\<close> only where \<open>shorten\<close> would not return. Log lines are not
  part of the model. \<open>metrics_source_\<close> is a function of the service state.
\<close>

section \<open>JSON field extraction\<close>

definition hex_digit :: "char \<Rightarrow> u32 option" where
  "hex_digit c =
     (let n = byte_val c in
      if byte_val (CHR ''0'') \<le> n \<and> n \<le> byte_val (CHR ''9'') then Some (of_nat (n - byte_val (CHR ''0'')))
      else if byte_val (CHR ''a'') \<le> n \<and> n \<le> byte_val (CHR ''f'') then Some (of_nat (n - byte_val (CHR ''a'') + 10))
      else if byte_val (CHR ''A'') \<le> n \<and> n \<le> byte_val (CHR ''F'') then Some (of_nat (n - byte_val (CHR ''A'') + 10))
      else None)"

fun hex4_loop :: "string \<Rightarrow> u32 \<Rightarrow> u32 option" where
  "hex4_loop [] v = Some v"
| "hex4_loop (c # cs) v =
     (case hex_digit c of None \<Rightarrow> None | Some d \<Rightarrow> hex4_loop cs (push_bit 4 v OR d))"

definition hex4 :: "string \<Rightarrow> nat \<Rightarrow> u32 option" where
  "hex4 s i = (if i + 4 > length s then None else hex4_loop (take 4 (drop i s)) 0)"

text \<open>\<open>static_cast<char>\<close> of an unsigned.\<close>

definition to_char :: "u32 \<Rightarrow> char" where
  "to_char w = char_of (unat w)"

definition appendUtf8 :: "string \<Rightarrow> u32 \<Rightarrow> string" where
  "appendUtf8 out cp =
     (if cp \<le> 0x7F then out @ [to_char cp]
      else if cp \<le> 0x7FF then
        out @ [to_char (0xC0 OR drop_bit 6 cp), to_char (0x80 OR (cp AND 0x3F))]
      else if cp \<le> 0xFFFF then
        out @ [to_char (0xE0 OR drop_bit 12 cp), to_char (0x80 OR (drop_bit 6 cp AND 0x3F)),
               to_char (0x80 OR (cp AND 0x3F))]
      else
        out @ [to_char (0xF0 OR drop_bit 18 cp), to_char (0x80 OR (drop_bit 12 cp AND 0x3F)),
               to_char (0x80 OR (drop_bit 6 cp AND 0x3F)), to_char (0x80 OR (cp AND 0x3F))])"

function skip_blanks :: "string \<Rightarrow> nat \<Rightarrow> nat" where
  "skip_blanks body i =
     (if i < length body \<and> (body ! i = CHR '' '' \<or> body ! i = TAB) then skip_blanks body (i + 1) else i)"
  by pat_completeness auto
termination by (relation "measure (\<lambda>(body, i). length body - i)") auto

text \<open>
  The escape whose letter stands at \<open>i\<close>: the extended value and the position of the last
  character the escape uses.
\<close>

definition unicode_escape :: "string \<Rightarrow> nat \<Rightarrow> string \<Rightarrow> string + (nat \<times> string)" where
  "unicode_escape body i value =
     (case hex4 body (i + 1) of
        None \<Rightarrow> Inl msg_bad_escape
      | Some cp \<Rightarrow>
          (let i = i + 4 in
           if 0xD800 \<le> cp \<and> cp \<le> 0xDBFF \<and> i + 6 < length body \<and> body ! (i + 1) = BSL \<and> body ! (i + 2) = CHR ''u''
           then (case hex4 body (i + 3) of
                   Some low \<Rightarrow>
                     if 0xDC00 \<le> low \<and> low \<le> 0xDFFF
                     then Inr (i + 6, appendUtf8 value (0x10000 + push_bit 10 (cp - 0xD800) + (low - 0xDC00)))
                     else Inr (i, appendUtf8 value cp)
                 | None \<Rightarrow> Inr (i, appendUtf8 value cp))
           else Inr (i, appendUtf8 value cp)))"

definition simple_escape :: "char \<Rightarrow> char" where
  "simple_escape c =
     (if c = CHR ''n'' then LF else if c = CHR ''t'' then TAB else if c = CHR ''r'' then CR
      else if c = CHR ''b'' then BS else if c = CHR ''f'' then FF else c)"

text \<open>The body of the string loop at position \<open>i\<close>, before \<open>++i\<close>.\<close>

definition string_char :: "string \<Rightarrow> nat \<Rightarrow> string \<Rightarrow> string + (nat \<times> string)" where
  "string_char body i value =
     (if body ! i = BSL \<and> i + 1 < length body then
        (let i = i + 1 in
         if body ! i = CHR ''u'' then unicode_escape body i value
         else Inr (i, value @ [simple_escape (body ! i)]))
      else Inr (i, value @ [body ! i]))"

lemma string_char_advances: "string_char body i value = Inr (j, v) \<Longrightarrow> i \<le> j"
  by (auto simp: string_char_def unicode_escape_def Let_def split: if_splits option.splits)

function string_loop :: "string \<Rightarrow> nat \<Rightarrow> string \<Rightarrow> string + (nat \<times> string)" where
  "string_loop body i value =
     (if i < length body \<and> body ! i \<noteq> DQ then
        (case string_char body i value of
           Inl e \<Rightarrow> Inl e
         | Inr (j, v) \<Rightarrow> string_loop body (j + 1) v)
      else Inr (i, value))"
  by pat_completeness auto
termination
  by (relation "measure (\<lambda>(body, i, value). length body - i)") (auto dest: string_char_advances)

declare skip_blanks.simps [simp del] string_loop.simps [simp del]

abbreviation json_space :: string where
  "json_space \<equiv> [CHR '' '', TAB, CR, LF]"

definition jsonExtractString :: "string \<Rightarrow> string \<Rightarrow> string + string" where
  "jsonExtractString body key =
     (case (find_first_not_of json_space body, find_last_not_of json_space body) of
        (Some b, Some e) \<Rightarrow>
          if body ! b \<noteq> CHR ''{'' \<or> body ! e \<noteq> CHR ''}'' then Inl msg_not_object
          else
            (let needle = [DQ] @ key @ [DQ] in
             case find_sub needle body of
               None \<Rightarrow> Inl (msg_missing_field @ key)
             | Some k \<Rightarrow>
                 (case find_char (CHR '':'') body (k + length needle) of
                    None \<Rightarrow> Inl msg_field_format
                  | Some colon \<Rightarrow>
                      (let i = skip_blanks body (colon + 1) in
                       if i \<ge> length body \<or> body ! i \<noteq> DQ then Inl (msg_field @ key @ msg_must_be_string)
                       else
                         (case string_loop body (i + 1) [] of
                            Inl e \<Rightarrow> Inl e
                          | Inr (i, value) \<Rightarrow> if i \<ge> length body then Inl msg_no_end_quote else Inr value))))
      | _ \<Rightarrow> Inl msg_not_object)"

section \<open>Validation and fixed answers\<close>

definition validUrl :: "string \<Rightarrow> string option" where \<comment> \<open>the message when not valid\<close>
  "validUrl url =
     (if url = [] then Some msg_url_empty
      else if length url > 2048 then Some msg_url_long
      else if \<not> starts_with url ''http://'' \<and> \<not> starts_with url ''https://'' then Some msg_url_scheme
      else None)"

definition error_json :: "string \<Rightarrow> string \<Rightarrow> string" where
  "error_json code detail =
     ''{'' @ [DQ] @ ''error'' @ [DQ] @ '':'' @ [DQ] @ code @ [DQ] @ '','' @ [DQ] @ ''detail'' @ [DQ] @ '':'' @ [DQ] @ detail @ [DQ] @ ''}''"

definition badRequest :: "string \<Rightarrow> string \<Rightarrow> http_response \<Rightarrow> http_response" where
  "badRequest code detail resp = setJson (error_json code detail) (resp\<lparr>rs_status := 400\<rparr>)"

definition notFound :: "http_response \<Rightarrow> http_response" where
  "notFound resp = setJson (error_json ''not_found'' msg_no_code) (resp\<lparr>rs_status := 404\<rparr>)"

primrec esc :: "string \<Rightarrow> string" where
  "esc [] = []"
| "esc (c # cs) = (if c = CR then [BSL, CHR ''r''] else if c = LF then [BSL, CHR ''n''] else [c]) @ esc cs"

definition methodNotAllowed :: "string \<Rightarrow> string \<Rightarrow> http_response \<Rightarrow> http_response" where
  "methodNotAllowed allow detail resp =
     setJson (error_json ''method_not_allowed'' detail)
       (resp\<lparr>rs_status := 405, rs_extra_headers := rs_extra_headers resp @ [(''Allow'', allow)]\<rparr>)"

section \<open>Routes\<close>

record app =
  app_host :: string
  app_service :: service
  app_metrics_source :: "(service \<Rightarrow> string) option"

definition new_ShortUrlApp :: "string \<Rightarrow> app" where
  "new_ShortUrlApp host = \<lparr>app_host = host, app_service = new_ShortUrlService, app_metrics_source = None\<rparr>"

definition setMetricsSource :: "(service \<Rightarrow> string) \<Rightarrow> app \<Rightarrow> app" where
  "setMetricsSource src a = a\<lparr>app_metrics_source := Some src\<rparr>"

definition created_json :: "string \<Rightarrow> string \<Rightarrow> string \<Rightarrow> string" where
  "created_json host code url =
     ''{'' @ [DQ] @ ''code'' @ [DQ] @ '':'' @ [DQ] @ code @ [DQ] @ '','' @ [DQ] @ ''short'' @ [DQ] @ '':'' @ [DQ] @ ''http://'' @ host @ ''/'' @ code
     @ [DQ] @ '','' @ [DQ] @ ''url'' @ [DQ] @ '':'' @ [DQ] @ url @ [DQ] @ ''}''"

definition handleShorten :: "int \<Rightarrow> http_request \<Rightarrow> http_response \<Rightarrow> app \<Rightarrow> (http_response \<times> app) option" where
  "handleShorten now req resp a =
     (case jsonExtractString (rq_body req) ''url'' of
        Inl err \<Rightarrow> Some (badRequest ''invalid_url'' err resp, a)
      | Inr url \<Rightarrow>
          (case validUrl url of
             Some err \<Rightarrow> Some (badRequest ''invalid_url'' err resp, a)
           | None \<Rightarrow>
               (case shorten now url (app_service a) of
                  None \<Rightarrow> None
                | Some (code, s) \<Rightarrow>
                    Some (setJson (created_json (app_host a) code url) (resp\<lparr>rs_status := 201\<rparr>), a\<lparr>app_service := s\<rparr>))))"

definition handleRedirect :: "string \<Rightarrow> http_response \<Rightarrow> app \<Rightarrow> http_response \<times> app" where
  "handleRedirect code resp a =
     (if \<not> validCode code then (badRequest ''invalid_code'' msg_code_format resp, a)
      else
        (case lookup code (app_service a) of
           (None, s) \<Rightarrow> (notFound resp, a\<lparr>app_service := s\<rparr>)
         | (Some e, s) \<Rightarrow>
             (resp\<lparr>rs_status := 302, rs_body := [],
                rs_extra_headers := rs_extra_headers resp @ [(''Location'', e_url e), (''Cache-Control'', ''no-store'')]\<rparr>,
              a\<lparr>app_service := s\<rparr>)))"

definition stats_json :: "string \<Rightarrow> entry \<Rightarrow> string" where
  "stats_json code e =
     ''{'' @ [DQ] @ ''code'' @ [DQ] @ '':'' @ [DQ] @ c_str code @ [DQ] @ '','' @ [DQ] @ ''url'' @ [DQ] @ '':'' @ [DQ] @ c_str (e_url e) @ [DQ]
     @ '','' @ [DQ] @ ''hits'' @ [DQ] @ '':'' @ show_nat (unat (e_hits e)) @ '','' @ [DQ] @ ''created_at'' @ [DQ] @ '':'' @ show_int (e_created_at e) @ ''}''"

definition handleStats :: "string \<Rightarrow> http_response \<Rightarrow> app \<Rightarrow> http_response" where
  "handleStats code resp a =
     (if \<not> validCode code then badRequest ''invalid_code'' msg_code_format resp
      else
        (case stats code (app_service a) of
           None \<Rightarrow> notFound resp
         | Some e \<Rightarrow> setJson (snprintf 512 (stats_json code e)) resp))"

definition handle :: "int \<Rightarrow> http_request \<Rightarrow> http_response \<Rightarrow> app \<Rightarrow> (http_response \<times> app) option" where
  "handle now req resp a =
     (let path = rq_path req in
      if path = ''/healthz'' then
        if rq_method req \<noteq> ''GET'' then Some (methodNotAllowed ''GET'' msg_healthz_get resp, a)
        else Some (resp\<lparr>rs_body := ''ok''\<rparr>, a)
      else if path = ''/metrics'' then
        if rq_method req \<noteq> ''GET'' then Some (methodNotAllowed ''GET'' msg_metrics_get resp, a)
        else Some (resp\<lparr>rs_content_type := ''text/plain; charset=utf-8'',
               rs_body := (case app_metrics_source a of None \<Rightarrow> [] | Some f \<Rightarrow> f (app_service a))\<rparr>, a)
      else if path = ''/api/shorten'' then
        if rq_method req \<noteq> ''POST'' then Some (methodNotAllowed ''POST'' msg_shorten_post resp, a)
        else handleShorten now req resp a
      else if starts_with path ''/api/stats/'' then
        if rq_method req \<noteq> ''GET'' then Some (methodNotAllowed ''GET'' msg_stats_get resp, a)
        else Some (handleStats (drop (length ''/api/stats/'') path) resp a, a)
      else if path \<noteq> [] \<and> path ! 0 = CHR ''/'' \<and> length path > 1 then
        if rq_method req \<noteq> ''GET'' then Some (methodNotAllowed ''GET'' msg_redirect_get resp, a)
        else Some (handleRedirect (drop 1 path) resp a)
      else Some (notFound resp, a))"

definition appendMetrics :: "string \<Rightarrow> service \<Rightarrow> string" where
  "appendMetrics out s =
     out @ snprintf 256 (''shorten_total '' @ show_nat (unat (shorten_total s)) @ [LF])
     @ snprintf 256 (''redirect_total '' @ show_nat (unat (redirect_total s)) @ [LF])
     @ snprintf 256 (''stored_codes '' @ show_nat (stored s) @ [LF])"

section \<open>Reference: hexadecimal numbers and UTF-8\<close>

definition is_hex :: "string \<Rightarrow> bool" where
  "is_hex h \<longleftrightarrow> length h = 4 \<and> list_all (\<lambda>c. hex_digit c \<noteq> None) h"

definition hex_num :: "string \<Rightarrow> nat" where
  "hex_num h = foldl (\<lambda>n c. 16 * n + unat (the (hex_digit c))) 0 h"

definition utf8 :: "nat \<Rightarrow> nat list" where
  "utf8 n =
     (if n < 2 ^ 7 then [n]
      else if n < 2 ^ 11 then [192 + n div 64, 128 + n mod 64]
      else if n < 2 ^ 16 then [224 + n div 64 ^ 2, 128 + n div 64 mod 64, 128 + n mod 64]
      else [240 + n div 64 ^ 3, 128 + n div 64 ^ 2 mod 64, 128 + n div 64 mod 64, 128 + n mod 64])"

lemma u32_of_nat: "n < 2 ^ 32 \<Longrightarrow> unat (of_nat n :: u32) = n"
  by (simp add: unat_of_nat)

lemma hex_digit_bound:
  assumes "hex_digit c = Some d"
  shows "unat d < 16"
proof -
  have "\<exists>n < 16. d = of_nat n"
    using assms
    by (auto simp: hex_digit_def Let_def simp del: of_nat_diff of_nat_add split: if_splits)
      (rule exI, rule conjI [rotated], rule refl, simp)+
  then show ?thesis by (auto simp: u32_of_nat)
qed

lemma or_disjoint:
  assumes "a = push_bit k a'" "unat b < 2 ^ k"
  shows "(a :: u32) OR b = a + b"
proof (rule disjunctive_add [symmetric])
  fix n show "\<not> bit a n \<or> \<not> bit b n"
  proof (cases "n < k")
    case False
    then have "(2 :: nat) ^ k \<le> 2 ^ n" by (intro power_increasing) simp_all
    with assms(2) have "unat b < 2 ^ n" by (rule order.strict_trans2)
    then have "\<not> bit (unat b) n" by (simp add: bit_iff_odd)
    then show ?thesis by (simp add: bit_unsigned_iff)
  qed (simp add: assms(1) bit_push_bit_iff)
qed

lemma shift_or_digit:
  assumes "unat d < 16" "unat v < 2 ^ 28"
  shows "unat (push_bit 4 v OR d :: u32) = 16 * unat v + unat d"
proof -
  have "push_bit 4 v OR d = push_bit 4 v + d" using assms(1) by (intro or_disjoint [OF refl]) simp
  also have "\<dots> = of_nat (16 * unat v + unat d)" by (simp add: push_bit_eq_mult)
  finally show ?thesis using assms by (simp only:) (rule u32_of_nat, simp)
qed

lemma hex4_loop_num:
  "\<lbrakk>list_all (\<lambda>c. hex_digit c \<noteq> None) h; (unat v + 1) * 16 ^ length h \<le> 2 ^ 32\<rbrakk> \<Longrightarrow>
   \<exists>w. hex4_loop h v = Some w \<and> unat w = foldl (\<lambda>n c. 16 * n + unat (the (hex_digit c))) (unat v) h"
proof (induction h arbitrary: v)
  case (Cons c h)
  then obtain d where d: "hex_digit c = Some d" by auto
  have b: "(unat v + 1) * 16 * 16 ^ length h \<le> 2 ^ 32" using Cons.prems(2) by (simp add: algebra_simps)
  have "(unat v + 1) * 16 \<le> (unat v + 1) * 16 * 16 ^ length h" by simp
  from order_trans [OF this b] have v: "unat v < 2 ^ 28" by simp
  note step = shift_or_digit [OF hex_digit_bound [OF d] v]
  have "(16 * unat v + unat d + 1) * 16 ^ length h \<le> (unat v + 1) * 16 * 16 ^ length h"
    using hex_digit_bound [OF d] by (intro mult_le_mono1) simp
  with b have "(unat (push_bit 4 v OR d) + 1) * 16 ^ length h \<le> 2 ^ 32" unfolding step by linarith
  from Cons.IH [OF _ this] Cons.prems(1) d show ?case by (simp add: step)
qed simp

lemma hex4_num:
  assumes "is_hex h" "take 4 (drop i s) = h"
  shows "\<exists>w. hex4 s i = Some w \<and> unat w = hex_num h"
proof -
  have "i + 4 \<le> length s" using assms by (auto simp: is_hex_def)
  then show ?thesis
    using hex4_loop_num [of h 0] assms by (simp add: hex4_def is_hex_def hex_num_def)
qed

lemma hex_num_bound:
  assumes "is_hex h"
  shows "hex_num h < 2 ^ 16"
proof -
  have *: "foldl (\<lambda>n c. 16 * n + unat (the (hex_digit c))) n cs < (n + 1) * 16 ^ length cs"
    if "list_all (\<lambda>c. hex_digit c \<noteq> None) cs" for n cs
    using that
  proof (induction cs arbitrary: n)
    case (Cons c cs)
    then obtain d where d: "hex_digit c = Some d" by auto
    have "foldl (\<lambda>n c. 16 * n + unat (the (hex_digit c))) (16 * n + unat d) cs < (16 * n + unat d + 1) * 16 ^ length cs"
      using Cons.IH [of "16 * n + unat d"] Cons.prems by simp
    also have "\<dots> \<le> (n + 1) * 16 * 16 ^ length cs"
      using hex_digit_bound [OF d] by (intro mult_le_mono1) simp
    finally show ?case using d by (simp add: algebra_simps)
  qed simp
  show ?thesis using * [of h 0] assms by (simp add: is_hex_def hex_num_def)
qed

lemma low_bits: "unat (cp AND 0x3F :: u32) = unat cp mod 64"
proof -
  have "cp AND 0x3F = take_bit 6 cp" by (simp add: take_bit_eq_mask mask_eq_exp_minus_1)
  then show ?thesis by (simp add: take_bit_eq_mod unat_mod)
qed

lemma high_bits: "unat (drop_bit k cp :: u32) = unat cp div 2 ^ k"
  unfolding unat_drop_bit_eq by (simp only: drop_bit_eq_div)

lemma unat_or:
  assumes "a = push_bit k a'" "unat b < 2 ^ k" "unat a + unat b < 2 ^ 32"
  shows "unat (a OR b :: u32) = unat a + unat b"
proof -
  have "a OR b = of_nat (unat a + unat b)" using or_disjoint [OF assms(1,2)] by simp
  then show ?thesis using u32_of_nat [OF assms(3)] by simp
qed

lemma utf8_bytes:
  shows "unat (0x80 OR (cp AND 0x3F) :: u32) = 128 + unat cp mod 64"
    and "unat cp < 2 ^ 11 \<Longrightarrow> unat (0xC0 OR drop_bit 6 cp) = 192 + unat cp div 2 ^ 6"
    and "unat cp < 2 ^ 16 \<Longrightarrow> unat (0xE0 OR drop_bit 12 cp) = 224 + unat cp div 2 ^ 12"
    and "unat cp < 2 ^ 21 \<Longrightarrow> unat (0xF0 OR drop_bit 18 cp) = 240 + unat cp div 2 ^ 18"
proof -
  have m: "unat cp mod 64 < 64" by simp
  show "unat (0x80 OR (cp AND 0x3F) :: u32) = 128 + unat cp mod 64"
    by (subst unat_or [of _ 6 2]) (use m in \<open>simp_all add: low_bits push_bit_eq_mult\<close>)
  show "unat (0xC0 OR drop_bit 6 cp) = 192 + unat cp div 2 ^ 6" if "unat cp < 2 ^ 11"
    by (subst unat_or [of _ 6 3]) (use that in \<open>simp_all only: high_bits, simp_all add: push_bit_eq_mult\<close>)
  show "unat (0xE0 OR drop_bit 12 cp) = 224 + unat cp div 2 ^ 12" if "unat cp < 2 ^ 16"
    by (subst unat_or [of _ 5 7]) (use that in \<open>simp_all only: high_bits, simp_all add: push_bit_eq_mult\<close>)
  show "unat (0xF0 OR drop_bit 18 cp) = 240 + unat cp div 2 ^ 18" if "unat cp < 2 ^ 21"
    by (subst unat_or [of _ 4 15]) (use that in \<open>simp_all only: high_bits, simp_all add: push_bit_eq_mult\<close>)
qed

lemma appendUtf8_utf8:
  assumes "unat cp < 2 ^ 21"
  shows "appendUtf8 out cp = out @ map char_of (utf8 (unat cp))"
proof -
  have le: "cp \<le> 0x7F \<longleftrightarrow> unat cp < 2 ^ 7" "cp \<le> 0x7FF \<longleftrightarrow> unat cp < 2 ^ 11" "cp \<le> 0xFFFF \<longleftrightarrow> unat cp < 2 ^ 16"
    by (auto simp: word_le_nat_alt)
  show ?thesis
    using assms utf8_bytes [of cp]
    by (simp only: appendUtf8_def le to_char_def utf8_bytes(1) high_bits utf8_def)
      simp
qed

section \<open>Reference: JSON strings\<close>

text \<open>
  The characters of a JSON string as the grammar has them: a plain character, a two-character
  escape, a \<open>\u\<close> escape, and a pair of \<open>\u\<close> escapes for a code point above the basic plane;
  how each is written and which bytes it denotes.
\<close>

datatype json_item = Plain char | Escaped char | Code string | Surrogates string string

fun item_ok :: "json_item \<Rightarrow> bool" where
  "item_ok (Plain c) \<longleftrightarrow> c \<noteq> DQ \<and> c \<noteq> BSL"
| "item_ok (Escaped c) \<longleftrightarrow> c \<noteq> CHR ''u''"
| "item_ok (Code h) \<longleftrightarrow> is_hex h \<and> hex_num h \<notin> {0xD800..0xDBFF}"
| "item_ok (Surrogates h l) \<longleftrightarrow> is_hex h \<and> is_hex l \<and> hex_num h \<in> {0xD800..0xDBFF} \<and> hex_num l \<in> {0xDC00..0xDFFF}"

fun item_text :: "json_item \<Rightarrow> string" where
  "item_text (Plain c) = [c]"
| "item_text (Escaped c) = [BSL, c]"
| "item_text (Code h) = [BSL, CHR ''u''] @ h"
| "item_text (Surrogates h l) = [BSL, CHR ''u''] @ h @ [BSL, CHR ''u''] @ l"

definition escape_table :: "(char \<times> char) list" where
  "escape_table = [(CHR ''n'', LF), (CHR ''t'', TAB), (CHR ''r'', CR), (CHR ''b'', BS), (CHR ''f'', FF)]"

fun item_bytes :: "json_item \<Rightarrow> string" where
  "item_bytes (Plain c) = [c]"
| "item_bytes (Escaped c) = [case map_of escape_table c of None \<Rightarrow> c | Some d \<Rightarrow> d]"
| "item_bytes (Code h) = map char_of (utf8 (hex_num h))"
| "item_bytes (Surrogates h l) =
     map char_of (utf8 (0x10000 + (hex_num h - 0xD800) * 2 ^ 10 + (hex_num l - 0xDC00)))"

lemma simple_escape_table: "simple_escape c = (case map_of escape_table c of None \<Rightarrow> c | Some d \<Rightarrow> d)"
  by (simp add: simple_escape_def escape_table_def)

lemma nth_pre: "(pre @ s) ! (length pre + k) = s ! k"
  by (rule nth_append_length_plus)

lemma unicode_single:
  "\<lbrakk>hex4 body (i + 1) = Some cp; \<not> (0xD800 \<le> cp \<and> cp \<le> 0xDBFF)\<rbrakk> \<Longrightarrow>
   unicode_escape body i v = Inr (i + 4, appendUtf8 v cp)"
  by (auto simp: unicode_escape_def Let_def)

lemma unicode_pair:
  "\<lbrakk>hex4 body (i + 1) = Some cp; 0xD800 \<le> cp; cp \<le> 0xDBFF; i + 10 < length body; body ! (i + 5) = BSL;
    body ! (i + 6) = CHR ''u''; hex4 body (i + 7) = Some low; 0xDC00 \<le> low; low \<le> 0xDFFF\<rbrakk> \<Longrightarrow>
   unicode_escape body i v = Inr (i + 10, appendUtf8 v (0x10000 + push_bit 10 (cp - 0xD800) + (low - 0xDC00)))"
  by (simp add: unicode_escape_def Let_def add.commute [of i])

lemma code_item:
  assumes "is_hex h" "hex_num h \<notin> {0xD800..0xDBFF}" "body = pre @ [BSL, CHR ''u''] @ h @ suf"
  shows "unicode_escape body (length pre + 1) v = Inr (length pre + 1 + 4, v @ map char_of (utf8 (hex_num h)))"
proof -
  have "take 4 (drop (length pre + 1 + 1) body) = h" using assms(1,3) by (simp add: is_hex_def)
  from hex4_num [OF assms(1) this] obtain w where w: "hex4 body (length pre + 1 + 1) = Some w" "unat w = hex_num h"
    by blast
  have "\<not> (0xD800 \<le> w \<and> w \<le> 0xDBFF)" using assms(2) w(2) by (auto simp: word_le_nat_alt)
  moreover have "unat w < 2 ^ 21" using hex_num_bound [OF assms(1)] w(2) by simp
  ultimately show ?thesis using unicode_single [OF w(1)] appendUtf8_utf8 [of w] w(2) by simp
qed

lemma unat_pair:
  assumes "unat w \<in> {0xD800..0xDBFF}" "unat l \<in> {0xDC00..0xDFFF}"
  shows "unat (0x10000 + push_bit 10 (w - 0xD800) + (l - 0xDC00) :: u32) =
    0x10000 + (unat w - 0xD800) * 2 ^ 10 + (unat l - 0xDC00)"
proof -
  have "0x10000 + push_bit 10 (w - 0xD800) + (l - 0xDC00) =
      (of_nat (0x10000 + (unat w - 0xD800) * 2 ^ 10 + (unat l - 0xDC00)) :: u32)"
    using assms by (simp add: push_bit_eq_mult of_nat_diff)
  moreover have "(unat w - 0xD800) * 2 ^ 10 \<le> 1023 * 2 ^ 10" using assms(1) by (intro mult_le_mono1) auto
  then have "0x10000 + (unat w - 0xD800) * 2 ^ 10 + (unat l - 0xDC00) < 2 ^ 32" using assms(2) by simp
  ultimately show ?thesis by (simp only: u32_of_nat)
qed

lemma surrogates_item:
  assumes "is_hex h" "is_hex l" "hex_num h \<in> {0xD800..0xDBFF}" "hex_num l \<in> {0xDC00..0xDFFF}"
    "body = pre @ [BSL, CHR ''u''] @ h @ [BSL, CHR ''u''] @ l @ suf"
  shows "unicode_escape body (length pre + 1) v =
    Inr (length pre + 1 + 10, v @ map char_of (utf8 (0x10000 + (hex_num h - 0xD800) * 2 ^ 10 + (hex_num l - 0xDC00))))"
proof -
  have len: "length h = 4" "length l = 4" using assms(1,2) by (simp_all add: is_hex_def)
  have "take 4 (drop (length pre + 1 + 1) body) = h" using assms(5) len by simp
  from hex4_num [OF assms(1) this] obtain w where w: "hex4 body (length pre + 1 + 1) = Some w" "unat w = hex_num h"
    by blast
  have "take 4 (drop (length pre + 1 + 7) body) = l" using assms(5) len by simp
  from hex4_num [OF assms(2) this] obtain u where u: "hex4 body (length pre + 1 + 7) = Some u" "unat u = hex_num l"
    by blast
  have range: "0xD800 \<le> w" "w \<le> 0xDBFF" "0xDC00 \<le> u" "u \<le> 0xDFFF"
    using assms(3,4) w(2) u(2) by (auto simp: word_le_nat_alt)
  have chars: "length pre + 1 + 10 < length body" "body ! (length pre + 1 + 5) = BSL" "body ! (length pre + 1 + 6) = CHR ''u''"
    using assms(5) len by (simp_all add: nth_append)
  have num: "unat (0x10000 + push_bit 10 (w - 0xD800) + (u - 0xDC00)) =
    0x10000 + (hex_num h - 0xD800) * 2 ^ 10 + (hex_num l - 0xDC00)"
    using unat_pair [of w u] assms(3,4) w(2) u(2) by simp
  have "(hex_num h - 0xD800) * 2 ^ 10 \<le> 1023 * 2 ^ 10" using assms(3) by (intro mult_le_mono1) auto
  then have "unat (0x10000 + push_bit 10 (w - 0xD800) + (u - 0xDC00)) < 2 ^ 21"
    unfolding num using assms(4) by simp
  from appendUtf8_utf8 [OF this, of v] show ?thesis
    unfolding unicode_pair [OF w(1) range(1,2) chars u(1) range(3,4)] num by simp
qed

lemma string_char_item:
  assumes "item_ok it" "body = pre @ item_text it @ suf"
  shows "string_char body (length pre) v = Inr (length pre + length (item_text it) - 1, v @ item_bytes it)"
proof (cases it)
  case (Code h)
  then show ?thesis
    using assms code_item [of h body pre suf v] by (simp add: string_char_def nth_append is_hex_def)
next
  case (Surrogates h l)
  then show ?thesis
    using assms surrogates_item [of h l body pre suf v] by (simp add: string_char_def nth_append is_hex_def)
qed (use assms in \<open>simp_all add: string_char_def nth_append simple_escape_table\<close>)

lemma item_text_start: "item_ok it \<Longrightarrow> \<exists>c cs. item_text it = c # cs \<and> c \<noteq> DQ"
  by (cases it) auto

lemma string_loop_items:
  "\<lbrakk>list_all item_ok its; body = pre @ concat (map item_text its) @ DQ # post\<rbrakk> \<Longrightarrow>
   string_loop body (length pre) v = Inr (length pre + length (concat (map item_text its)), v @ concat (map item_bytes its))"
proof (induction its arbitrary: pre v)
  case Nil
  then show ?case by (subst string_loop.simps) (simp add: nth_append)
next
  case (Cons it its)
  have ok: "item_ok it" and body: "body = pre @ item_text it @ concat (map item_text its) @ DQ # post"
    using Cons.prems by simp_all
  obtain c cs where c: "item_text it = c # cs" "c \<noteq> DQ" using item_text_start [OF ok] by blast
  have guard: "length pre < length body \<and> body ! length pre \<noteq> DQ"
    unfolding body using c by (simp add: nth_append)
  have "string_loop body (length pre) v = string_loop body (length (pre @ item_text it)) (v @ item_bytes it)"
    using string_char_item [OF ok body, of v] c(1) guard by (subst string_loop.simps) simp
  also have "\<dots> = Inr (length (pre @ item_text it) + length (concat (map item_text its)), (v @ item_bytes it) @ concat (map item_bytes its))"
    by (rule Cons.IH) (use Cons.prems in simp_all)
  finally show ?case by simp
qed

lemma skip_blanks_run:
  "\<lbrakk>set b \<subseteq> {CHR '' '', TAB}; c \<noteq> CHR '' ''; c \<noteq> TAB; body = pre @ b @ c # post\<rbrakk> \<Longrightarrow>
   skip_blanks body (length pre) = length pre + length b"
proof (induction b arbitrary: pre)
  case Nil
  then show ?case by (subst skip_blanks.simps) (simp add: nth_append)
next
  case (Cons x b)
  have "skip_blanks body (length pre) = skip_blanks body (length (pre @ [x]))"
    using Cons.prems by (subst skip_blanks.simps) (auto simp: nth_append)
  with Cons.IH [of "pre @ [x]"] Cons.prems show ?case by simp
qed

lemma find_sub_first:
  "\<lbrakk>needle = c # cs; c \<notin> set pre\<rbrakk> \<Longrightarrow> find_sub needle (pre @ needle @ post) = Some (length pre)"
proof (induction pre)
  case Nil
  then show ?case by (simp add: prefix_def)
qed auto

lemma outer_chars:
  assumes "set w1 \<subseteq> set json_space" "set w2 \<subseteq> set json_space" "c \<notin> set json_space" "d \<notin> set json_space"
    "body = w1 @ c # m @ d # w2"
  shows "\<exists>i j. find_first_not_of json_space body = Some i \<and> body ! i = c \<and>
    find_last_not_of json_space body = Some j \<and> body ! j = d"
proof -
  have f: "find_first_not_of json_space body = Some (length w1)"
    unfolding find_first_not_of_def assms(5)
    by (rule first_index_hit) (use assms(1,3) in auto)
  have "first_index (\<lambda>x. x \<notin> set json_space) (rev w2 @ d # rev (w1 @ c # m)) = Some (length (rev w2))"
    by (rule first_index_hit) (use assms(2,4) in auto)
  then have "find_last_not_of json_space body = Some (length body - 1 - length w2)"
    by (simp add: find_last_not_of_def assms(5))
  moreover have "body ! (length body - 1 - length w2) = d"
  proof -
    have "length body - 1 - length w2 = length (w1 @ c # m)" using assms(5) by simp
    then show ?thesis unfolding assms(5) by (metis append_Cons append_assoc nth_append_length)
  qed
  ultimately show ?thesis using f assms(5) by (auto simp: nth_append)
qed

section \<open>Properties of the extraction\<close>

text \<open>The text of an object whose first string is the key.\<close>

definition field_text :: "string \<Rightarrow> string \<Rightarrow> string \<Rightarrow> string \<Rightarrow> json_item list \<Rightarrow> string \<Rightarrow> string" where
  "field_text pre key b1 b2 its post =
     ''{'' @ pre @ [DQ] @ key @ [DQ] @ b1 @ '':'' @ b2 @ [DQ] @ concat (map item_text its) @ [DQ] @ post @ ''}''"

lemma extract_found:
  assumes "set w1 \<subseteq> set json_space" "set w2 \<subseteq> set json_space" "DQ \<notin> set pre" "CHR '':'' \<notin> set b1"
    "set b2 \<subseteq> {CHR '' '', TAB}" "list_all item_ok its"
    "body = w1 @ field_text pre key b1 b2 its post @ w2"
  shows "jsonExtractString body key = Inr (concat (map item_bytes its))"
proof -
  let ?needle = "[DQ] @ key @ [DQ]"
  let ?txt = "concat (map item_text its)"
  let ?p1 = "w1 @ ''{'' @ pre" and ?p2 = "w1 @ ''{'' @ pre @ ?needle @ b1"
  let ?tail = "post @ ''}'' @ w2"
  have body: "body = ?p1 @ ?needle @ b1 @ '':'' @ b2 @ [DQ] @ ?txt @ [DQ] @ ?tail"
    unfolding assms(7) field_text_def by simp
  obtain i j where ij: "find_first_not_of json_space body = Some i" "body ! i = CHR ''{''"
    "find_last_not_of json_space body = Some j" "body ! j = CHR ''}''"
    using outer_chars [OF assms(1,2), of "CHR ''{''" "CHR ''}''" body
        "pre @ ?needle @ b1 @ '':'' @ b2 @ [DQ] @ ?txt @ [DQ] @ post"] body by auto
  have k: "find_sub ?needle body = Some (length ?p1)"
    unfolding body by (rule find_sub_first [where c = DQ and cs = "key @ [DQ]"]) (use assms(1,3) in auto)
  let ?rest = "b1 @ CHR '':'' # b2 @ [DQ] @ ?txt @ [DQ] @ ?tail"
  have "drop (length (?p1 @ ?needle)) ((?p1 @ ?needle) @ ?rest) = ?rest"
    by (rule append_eq_conv_conj [THEN iffD1, OF refl, THEN conjunct2, symmetric])
  moreover have "(?p1 @ ?needle) @ ?rest = body" by (simp add: body)
  ultimately have "drop (length ?p1 + length ?needle) body = ?rest" by (metis length_append)
  then have colon: "find_char (CHR '':'') body (length ?p1 + length ?needle) = Some (length ?p2)"
    using first_index_hit [of b1 "\<lambda>x. x = CHR '':''" "CHR '':''"] assms(4) by (auto simp: find_char_def)
  have skip: "skip_blanks body (length (?p2 @ '':'')) = length (?p2 @ '':'') + length b2"
    by (rule skip_blanks_run [where c = DQ]) (use assms(5) body in auto)
  have loop: "string_loop body (length (?p2 @ '':'' @ b2 @ [DQ])) [] =
      Inr (length (?p2 @ '':'' @ b2 @ [DQ]) + length ?txt, [] @ concat (map item_bytes its))"
    by (rule string_loop_items [OF assms(6), where post = ?tail]) (use body in simp)
  have quote: "body ! (length (?p2 @ '':'') + length b2) = DQ" "length (?p2 @ '':'') + length b2 < length body"
    "length (?p2 @ '':'' @ b2 @ [DQ]) + length ?txt < length body"
    unfolding body by (simp_all add: nth_append)
  from ij k colon skip loop quote show ?thesis
    unfolding jsonExtractString_def Let_def by (simp add: ac_simps)
qed

text \<open>
  C22: \<open>jsonExtractString\<close> decodes the string. For an object (with any white space around it) whose
  first string is the key, whatever follows the value, the result is the concatenation of the
  bytes its characters denote: plain bytes, the two-character escapes, \<open>\u\<close> escapes in UTF-8,
  and surrogate pairs as one four-byte code point.
\<close>

theorem json_extract_string:
  assumes "set w1 \<subseteq> set json_space" "set w2 \<subseteq> set json_space" "DQ \<notin> set pre" "CHR '':'' \<notin> set b1"
    "set b2 \<subseteq> {CHR '' '', TAB}" "list_all item_ok its"
  shows "jsonExtractString (w1 @ field_text pre key b1 b2 its post @ w2) key = Inr (concat (map item_bytes its))"
  using extract_found [OF assms refl] .

theorem json_extract_string_witness:
  "jsonExtractString ([LF] @ field_text '' '' ''url'' '' '' '' ''
       [Plain (CHR ''a''), Escaped (CHR ''/''), Escaped (CHR ''n''), Code ''4e2D'', Surrogates ''d83d'' ''de00'']
       '', 1'' @ [CR, LF]) ''url'' =
     Inr (concat (map item_bytes
       [Plain (CHR ''a''), Escaped (CHR ''/''), Escaped (CHR ''n''), Code ''4e2D'', Surrogates ''d83d'' ''de00''])) \<and>
   concat (map item_bytes
       [Plain (CHR ''a''), Escaped (CHR ''/''), Escaped (CHR ''n''), Code ''4e2D'', Surrogates ''d83d'' ''de00'']) =
     ''a/'' @ [LF] @ bytes [0xE4, 0xB8, 0xAD, 0xF0, 0x9F, 0x98, 0x80]"
proof
  let ?its = "[Plain (CHR ''a''), Escaped (CHR ''/''), Escaped (CHR ''n''), Code ''4e2D'', Surrogates ''d83d'' ''de00'']"
  have "list_all item_ok ?its" by (simp add: is_hex_def hex_num_def hex_digit_def Let_def)
  then show "jsonExtractString ([LF] @ field_text '' '' ''url'' '' '' '' '' ?its '', 1'' @ [CR, LF]) ''url'' =
      Inr (concat (map item_bytes ?its))"
    by (intro json_extract_string) simp_all
  show "concat (map item_bytes ?its) = ''a/'' @ [LF] @ bytes [0xE4, 0xB8, 0xAD, 0xF0, 0x9F, 0x98, 0x80]"
    by (simp add: hex_num_def hex_digit_def Let_def utf8_def escape_table_def bytes_def)
qed

text \<open>
  What \<open>jsonExtractString\<close> refuses: a body that is empty or blank, one whose first or last
  character other than white space is not a brace (a truncated object in particular), and one
  in which the quoted key does not occur.
\<close>

theorem json_extract_refuses:
  "(set body \<subseteq> set json_space \<longrightarrow> jsonExtractString body key = Inl msg_not_object) \<and>
   (\<forall>w1 c m d w2. body = w1 @ c # m @ d # w2 \<longrightarrow> set w1 \<subseteq> set json_space \<longrightarrow> set w2 \<subseteq> set json_space \<longrightarrow>
      c \<notin> set json_space \<longrightarrow> d \<notin> set json_space \<longrightarrow>
      (c \<noteq> CHR ''{'' \<or> d \<noteq> CHR ''}'' \<longrightarrow> jsonExtractString body key = Inl msg_not_object) \<and>
      (c = CHR ''{'' \<and> d = CHR ''}'' \<and> \<not> sublist ([DQ] @ key @ [DQ]) body \<longrightarrow>
         jsonExtractString body key = Inl (msg_missing_field @ key)))"
proof (intro conjI impI allI)
  assume "set body \<subseteq> set json_space"
  then have "find_first_not_of json_space body = None" by (auto simp: find_first_not_of_def first_index_None)
  then show "jsonExtractString body key = Inl msg_not_object" by (simp add: jsonExtractString_def)
next
  fix w1 c m d w2
  assume b: "body = w1 @ c # m @ d # w2" "set w1 \<subseteq> set json_space" "set w2 \<subseteq> set json_space"
    "c \<notin> set json_space" "d \<notin> set json_space"
  note outer = outer_chars [OF b(2-5,1)]
  show "jsonExtractString body key = Inl msg_not_object" if "c \<noteq> CHR ''{'' \<or> d \<noteq> CHR ''}''"
    using outer that unfolding jsonExtractString_def by fastforce
  show "jsonExtractString body key = Inl (msg_missing_field @ key)"
    if "c = CHR ''{'' \<and> d = CHR ''}'' \<and> \<not> sublist ([DQ] @ key @ [DQ]) body"
    using outer that find_sub_None [of "[DQ] @ key @ [DQ]" body] by (auto simp: jsonExtractString_def)
qed

theorem json_extract_refuses_witness:
  "jsonExtractString [LF] ''url'' = Inl msg_not_object \<and>
   jsonExtractString (''{'' @ ''url'') ''url'' = Inl msg_not_object \<and>
   jsonExtractString ''{1}'' ''url'' = Inl (msg_missing_field @ ''url'')"
proof (intro conjI)
  show "jsonExtractString [LF] ''url'' = Inl msg_not_object"
    using json_extract_refuses [of "[LF]" "''url''"] by simp
  show "jsonExtractString (''{'' @ ''url'') ''url'' = Inl msg_not_object"
    using json_extract_refuses [of "''{url''" "''url''", THEN conjunct2, rule_format, of "[]" "CHR ''{''" "''ur''" "CHR ''l''" "[]"]
    by simp
  have "\<not> sublist ([DQ] @ ''url'' @ [DQ]) ''{1}''" by code_simp
  then show "jsonExtractString ''{1}'' ''url'' = Inl (msg_missing_field @ ''url'')"
    using json_extract_refuses [of "''{1}''" "''url''", THEN conjunct2, rule_format, of "[]" "CHR ''{''" "''1''" "CHR ''}''" "[]"]
    by simp
qed

section \<open>Properties of the routes\<close>

text \<open>What every branch of \<open>handle\<close> delivers.\<close>

definition answered :: "app \<Rightarrow> (http_response \<times> app) option \<Rightarrow> bool" where
  "answered a res \<longleftrightarrow> (\<exists>r a'. res = Some (r, a') \<and> service_ok (app_service a') \<and>
     app_host a' = app_host a \<and> app_metrics_source a' = app_metrics_source a \<and>
     rs_status r \<in> {200, 201, 302, 400, 404, 405})"

lemma answered_shorten:
  assumes "service_ok (app_service a)" "counter (app_service a) \<noteq> -1"
  shows "answered a (handleShorten now req resp a)"
proof (cases "jsonExtractString (rq_body req) ''url''")
  case (Inr url)
  then show ?thesis
    using links_shorten [OF assms, of now url] assms(1)
    by (cases "validUrl url") (auto simp: answered_def handleShorten_def badRequest_def setJson_def)
qed (use assms in \<open>simp add: answered_def handleShorten_def badRequest_def setJson_def\<close>)

lemma answered_redirect:
  assumes "service_ok (app_service a)"
  shows "answered a (Some (handleRedirect code resp a))"
  using service_ok_lookup [OF assms, of code] assms
  by (auto simp: answered_def handleRedirect_def badRequest_def notFound_def setJson_def split: prod.split option.split)

lemma answered_stats:
  assumes "service_ok (app_service a)" "rs_status resp = 200"
  shows "answered a (Some (handleStats code resp a, a))"
  using assms by (auto simp: answered_def handleStats_def badRequest_def notFound_def setJson_def split: option.split)

lemma answered_fixed:
  assumes "service_ok (app_service a)"
  shows "answered a (Some (methodNotAllowed m d resp, a))" "answered a (Some (notFound resp, a))"
    "rs_status resp = 200 \<Longrightarrow> answered a (Some (resp\<lparr>rs_body := b\<rparr>, a))"
    "rs_status resp = 200 \<Longrightarrow> answered a (Some (resp\<lparr>rs_content_type := t, rs_body := b\<rparr>, a))"
  using assms by (simp_all add: answered_def methodNotAllowed_def notFound_def setJson_def)

lemma handle_answered:
  "\<lbrakk>service_ok (app_service a); counter (app_service a) \<noteq> -1; rs_status resp = 200\<rbrakk> \<Longrightarrow>
   answered a (handle now req resp a)"
  unfolding handle_def Let_def
  by (simp add: answered_fixed answered_stats answered_redirect answered_shorten)

text \<open>
  every request is answered and the tables stay consistent. From a consistent service whose
  counter has room, \<open>handle\<close> returns, keeps the invariant, leaves host and metrics source alone,
  and answers a response that came in with status 200 with one of the six documented codes.
\<close>

theorem handle_returns:
  assumes "service_ok (app_service a)" "counter (app_service a) \<noteq> -1" "rs_status resp = 200"
  shows "\<exists>r a'. handle now req resp a = Some (r, a') \<and> service_ok (app_service a') \<and>
    app_host a' = app_host a \<and> app_metrics_source a' = app_metrics_source a \<and>
    rs_status r \<in> {200, 201, 302, 400, 404, 405}"
  using handle_answered [OF assms] unfolding answered_def .

theorem handle_returns_witness:
  "\<exists>r a'. handle 5 (new_HttpRequest\<lparr>rq_method := ''GET'', rq_path := ''/abc''\<rparr>) new_HttpResponse (new_ShortUrlApp ''h'') = Some (r, a') \<and>
    service_ok (app_service a') \<and> app_host a' = app_host (new_ShortUrlApp ''h'') \<and>
    app_metrics_source a' = app_metrics_source (new_ShortUrlApp ''h'') \<and>
    rs_status r \<in> {200, 201, 302, 400, 404, 405}"
proof (rule handle_returns)
  show "service_ok (app_service (new_ShortUrlApp ''h''))" by (simp add: new_ShortUrlApp_def)
  show "counter (app_service (new_ShortUrlApp ''h'')) \<noteq> -1"
    by (simp add: new_ShortUrlApp_def new_ShortUrlService_def)
  show "rs_status new_HttpResponse = 200" by (simp add: new_HttpResponse_def)
qed

definition allowed_method :: "string \<Rightarrow> string option" where
  "allowed_method path =
     (if path = ''/api/shorten'' then Some ''POST''
      else if path \<noteq> [] \<and> hd path = CHR ''/'' \<and> length path > 1 then Some ''GET'' else None)"

text \<open>
  Methods. Every route answers a request with the wrong method with 405, an \<open>Allow\<close> header
  naming the right one, and without touching the tables.
\<close>

theorem wrong_method_refused:
  assumes "allowed_method (rq_path req) = Some m" "rq_method req \<noteq> m"
  shows "\<exists>r. handle now req resp a = Some (r, a) \<and> rs_status r = 405 \<and>
    rs_extra_headers r = rs_extra_headers resp @ [(''Allow'', m)]"
  using assms
  by (auto simp: handle_def Let_def allowed_method_def methodNotAllowed_def setJson_def hd_conv_nth
      split: if_splits)

theorem wrong_method_refused_witness:
  "\<exists>r. handle 5 (new_HttpRequest\<lparr>rq_method := ''GET'', rq_path := ''/api/shorten''\<rparr>) new_HttpResponse (new_ShortUrlApp ''h'') =
      Some (r, new_ShortUrlApp ''h'') \<and> rs_status r = 405 \<and>
    rs_extra_headers r = rs_extra_headers new_HttpResponse @ [(''Allow'', ''POST'')]"
  by (rule wrong_method_refused) (simp_all add: allowed_method_def)

section \<open>A created link works over HTTP\<close>

text \<open>Each request gets a fresh response, and the state is passed on.\<close>

fun serve :: "(int \<times> http_request) list \<Rightarrow> app \<Rightarrow> (http_response list \<times> app) option" where
  "serve [] a = Some ([], a)"
| "serve ((now, req) # rs) a =
     (case handle now req new_HttpResponse a of
        None \<Rightarrow> None
      | Some (r, a') \<Rightarrow> map_option (apfst ((#) r)) (serve rs a'))"

lemma handle_is_step:
  assumes "handle now req resp a = Some (r, a')"
  shows "app_service a' = app_service a \<or> (\<exists>op. links.step op (app_service a) = Some (app_service a'))"
proof -
  have sh: "handleShorten now req resp a = Some (r, a') \<Longrightarrow>
      app_service a' = app_service a \<or> (\<exists>op. links.step op (app_service a) = Some (app_service a'))"
    by (auto simp: handleShorten_def split: sum.splits option.splits intro: exI [of _ "Shorten now _"])
      (metis links.step.simps(1) option.map(2) snd_conv)
  have rd: "app_service (snd (handleRedirect c resp a)) = app_service a \<or>
      (\<exists>op. links.step op (app_service a) = Some (app_service (snd (handleRedirect c resp a))))" for c
    by (auto simp: handleRedirect_def split: prod.split option.split intro!: exI [of _ "Visit c"])
  show ?thesis
    using assms sh rd [of "drop 1 (rq_path req)"] unfolding handle_def Let_def
    by (auto split: if_splits)
qed

lemma handle_keeps:
  assumes "service_ok (app_service a)" "codes_used (app_service a) < 2 ^ 64 - 1"
  shows "\<exists>r a'. handle now req new_HttpResponse a = Some (r, a') \<and> service_ok (app_service a') \<and>
    codes_used (app_service a') \<le> Suc (codes_used (app_service a)) \<and>
    (\<forall>c u h. links (app_service a) c = Some (u, h) \<longrightarrow> (\<exists>h'. links (app_service a') c = Some (u, h')))"
proof -
  have "counter (app_service a) \<noteq> -1"
    using assms(2) by (auto simp: codes_used_def unsigned_minus_1_eq_mask mask_eq_exp_minus_1)
  moreover have "rs_status new_HttpResponse = 200" by (simp add: new_HttpResponse_def)
  ultimately obtain r a' where h: "handle now req new_HttpResponse a = Some (r, a')" "service_ok (app_service a')"
    using handle_answered [OF assms(1)] unfolding answered_def by blast
  from handle_is_step [OF h(1)] show ?thesis
  proof
    assume "\<exists>op. links.step op (app_service a) = Some (app_service a')"
    then obtain op where "links.step op (app_service a) = Some (app_service a')" by blast
    with links.step_keeps [OF assms, of op] h show ?thesis by auto
  qed (use h in auto)
qed

lemma serve_keeps:
  "\<lbrakk>service_ok (app_service a); codes_used (app_service a) + length rs \<le> 2 ^ 64 - 1\<rbrakk> \<Longrightarrow>
   \<exists>out a'. serve rs a = Some (out, a') \<and> length out = length rs \<and> service_ok (app_service a') \<and>
    (\<forall>c u h. links (app_service a) c = Some (u, h) \<longrightarrow> (\<exists>h'. links (app_service a') c = Some (u, h')))"
proof (induction rs arbitrary: a)
  case (Cons x rs)
  obtain now req where x: "x = (now, req)" by (cases x)
  obtain r a1 where 1: "handle now req new_HttpResponse a = Some (r, a1)" "service_ok (app_service a1)"
    "codes_used (app_service a1) \<le> Suc (codes_used (app_service a))"
    "\<forall>c u h. links (app_service a) c = Some (u, h) \<longrightarrow> (\<exists>h'. links (app_service a1) c = Some (u, h'))"
    using handle_keeps [of a now req] Cons.prems by auto
  obtain out a2 where 2: "serve rs a1 = Some (out, a2)" "length out = length rs" "service_ok (app_service a2)"
    "\<forall>c u h. links (app_service a1) c = Some (u, h) \<longrightarrow> (\<exists>h'. links (app_service a2) c = Some (u, h'))"
    using Cons.IH [of a1] 1 Cons.prems by auto
  have "\<exists>h'. links (app_service a2) c = Some (u, h')" if "links (app_service a) c = Some (u, h)" for c u h
    using 1(4) 2(4) that by blast
  then show ?case using 1 2 x by (intro exI [of _ "r # out"] exI [of _ a2]) simp
qed simp

lemma redirect_path:
  assumes "rq_method req = ''GET''" "rq_path req = CHR ''/'' # code" "validCode code" "length code \<le> 6"
  shows "handle now req resp a = Some (handleRedirect code resp a)"
proof -
  have no_slash: "CHR ''/'' \<notin> set code"
    using assms(3) by (auto simp: validCode_def list_all_iff isalnum_def isdigit_def isupper_def islower_def)
  have "code \<noteq> ''healthz''" "code \<noteq> ''metrics''" using assms(4) by auto
  moreover have "code \<noteq> ''api/shorten''" "\<not> prefix ''api/stats/'' code"
    using no_slash by (auto simp: prefix_def)
  moreover have "code \<noteq> []" using assms(3) by (simp add: validCode_def)
  ultimately show ?thesis using assms(1,2) by (simp add: handle_def Let_def)
qed

lemma handleRedirect_hit:
  assumes "service_ok (app_service a)" "links (app_service a) code = Some (url, h)" "validCode code"
  shows "rs_status (fst (handleRedirect code resp a)) = 302 \<and>
    rs_extra_headers (fst (handleRedirect code resp a)) =
      rs_extra_headers resp @ [(''Location'', url), (''Cache-Control'', ''no-store'')] \<and>
    links (app_service (snd (handleRedirect code resp a))) code = Some (url, h + 1)"
proof -
  obtain e where e: "um_find (by_code (app_service a)) code = Some e" "e_url e = url" "e_hits e = h"
    using assms(2) by (auto simp: links_def)
  have "links (snd (lookup code (app_service a))) code = Some (url, h + 1)"
    using links.visit_view [OF assms(1)] assms(2) by simp
  with e assms(3) show ?thesis by (simp add: handleRedirect_def lookup_hit)
qed

lemma issued_code:
  assumes "service_ok s" "links s c = Some x" "unat (counter s) + 100000 < 62 ^ 6"
  shows "validCode c \<and> length c \<le> 6"
proof -
  have f: "um_find (by_code s) c \<noteq> None" using assms(2) by (auto simp: links_def)
  then obtain n where n: "c = base62 n" "n \<le> counter s"
    using assms(1) unfolding service_ok_def by blast
  then have "unat n + 100000 < 62 ^ 6" using assms(3) by (simp add: word_le_nat_alt)
  moreover have "n + 100000 = of_nat (unat n + 100000)" by simp
  ultimately have "unat (n + 100000) < 62 ^ 6" by (simp only:) (simp add: unat_of_nat del: of_nat_add)
  then have "length c \<le> 6" unfolding n(1) base62_def by (subst base62_loop_length) simp_all
  moreover have "c \<noteq> []" unfolding n(1) base62_def by (subst base62_loop_induct_simps) simp
  ultimately show ?thesis using base62_loop_alnum [of "n + 100000"] n(1) by (simp add: validCode_def base62_def)
qed

lemma handleShorten_created:
  assumes "service_ok (app_service a)" "counter (app_service a) \<noteq> -1" "rq_method req = ''POST''"
    "rq_path req = ''/api/shorten''" "jsonExtractString (rq_body req) ''url'' = Inr url" "validUrl url = None"
  shows "\<exists>code s. handle now req resp a =
      Some (setJson (created_json (app_host a) code url) (resp\<lparr>rs_status := 201\<rparr>), a\<lparr>app_service := s\<rparr>) \<and>
    service_ok s \<and> codes_used s \<le> Suc (codes_used (app_service a)) \<and> (\<exists>h. links s code = Some (url, h))"
proof -
  obtain c s where "shorten now url (app_service a) = Some (c, s)" "service_ok s" "codes_used s \<le> Suc (codes_used (app_service a))"
    "links s = (if \<exists>h. links (app_service a) c = Some (url, h) then links (app_service a) else (links (app_service a))(c \<mapsto> (url, 0)))"
    using links_shorten [OF assms(1,2), of now url] by blast
  moreover from this(4) have "\<exists>h. links s c = Some (url, h)" by (simp split: if_splits)
  ultimately show ?thesis
    using assms(3-6) by (intro exI [of _ c] exI [of _ s]) (simp add: handle_def Let_def handleShorten_def)
qed

text \<open>
  C5: a created link redirects. A \<open>POST /api/shorten\<close> whose body holds a valid url is answered
  201 with a code, and after any sequence of other requests \<open>GET /<code>\<close> is answered 302 with
  the url as \<open>Location\<close>. The bound on the counter keeps codes within six characters, below the
  seven of the reserved names.
\<close>

theorem created_link_redirects:
  assumes "service_ok (app_service a)" "unat (counter (app_service a)) + length rs + 100001 < 62 ^ 6"
    "rq_method req = ''POST''" "rq_path req = ''/api/shorten''"
    "jsonExtractString (rq_body req) ''url'' = Inr url" "validUrl url = None"
  shows "\<exists>code r a1 out a2. handle now req new_HttpResponse a = Some (r, a1) \<and> rs_status r = 201 \<and>
    rs_body r = created_json (app_host a) code url \<and> serve rs a1 = Some (out, a2) \<and>
    (\<exists>r' a3. handle now' (new_HttpRequest\<lparr>rq_method := ''GET'', rq_path := CHR ''/'' # code\<rparr>) new_HttpResponse a2 = Some (r', a3) \<and>
       rs_status r' = 302 \<and> rs_extra_headers r' = [(''Location'', url), (''Cache-Control'', ''no-store'')])"
proof -
  have "counter (app_service a) \<noteq> -1"
    using assms(2) by (auto simp: unsigned_minus_1_eq_mask mask_eq_exp_minus_1)
  from handleShorten_created [OF assms(1) this assms(3-6), of now new_HttpResponse] obtain code s h where
    1: "handle now req new_HttpResponse a = Some (setJson (created_json (app_host a) code url) (new_HttpResponse\<lparr>rs_status := 201\<rparr>), a\<lparr>app_service := s\<rparr>)"
    "service_ok s" "codes_used s \<le> Suc (codes_used (app_service a))" "links s code = Some (url, h)" by blast
  obtain out a2 h' where 2: "serve rs (a\<lparr>app_service := s\<rparr>) = Some (out, a2)" "service_ok (app_service a2)"
    "links (app_service a2) code = Some (url, h')"
    using serve_keeps [of "a\<lparr>app_service := s\<rparr>" rs] 1 assms(2) by (fastforce simp: codes_used_def)
  have v: "validCode code \<and> length code \<le> 6"
    using issued_code [OF 1(2,4)] 1(3) assms(2) by (simp add: codes_used_def)
  let ?get = "new_HttpRequest\<lparr>rq_method := ''GET'', rq_path := CHR ''/'' # code\<rparr>"
  have "handle now' ?get new_HttpResponse a2 = Some (handleRedirect code new_HttpResponse a2)"
    using v by (intro redirect_path) simp_all
  moreover note handleRedirect_hit [OF 2(2,3), of new_HttpResponse]
  moreover have "rs_extra_headers new_HttpResponse = []" by (simp add: new_HttpResponse_def)
  ultimately show ?thesis
    using 1(1) 2(1) v by (cases "handleRedirect code new_HttpResponse a2") (auto simp: setJson_def)
qed

definition sample_post :: http_request where
  "sample_post = new_HttpRequest\<lparr>rq_method := ''POST'', rq_path := ''/api/shorten'',
     rq_body := field_text [] ''url'' [] [] (map Plain ''http://a'') []\<rparr>"

lemma sample_post_url: "jsonExtractString (rq_body sample_post) ''url'' = Inr ''http://a''"
  using extract_found [of "[]" "[]" "[]" "[]" "[]" "map Plain ''http://a''" _ "''url''" "[]", OF _ _ _ _ _ _ refl]
  by (simp add: sample_post_def)

theorem created_link_redirects_witness:
  "\<exists>code r a1 out a2. handle 1 sample_post new_HttpResponse (new_ShortUrlApp ''h'') = Some (r, a1) \<and> rs_status r = 201 \<and>
    rs_body r = created_json (app_host (new_ShortUrlApp ''h'')) code ''http://a'' \<and> serve [(2, sample_post)] a1 = Some (out, a2) \<and>
    (\<exists>r' a3. handle 3 (new_HttpRequest\<lparr>rq_method := ''GET'', rq_path := CHR ''/'' # code\<rparr>) new_HttpResponse a2 = Some (r', a3) \<and>
       rs_status r' = 302 \<and> rs_extra_headers r' = [(''Location'', ''http://a''), (''Cache-Control'', ''no-store'')])"
proof (rule created_link_redirects)
  show "service_ok (app_service (new_ShortUrlApp ''h''))" by (simp add: new_ShortUrlApp_def)
  show "unat (counter (app_service (new_ShortUrlApp ''h''))) + length [(2 :: int, sample_post)] + 100001 < 62 ^ 6"
    by (simp add: new_ShortUrlApp_def new_ShortUrlService_def)
qed (simp_all add: sample_post_url, simp_all add: sample_post_def validUrl_def)

section \<open>Statistics and metrics\<close>

text \<open>
  \<open>GET /api/stats/<code>\<close> reports the entry without changing it, and the answer is the
  complete JSON object exactly when that object has at most 511 characters: the stack buffer of
  512 bytes cuts a longer one, although links of up to 2048 bytes are accepted.
\<close>

theorem stats_answer:
  assumes "rq_method req = ''GET''" "rq_path req = ''/api/stats/'' @ code" "validCode code"
    "stats code (app_service a) = Some e"
  shows "\<exists>r. handle now req resp a = Some (r, a) \<and> rs_status r = rs_status resp \<and>
    rs_body r = take 511 (stats_json code e) \<and>
    (rs_body r = stats_json code e \<longleftrightarrow> length (stats_json code e) < 512)"
  using assms by (auto simp: handle_def Let_def handleStats_def setJson_def snprintf_def)

definition long_entry :: entry where
  "long_entry = \<lparr>e_url = ''http://'' @ replicate 600 (CHR ''x''), e_hits = 3, e_created_at = 17\<rparr>"

theorem stats_answer_witness:
  "\<exists>r. handle 1 (new_HttpRequest\<lparr>rq_method := ''GET'', rq_path := ''/api/stats/'' @ ''q0U''\<rparr>) new_HttpResponse
      ((new_ShortUrlApp ''h'')\<lparr>app_service := new_ShortUrlService\<lparr>by_code := [(''q0U'', long_entry)]\<rparr>\<rparr>) =
     Some (r, (new_ShortUrlApp ''h'')\<lparr>app_service := new_ShortUrlService\<lparr>by_code := [(''q0U'', long_entry)]\<rparr>\<rparr>) \<and>
     rs_status r = rs_status new_HttpResponse \<and> rs_body r = take 511 (stats_json ''q0U'' long_entry) \<and>
     (rs_body r = stats_json ''q0U'' long_entry \<longleftrightarrow> length (stats_json ''q0U'' long_entry) < 512)"
proof (rule stats_answer)
  show "validCode ''q0U''" by code_simp
qed (simp_all add: stats_def)

text \<open>
  The metrics lines. \<open>appendMetrics\<close> appends three lines with the counters in decimal, none
  of them cut by its buffer.
\<close>

theorem metrics_lines:
  assumes "stored s < 2 ^ 64"
  shows "appendMetrics out s = out @
    ''shorten_total '' @ show_nat (unat (shorten_total s)) @ [LF] @
    ''redirect_total '' @ show_nat (unat (redirect_total s)) @ [LF] @
    ''stored_codes '' @ show_nat (stored s) @ [LF]"
proof -
  have b: "length (show_nat n) \<le> 20" if "n < 2 ^ 64" for n
    using that by (intro show_nat_length) simp_all
  have w: "length (show_nat (unat (x :: u64))) \<le> 20" for x
    using unsigned_less [of x] by (intro b) simp
  show ?thesis
    using b [OF assms] w [of "shorten_total s"] w [of "redirect_total s"] by (simp add: appendMetrics_def)
qed

theorem metrics_lines_witness:
  "appendMetrics ''x'' new_ShortUrlService = ''x'' @
    ''shorten_total '' @ show_nat (unat (shorten_total new_ShortUrlService)) @ [LF] @
    ''redirect_total '' @ show_nat (unat (redirect_total new_ShortUrlService)) @ [LF] @
    ''stored_codes '' @ show_nat (stored new_ShortUrlService) @ [LF]"
  by (rule metrics_lines) (simp add: stored_def new_ShortUrlService_def)

section \<open>A shadowed code and an injected header\<close>

text \<open>
  A reserved path shadows a code. The counter value 2,004,015,961,541 yields the valid code
  \<open>healthz\<close>; a request for it is answered by the health check, whatever the tables hold, so
  the link of that code cannot be followed.
\<close>

theorem reserved_code_shadowed:
  "\<exists>n. base62 n = ''healthz'' \<and> validCode (base62 n) \<and>
     (\<forall>now a. handle now (new_HttpRequest\<lparr>rq_method := ''GET'', rq_path := CHR ''/'' # base62 n\<rparr>) new_HttpResponse a =
        Some (new_HttpResponse\<lparr>rs_body := ''ok''\<rparr>, a))"
proof -
  let ?n = "2004015961541 :: u64"
  have "base62 ?n = ''healthz''" by code_simp
  moreover have "validCode ''healthz''" by code_simp
  ultimately show ?thesis by (intro exI [of _ ?n]) (simp add: handle_def)
qed

text \<open>A request whose url carries a line break, written with JSON escapes.\<close>

definition injecting_post :: "string \<Rightarrow> http_request" where
  "injecting_post line = new_HttpRequest\<lparr>rq_method := ''POST'', rq_path := ''/api/shorten'',
     rq_body := field_text [] ''url'' [] []
       (map Plain ''http://a'' @ [Escaped (CHR ''r''), Escaped (CHR ''n'')] @ map Plain line) []\<rparr>"

lemma injecting_post_url:
  assumes "DQ \<notin> set line" "BSL \<notin> set line"
  shows "jsonExtractString (rq_body (injecting_post line)) ''url'' = Inr (''http://a'' @ CRLF @ line)"
proof -
  have "concat (map item_bytes (map Plain l)) = l" for l by (induction l) auto
  moreover have "list_all item_ok (map Plain line)" using assms by (auto simp: list_all_iff)
  ultimately show ?thesis
    unfolding injecting_post_def
    using extract_found [of "[]" "[]" "[]" "[]" "[]"
        "map Plain ''http://a'' @ [Escaped (CHR ''r''), Escaped (CHR ''n'')] @ map Plain line" _ "''url''" "[]", OF _ _ _ _ _ _ refl]
    by (simp add: escape_table_def)
qed

lemma split_location:
  assumes "rs_status r = 302" "rs_body r = []" "rs_content_type r = rs_content_type new_HttpResponse"
    "rs_extra_headers r = [(''Location'', u @ CRLF @ line), (''Cache-Control'', ''no-store'')]"
    "CR \<notin> set u" "CR \<notin> set line" "line \<noteq> []"
  shows "\<exists>ls. split_head (serialize r) = Some (ls @ [''Location: '' @ u, line, ''Cache-Control: no-store''], [])"
proof -
  let ?ls = "take 4 (head_lines r) @ [''Location: '' @ u, line, ''Cache-Control: no-store'']"
  have "serialize r = unlines (head_lines r) @ CRLF @ []"
    by (subst serialize_lines) (simp_all add: assms(1,2) int32_def)
  also have "unlines (head_lines r) = unlines ?ls"
    using assms(4) by (simp add: unlines_def head_lines_def)
  finally have s: "serialize r = unlines ?ls @ CRLF @ []" .
  have ok: "\<forall>l \<in> set ?ls. l \<noteq> [] \<and> CR \<notin> set l"
    using assms by (auto simp: head_lines_def new_HttpResponse_def)
  show ?thesis unfolding s by (subst split_head_unlines [OF ok]) blast
qed

text \<open>
  C39: header injection. \<open>validUrl\<close> looks at the scheme and the length only, and \<open>\r\n\<close> escapes of
  the request become a line break of the stored url. A client can therefore add any header line
  to the response of the redirect: the line appears as a line of its own after \<open>Location\<close>.
\<close>

theorem redirect_header_injection:
  assumes "service_ok (app_service a)" "unat (counter (app_service a)) + 100001 < 62 ^ 6"
    "line \<noteq> []" "length line \<le> 2000" "DQ \<notin> set line" "BSL \<notin> set line" "CR \<notin> set line"
  shows "\<exists>code r a1 r' a2 ls. handle now (injecting_post line) new_HttpResponse a = Some (r, a1) \<and> rs_status r = 201 \<and>
    handle now' (new_HttpRequest\<lparr>rq_method := ''GET'', rq_path := CHR ''/'' # code\<rparr>) new_HttpResponse a1 = Some (r', a2) \<and>
    split_head (serialize r') = Some (ls @ [''Location: http://a'', line, ''Cache-Control: no-store''], [])"
proof -
  let ?url = "''http://a'' @ CRLF @ line"
  have "counter (app_service a) \<noteq> -1"
    using assms(2) by (auto simp: unsigned_minus_1_eq_mask mask_eq_exp_minus_1)
  moreover have "validUrl ?url = None" using assms(4) by (simp add: validUrl_def)
  moreover have "rq_method (injecting_post line) = ''POST''" "rq_path (injecting_post line) = ''/api/shorten''"
    by (simp_all add: injecting_post_def)
  ultimately obtain code s h where
    1: "handle now (injecting_post line) new_HttpResponse a = Some (setJson (created_json (app_host a) code ?url) (new_HttpResponse\<lparr>rs_status := 201\<rparr>), a\<lparr>app_service := s\<rparr>)"
    "service_ok s" "codes_used s \<le> Suc (codes_used (app_service a))" "links s code = Some (?url, h)"
    using handleShorten_created [OF assms(1) _ _ _ injecting_post_url [OF assms(5,6)], of now new_HttpResponse] by blast
  have v: "validCode code \<and> length code \<le> 6"
    using issued_code [OF 1(2,4)] 1(3) assms(2) by (simp add: codes_used_def)
  let ?a1 = "a\<lparr>app_service := s\<rparr>"
  let ?r = "fst (handleRedirect code new_HttpResponse ?a1)"
  obtain e where e: "um_find (by_code s) code = Some e" "e_url e = ?url" using 1(4) by (auto simp: links_def)
  have "\<exists>ls. split_head (serialize ?r) = Some (ls @ [''Location: '' @ ''http://a'', line, ''Cache-Control: no-store''], [])"
    by (rule split_location) (use e v assms(3,7) in \<open>simp_all add: handleRedirect_def lookup_hit new_HttpResponse_def\<close>)
  then obtain ls where "split_head (serialize ?r) = Some (ls @ [''Location: http://a'', line, ''Cache-Control: no-store''], [])" by auto
  moreover have "handle now' (new_HttpRequest\<lparr>rq_method := ''GET'', rq_path := CHR ''/'' # code\<rparr>) new_HttpResponse ?a1 =
      Some (?r, snd (handleRedirect code new_HttpResponse ?a1))"
    using v by (subst redirect_path) simp_all
  moreover note 1(1)
  moreover have "rs_status (setJson j (q\<lparr>rs_status := 201\<rparr>)) = 201" for j q by (simp add: setJson_def)
  ultimately show ?thesis by metis
qed

theorem redirect_header_injection_witness:
  "\<exists>code r a1 r' a2 ls. handle 1 (injecting_post ''Set-Cookie: a=b'') new_HttpResponse (new_ShortUrlApp ''h'') = Some (r, a1) \<and> rs_status r = 201 \<and>
    handle 2 (new_HttpRequest\<lparr>rq_method := ''GET'', rq_path := CHR ''/'' # code\<rparr>) new_HttpResponse a1 = Some (r', a2) \<and>
    split_head (serialize r') = Some (ls @ [''Location: http://a'', ''Set-Cookie: a=b'', ''Cache-Control: no-store''], [])"
  by (rule redirect_header_injection) (simp_all add: new_ShortUrlApp_def, simp add: new_ShortUrlService_def)

end
