(* ===== verification/HttpServer.thy ===== *)
theory HttpServer
  imports TcpServer HttpParser_Correct ShortUrlApp
begin

text \<open>
  \<open>src/HttpServer.cc\<close>: per-connection parsers in sixteen shards by connection id, the message
  handler with its loop over pipelined requests, error answers and metrics. The application state
  of \<open>TcpServer\<close> is the record \<open>http\<close>, which holds the state of the request handler in turn. A
  pointer to a connection record whose entry is gone is dangling: \<open>hs_dangling\<close> is set where the
  code would then use it, and the model stops there.
\<close>

section \<open>State\<close>

record http_conn =
  hc_in :: buffer
  hc_parser :: parser

record 'b http =
  hs_shards :: "nat \<Rightarrow> (u64, http_conn) umap"
  hs_requests :: u64
  hs_errors :: u64
  hs_dangling :: bool
  hs_app :: 'b

type_synonym 'b handler = "http_request \<Rightarrow> http_response \<Rightarrow> 'b \<Rightarrow> http_response \<times> 'b"

definition new_HttpServer :: "'b \<Rightarrow> 'b http" where
  "new_HttpServer b = \<lparr>hs_shards = (\<lambda>_. []), hs_requests = 0, hs_errors = 0, hs_dangling = False, hs_app = b\<rparr>"

definition kShards :: u64 where "kShards = 16"

definition shardOf :: "u64 \<Rightarrow> nat" where
  "shardOf i = unat (i mod kShards)"

definition find_conn :: "u64 \<Rightarrow> 'b http \<Rightarrow> http_conn option" where
  "find_conn i h = um_find (hs_shards h (shardOf i)) i"

definition put_conn :: "u64 \<Rightarrow> http_conn \<Rightarrow> 'b http \<Rightarrow> 'b http" where
  "put_conn i c h = h\<lparr>hs_shards := (hs_shards h)(shardOf i := um_put i c (hs_shards h (shardOf i)))\<rparr>"

definition new_HttpConn :: http_conn where
  "new_HttpConn = \<lparr>hc_in = new_Buffer 1024, hc_parser = new_HttpParser\<rparr>"

section \<open>Operations\<close>

definition findOrCreate :: "u64 \<Rightarrow> 'b http \<Rightarrow> http_conn \<times> 'b http" where
  "findOrCreate i h =
     (case find_conn i h of Some c \<Rightarrow> (c, h) | None \<Rightarrow> (new_HttpConn, put_conn i new_HttpConn h))"

definition drop_conn :: "u64 \<Rightarrow> 'b http \<Rightarrow> 'b http" where
  "drop_conn i h = h\<lparr>hs_shards := (hs_shards h)(shardOf i := um_erase i (hs_shards h (shardOf i)))\<rparr>"

definition onConnection :: "fd \<Rightarrow> u64 \<Rightarrow> bool \<Rightarrow> 'b http \<Rightarrow> 'b http" where
  "onConnection f i up h = drop_conn i h"

definition error_response :: "http_error \<Rightarrow> http_response" where
  "error_response err = setJson (error_json (err_code err) (err_detail err))
     (new_HttpResponse\<lparr>rs_status := err_status err, rs_keep_alive := False\<rparr>)"

definition handleError :: "'b http env \<Rightarrow> fd \<Rightarrow> http_error \<Rightarrow> tcp \<times> 'b http \<Rightarrow> tcp \<times> 'b http" where
  "handleError e f err w =
     shutdown e f (send e f (serialize (error_response err)) (fst w, (snd w)\<lparr>hs_errors := hs_errors (snd w) + 1\<rparr>))"

definition answer :: "'b handler option \<Rightarrow> http_request \<Rightarrow> 'b \<Rightarrow> http_response \<times> 'b" where
  "answer handler rq b =
     (let resp = new_HttpResponse\<lparr>rs_keep_alive := rq_keep_alive rq\<rparr>
      in case handler of
           Some h \<Rightarrow> h rq resp b
         | None \<Rightarrow> (setJson (error_json ''not_found'' msg_no_handler) (resp\<lparr>rs_status := 404\<rparr>), b))"

text \<open>A completed parse has consumed a request line, or had begun before.\<close>

lemma retrieve_shorter: "readableBytes (retrieve n b) \<le> readableBytes b"
  by (auto simp: retrieve_def retrieveAll_def readableBytes_def)

lemma parseRequestLine_shorter:
  "parseRequestLine p b = (Complete, p', b') \<Longrightarrow> readableBytes b' < readableBytes b"
  by (auto simp: parseRequestLine_def Let_def http_err_def dest: retrieveUntil_shorter split: option.splits if_splits prod.splits)

lemma parseHeaders_shorter: "readableBytes (snd (snd (parseHeaders p b))) \<le> readableBytes b"
proof (induction p b rule: parseHeaders.induct)
  case (1 p b)
  show ?case
  proof (cases "findEOL b")
    case (Some eol)
    let ?raw = "peek_string b (eol - peek b)"
    let ?p1 = "p\<lparr>header_bytes := header_bytes p + length ?raw + 1\<rparr>"
    let ?b1 = "retrieveUntil (eol + 1) b"
    obtain r p2 where h: "header_step ?p1 ?raw = (r, p2)" by fastforce
    show ?thesis
      using "1.IH" [OF Some refl refl refl h [symmetric]] retrieveUntil_shorter [OF Some] h Some
      by (subst parseHeaders.simps) (auto simp: Let_def split: option.split)
  qed (subst parseHeaders.simps, simp add: Let_def)
qed

lemma parse_shorter:
  "parse p b = (Complete, p', b') \<Longrightarrow>
   readableBytes b' \<le> readableBytes b \<and> (state p = RequestLine \<longrightarrow> readableBytes b' < readableBytes b)"
proof (induction p b arbitrary: p' b' rule: parse.induct)
  case (1 p b)
  show ?case
  proof (cases "state p")
    case RequestLine
    with "1.prems" obtain p1 b1 where l: "parseRequestLine p b = (Complete, p1, b1)" "parse (p1\<lparr>state := Headers\<rparr>) b1 = (Complete, p', b')"
      by (subst (asm) parse.simps) (auto split: parse_result.splits prod.splits)
    with "1.IH"(1) [OF RequestLine l(1) [symmetric] refl refl l(2)] parseRequestLine_shorter [OF l(1)] show ?thesis by simp
  next
    case Headers
    with "1.prems" obtain p1 b1 where l: "parseHeaders p b = (Complete, p1, b1)"
      "parse (p1\<lparr>state := (if content_length p1 = 0 then Done else Body)\<rparr>) b1 = (Complete, p', b')"
      by (subst (asm) parse.simps) (auto split: parse_result.splits prod.splits)
    with "1.IH"(2) [OF Headers l(1) [symmetric] refl refl l(2)] parseHeaders_shorter [of p b] Headers show ?thesis by simp
  next
    case Body
    with "1.prems" obtain p1 b1 where l: "parseBody p b = (Complete, p1, b1)" "parse (p1\<lparr>state := Done\<rparr>) b1 = (Complete, p', b')"
      by (subst (asm) parse.simps) (auto split: parse_result.splits prod.splits)
    have "readableBytes b1 \<le> readableBytes b"
      using l(1) retrieve_shorter by (auto simp: parseBody_def retrieveAsString_def Let_def split: if_splits)
    with "1.IH"(3) [OF Body l(1) [symmetric] refl refl l(2)] Body show ?thesis by simp
  next
    case Done
    with "1.prems" show ?thesis by (subst (asm) parse.simps) simp
  qed
qed

function message_loop :: "'b handler option \<Rightarrow> 'b http env \<Rightarrow> fd \<Rightarrow> u64 \<Rightarrow> http_conn \<Rightarrow> tcp \<times> 'b http \<Rightarrow> tcp \<times> 'b http" where
  "message_loop handler e f i c w =
     (case parse (hc_parser c) (hc_in c) of
        (r, p, b) \<Rightarrow>
          (let h = put_conn i \<lparr>hc_in = b, hc_parser = p\<rparr> (snd w)
           in case r of
                NeedMore \<Rightarrow> (fst w, h)
              | Error err \<Rightarrow> handleError e f err (fst w, h)
              | Complete \<Rightarrow>
                  (let (resp, app) = answer handler (req p) (hs_app h);
                       h = h\<lparr>hs_requests := hs_requests h + 1, hs_app := app\<rparr>;
                       w = send e f (serialize resp) (fst w, h)
                   in if find_conn i (snd w) = None then (fst w, (snd w)\<lparr>hs_dangling := True\<rparr>)
                      else if \<not> rq_keep_alive (req p) \<or> \<not> rs_keep_alive resp then shutdown e f w
                      else message_loop handler e f i \<lparr>hc_in = b, hc_parser = reset p\<rparr> w)))"
  by pat_completeness auto
termination
proof (relation "(\<lambda>(handler, e, f, i, c, w). readableBytes (hc_in c)) <*mlex*>
    measure (\<lambda>(handler, e, f, i, c, w). if state (hc_parser c) = RequestLine then 0 else 1)", goal_cases)
  case 1
  show ?case by (intro wf_mlex wf_measure)
next
  case (2 handler e f i c w r pb p b h resp app h' w')
  then have "parse (hc_parser c) (hc_in c) = (Complete, p, b)" by simp
  from parse_shorter [OF this] show ?case by (auto simp: mlex_prod_def reset_def)
qed

declare message_loop.simps [simp del]

definition onMessage :: "'b handler option \<Rightarrow> 'b http on_message" where
  "onMessage handler e f i data w =
     (let (c, h) = findOrCreate i (snd w);
          c = c\<lparr>hc_in := buf_append data (hc_in c)\<rparr>
      in message_loop handler e f i c (fst w, put_conn i c h))"

text \<open>
  \<open>buildMetrics\<close>: the seconds since the start, the transport server if it was started, and the
  metrics provider are arguments.
\<close>

definition buildMetrics :: "int \<Rightarrow> tcp option \<Rightarrow> (string \<Rightarrow> string) option \<Rightarrow> 'b http \<Rightarrow> string" where
  "buildMetrics uptime server provider h =
     (let out = snprintf 256 (''uptime_seconds '' @ show_int uptime @ [LF]);
          out = (case server of
                   None \<Rightarrow> out
                 | Some s \<Rightarrow> out
                     @ snprintf 256 (''alive_connections '' @ show_nat (aliveConnections s) @ [LF])
                     @ snprintf 256 (''total_connections '' @ show_nat (unat (ts_conn_count s)) @ [LF])
                     @ snprintf 256 (''total_bytes_in '' @ show_nat (unat (ts_recv_bytes s)) @ [LF]));
          out = out @ snprintf 256 (''total_requests '' @ show_nat (unat (hs_requests h)) @ [LF])
      in case provider of None \<Rightarrow> out | Some f \<Rightarrow> f out)"

section \<open>The program\<close>

text \<open>
  \<open>src/main.cc\<close>: the handler of the server is \<open>ShortUrlApp::handle\<close>. Where the search for a code
  would not return, the handler below leaves the response as it was; \<open>handle_returns\<close> shows that
  this does not happen while the counter has room.
\<close>

definition app_handler :: "int \<Rightarrow> app handler" where
  "app_handler now rq resp a = (case handle now rq resp a of Some r \<Rightarrow> r | None \<Rightarrow> (resp, a))"

definition main_app :: "nat \<Rightarrow> app" where
  "main_app port = new_ShortUrlApp (''127.0.0.1:'' @ show_nat port)"

end
