(* ===== verification/TcpServer_Inv.thy ===== *)
theory TcpServer_Inv
  imports TcpServer
begin

text \<open>
  The state of the transport: what each operation does to the tables and to a connection, and the
  invariant of the reachable states. The client of the transport is the locale \<open>message_handler\<close>.
\<close>

section \<open>Frames\<close>

lemma upd_conn_simps [simp]:
  "ts_conns (upd_conn i f s) = ts_conns s" "ts_log (upd_conn i f s) = ts_log s" "ts_tasks (upd_conn i f s) = ts_tasks s"
  "ts_idle_timeout_s (upd_conn i f s) = ts_idle_timeout_s s" "ts_next_conn_id (upd_conn i f s) = ts_next_conn_id s"
  "ts_recv_bytes (upd_conn i f s) = ts_recv_bytes s" "ts_pollers (upd_conn i f s) = ts_pollers s"
  by (simp_all add: upd_conn_def split: option.split)

lemma chan_op_simps [simp]:
  "ts_conns (chan_op f i s) = ts_conns s" "ts_log (chan_op f i s) = ts_log s" "ts_tasks (chan_op f i s) = ts_tasks s"
  "ts_sends (chan_op f i s) = ts_sends s" "ts_idle_timeout_s (chan_op f i s) = ts_idle_timeout_s s"
  "ts_next_conn_id (chan_op f i s) = ts_next_conn_id s" "ts_recv_bytes (chan_op f i s) = ts_recv_bytes s"
  by (simp_all add: chan_op_def split: option.split prod.split)

lemma log_effect_simps [simp]:
  "ts_conns (log_effect x s) = ts_conns s" "ts_store (log_effect x s) = ts_store s" "ts_tasks (log_effect x s) = ts_tasks s"
  "ts_log (log_effect x s) = ts_log s @ [x]" "ts_pollers (log_effect x s) = ts_pollers s"
  "ts_next_conn_id (log_effect x s) = ts_next_conn_id s"
  by (simp_all add: log_effect_def)

lemma upd_conn_store:
  "um_ok (ts_store s) \<Longrightarrow> um_ok (ts_store (upd_conn i f s))"
  "um_ok (ts_store s) \<Longrightarrow> um_find (ts_store (upd_conn i f s)) j =
     (if j = i then map_option f (um_find (ts_store s) i) else um_find (ts_store s) j)"
  by (auto simp: upd_conn_def um.ok_put um.find_put split: option.split)

text \<open>Everything of a connection but its channel.\<close>

definition same_conn :: "conn \<Rightarrow> conn \<Rightarrow> bool" where
  "same_conn c c' \<longleftrightarrow> (\<exists>ch. c' = c\<lparr>cn_channel := ch\<rparr>)"

lemma chan_op_store:
  assumes "um_ok (ts_store s)"
  shows "um_ok (ts_store (chan_op f i s))"
    "j \<noteq> i \<Longrightarrow> um_find (ts_store (chan_op f i s)) j = um_find (ts_store s) j"
    "um_find (ts_store s) i = Some c \<Longrightarrow> \<exists>c'. um_find (ts_store (chan_op f i s)) i = Some c' \<and> same_conn c c'"
    "um_find (ts_store s) i = None \<Longrightarrow> um_find (ts_store (chan_op f i s)) i = None"
  using assms
  by (auto simp: chan_op_def um.ok_put um.find_put same_conn_def split: option.split prod.split)

lemma same_conn_simps:
  "same_conn c c' \<Longrightarrow> cn_fd c' = cn_fd c \<and> cn_id c' = cn_id c \<and> cn_owner c' = cn_owner c \<and> cn_in c' = cn_in c \<and>
     cn_out c' = cn_out c \<and> cn_writing c' = cn_writing c \<and> cn_last_active_ms c' = cn_last_active_ms c"
  by (auto simp: same_conn_def)

section \<open>Closing\<close>

lemma closeConnInLoop_open:
  assumes "um_ok (ts_store s)" "um_find (ts_store s) i = Some c" "um_find (ts_conns s) (cn_fd c) \<noteq> None"
  shows "\<exists>s' c'. closeConnInLoop e i (s, a) = (s', env_on_connection e (cn_fd c) (cn_id c) False a) \<and>
    ts_conns s' = um_erase (cn_fd c) (ts_conns s) \<and> ts_log s' = ts_log s @ [Closed (cn_fd c)] \<and>
    um_ok (ts_store s') \<and> um_find (ts_store s') i = Some c' \<and> same_conn c c' \<and> ts_tasks s' = ts_tasks s \<and>
    (\<forall>j. j \<noteq> i \<longrightarrow> um_find (ts_store s') j = um_find (ts_store s) j)"
proof -
  let ?s = "s\<lparr>ts_conns := um_erase (cn_fd c) (ts_conns s)\<rparr>"
  note st = chan_op_store [where s = ?s and f = disableAll and i = i]
  from st(3) [where c = c] assms obtain c' where c': "um_find (ts_store (chan_op disableAll i ?s)) i = Some c'" "same_conn c c'" by auto
  show ?thesis
    using assms c' st(1,2) by (auto simp: closeConnInLoop_def Let_def)
qed

lemma closeConnInLoop_done:
  "um_find (ts_store s) i = Some c \<Longrightarrow> um_find (ts_conns s) (cn_fd c) = None \<Longrightarrow> closeConnInLoop e i (s, a) = (s, a)"
  by (simp add: closeConnInLoop_def)

section \<open>Writing\<close>

text \<open>What \<open>flushWrite\<close> does to a connection that is open.\<close>

definition flushed :: "'a env \<Rightarrow> u64 \<Rightarrow> conn \<Rightarrow> tcp \<times> 'a \<Rightarrow> tcp \<times> 'a \<Rightarrow> bool" where
  "flushed e i c w w' \<longleftrightarrow> um_ok (ts_store (fst w')) \<and> ts_tasks (fst w') = ts_tasks (fst w) \<and>
     (\<forall>j. j \<noteq> i \<longrightarrow> um_find (ts_store (fst w')) j = um_find (ts_store (fst w)) j) \<and>
     (\<exists>c' L. um_find (ts_store (fst w')) i = Some c' \<and> cn_fd c' = cn_fd c \<and> cn_id c' = cn_id c \<and> cn_owner c' = cn_owner c \<and>
        cn_in c' = cn_in c \<and> concat L @ cn_out c' = cn_out c \<and>
        ((ts_conns (fst w') = ts_conns (fst w) \<and> snd w' = snd w \<and> ts_log (fst w') = ts_log (fst w) @ map (Sent (cn_fd c)) L \<and>
            (cn_writing c' \<longleftrightarrow> cn_out c' \<noteq> [])) \<or>
         (ts_conns (fst w') = um_erase (cn_fd c) (ts_conns (fst w)) \<and>
            snd w' = env_on_connection e (cn_fd c) (cn_id c) False (snd w) \<and>
            ts_log (fst w') = ts_log (fst w) @ map (Sent (cn_fd c)) L @ [Closed (cn_fd c)])))"

lemma flushed_close:
  assumes "um_ok (ts_store s)" "um_find (ts_store s) i = Some c" "um_find (ts_conns s) (cn_fd c) \<noteq> None"
  shows "flushed e i c (s, a) (closeConnInLoop e i (s, a))"
  using closeConnInLoop_open [OF assms, of e a] same_conn_simps
  by (fastforce simp: flushed_def intro: exI [of _ "[]"])

lemma pop_send_simps:
  "pop_send s = (x, s') \<Longrightarrow> ts_store s' = ts_store s \<and> ts_conns s' = ts_conns s \<and> ts_log s' = ts_log s \<and> ts_tasks s' = ts_tasks s"
  by (auto simp: pop_send_def split: list.splits)

lemma flushed_chan:
  assumes "um_ok (ts_store s)" "um_find (ts_store s) i = Some c" "b \<longleftrightarrow> cn_out c \<noteq> []"
  shows "flushed e i c (s, a) (chan_op f i (upd_conn i (\<lambda>c. c\<lparr>cn_writing := b\<rparr>) s), a)"
proof -
  let ?s = "upd_conn i (\<lambda>c. c\<lparr>cn_writing := b\<rparr>) s"
  have ok: "um_ok (ts_store ?s)" and find: "um_find (ts_store ?s) i = Some (c\<lparr>cn_writing := b\<rparr>)"
    "\<And>j. j \<noteq> i \<Longrightarrow> um_find (ts_store ?s) j = um_find (ts_store s) j"
    using assms(1,2) by (simp_all add: upd_conn_store)
  obtain c' where c': "um_find (ts_store (chan_op f i ?s)) i = Some c'" "same_conn (c\<lparr>cn_writing := b\<rparr>) c'"
    using chan_op_store(3) [OF ok find(1), of f] by blast
  show ?thesis
    unfolding flushed_def
    using chan_op_store(1,2) [OF ok] find(2) c' same_conn_simps [OF c'(2)] assms(3)
    by (auto intro!: exI [of _ c'] exI [of _ "[]"])
qed

lemma flushed_more:
  assumes "flushed e i (c\<lparr>cn_out := drop n (cn_out c)\<rparr>)
      (log_effect (Sent (cn_fd c) (take n (cn_out c))) (upd_conn i (\<lambda>c. c\<lparr>cn_out := drop n (cn_out c)\<rparr>) s), a) w'"
    "um_ok (ts_store s)"
  shows "flushed e i c (s, a) w'"
proof -
  from assms(1) obtain c' L where c': "um_find (ts_store (fst w')) i = Some c'" "cn_fd c' = cn_fd c" "cn_id c' = cn_id c"
    "cn_owner c' = cn_owner c" "cn_in c' = cn_in c" "concat L @ cn_out c' = drop n (cn_out c)"
    and r: "(ts_conns (fst w') = ts_conns s \<and> snd w' = a \<and>
            ts_log (fst w') = ts_log s @ [Sent (cn_fd c) (take n (cn_out c))] @ map (Sent (cn_fd c)) L \<and>
            (cn_writing c' \<longleftrightarrow> cn_out c' \<noteq> [])) \<or>
         (ts_conns (fst w') = um_erase (cn_fd c) (ts_conns s) \<and> snd w' = env_on_connection e (cn_fd c) (cn_id c) False a \<and>
            ts_log (fst w') = ts_log s @ [Sent (cn_fd c) (take n (cn_out c))] @ map (Sent (cn_fd c)) L @ [Closed (cn_fd c)])"
    by (auto simp: flushed_def)
  have "concat (take n (cn_out c) # L) @ cn_out c' = cn_out c" using c'(6) by simp
  moreover have "map (Sent (cn_fd c)) (take n (cn_out c) # L) = [Sent (cn_fd c) (take n (cn_out c))] @ map (Sent (cn_fd c)) L"
    by simp
  ultimately show ?thesis
    unfolding flushed_def using assms c'(1-5) r
    by (intro conjI exI [of _ c'] exI [of _ "take n (cn_out c) # L"]) (auto simp: flushed_def upd_conn_store)
qed

text \<open>
  The loop of \<open>flushWrite\<close> as a rule: what holds in the final cases and is carried back over a retry
  and over a partial write holds for every call.
\<close>

abbreviation after_send :: "nat \<Rightarrow> conn \<Rightarrow> u64 \<Rightarrow> tcp \<Rightarrow> tcp" where
  "after_send n c i s \<equiv> log_effect (Sent (cn_fd c) (take n (cn_out c))) (upd_conn i (\<lambda>c. c\<lparr>cn_out := drop n (cn_out c)\<rparr>) s)"

lemma flushWrite_rule [consumes 1, case_names gone idle again retry failed more]:
  assumes run: "v = flushWrite e i w"
    and gone: "\<And>s a. um_find (ts_store s) i = None \<Longrightarrow> P (s, a) (s, a)"
    and idle: "\<And>s a c. um_find (ts_store s) i = Some c \<Longrightarrow> cn_out c = [] \<Longrightarrow>
      P (s, a) (if cn_writing c then chan_op (disableWriting (env_ctl e) i) i (upd_conn i (\<lambda>c. c\<lparr>cn_writing := False\<rparr>) s) else s, a)"
    and again: "\<And>s a c s'. um_find (ts_store s) i = Some c \<Longrightarrow> cn_out c \<noteq> [] \<Longrightarrow> pop_send s = (Inl EAGAIN, s') \<Longrightarrow>
      P (s, a) (if cn_writing c then s' else chan_op (enableWriting (env_ctl e) i) i (upd_conn i (\<lambda>c. c\<lparr>cn_writing := True\<rparr>) s'), a)"
    and retry: "\<And>s a c s' v. um_find (ts_store s) i = Some c \<Longrightarrow> pop_send s = (Inl EINTR, s') \<Longrightarrow> P (s', a) v \<Longrightarrow> P (s, a) v"
    and failed: "\<And>s a c x s'. um_find (ts_store s) i = Some c \<Longrightarrow> cn_out c \<noteq> [] \<Longrightarrow> pop_send s = (x, s') \<Longrightarrow>
      P (s, a) (closeConnInLoop e i (s', a))"
    and more: "\<And>s a c n s' v. um_find (ts_store s) i = Some c \<Longrightarrow> cn_out c \<noteq> [] \<Longrightarrow> pop_send s = (Inr n, s') \<Longrightarrow> 0 < n \<Longrightarrow>
      P (after_send n c i s', a) v \<Longrightarrow> P (s, a) v"
  shows "P w v"
  unfolding run
proof (induction "length (ts_sends (fst w))" arbitrary: w rule: less_induct)
  case less
  obtain s a where w: "w = (s, a)" by (cases w)
  obtain x s' where x: "pop_send s = (x, s')" by fastforce
  show ?case
  proof (cases "um_find (ts_store s) i")
    case None
    with gone show ?thesis unfolding w by (subst flushWrite.simps) simp
  next
    case (Some c)
    note c = Some
    show ?thesis
    proof (cases "cn_out c = []")
      case True
      with idle [OF Some True] Some show ?thesis unfolding w by (subst flushWrite.simps) (auto split: if_splits)
    next
      case out: False
      have shorter: "length (ts_sends s') < length (ts_sends s)" if "x \<noteq> Inl EAGAIN" using pop_send_shorter [OF x] that by simp
      have "P (s', a) (flushWrite e i (s', a))" if "x \<noteq> Inl EAGAIN" using less [of "(s', a)"] shorter [OF that] w by simp
      moreover have "P (after_send n c i s', a) (flushWrite e i (after_send n c i s', a))" if "x \<noteq> Inl EAGAIN" for n
        using less [of "(after_send n c i s', a)"] shorter [OF that] w by simp
      ultimately show ?thesis
        using again [OF c out, of s'] retry [OF c, of s'] failed [OF c out x] more [OF c out, of _ s'] c out x unfolding w
        by (cases x; subst flushWrite.simps) (auto simp: EAGAIN_def EINTR_def)
    qed
  qed
qed

lemma flushed_pop: "pop_send s = (x, s') \<Longrightarrow> flushed e i c (s, a) v \<longleftrightarrow> flushed e i c (s', a) v"
  using pop_send_simps [of s x s'] by (simp add: flushed_def)

lemma flushed_run:
  "\<lbrakk>v = flushWrite e i w; um_ok (ts_store (fst w)); um_find (ts_store (fst w)) i = Some c; um_find (ts_conns (fst w)) (cn_fd c) \<noteq> None\<rbrakk> \<Longrightarrow>
   flushed e i c w v"
proof (induction w v arbitrary: c rule: flushWrite_rule)
  case (gone s a)
  then show ?case by simp
next
  case (idle s a d)
  then show ?case using flushed_chan [of s i c False e a "disableWriting (env_ctl e) i"] by (auto simp: flushed_def)
next
  case (again s a d s')
  then show ?case
    using flushed_chan [of s' i c True e a "enableWriting (env_ctl e) i"] pop_send_simps [OF again(3)] flushed_pop [OF again(3)]
    by (auto simp: flushed_def)
next
  case (retry s a d s' v)
  then show ?case using pop_send_simps [OF retry(2)] by (simp add: flushed_pop [OF retry(2)])
next
  case (failed s a d x s')
  then show ?case using pop_send_simps [OF failed(3)] by (auto simp: flushed_pop [OF failed(3)] intro: flushed_close)
next
  case (more s a d n s' v)
  then have "flushed e i (c\<lparr>cn_out := drop n (cn_out c)\<rparr>) (after_send n c i s', a) v"
    using pop_send_simps [OF more(3)] by (simp add: upd_conn_store)
  then have "flushed e i c (s', a) v" by (rule flushed_more) (use more.prems pop_send_simps [OF more(3)] in simp)
  then show ?case unfolding flushed_pop [OF more(3)] .
qed

lemmas flushWrite_flushed = flushed_run [OF refl]


section \<open>Invariant\<close>

text \<open>
  The table maps a descriptor to a connection object with this descriptor, and an open
  connection waits for \<open>EPOLLOUT\<close> exactly when it has bytes left to write; the connections in \<open>X\<close>
  are exempt from the latter while they are being worked on.
\<close>

definition table_ok :: "tcp \<Rightarrow> bool" where
  "table_ok s \<longleftrightarrow> um_ok (ts_conns s) \<and> um_ok (ts_store s) \<and>
     (\<forall>f i. um_find (ts_conns s) f = Some i \<longrightarrow> (\<exists>c. um_find (ts_store s) i = Some c \<and> cn_fd c = f \<and> cn_id c = i))"

definition settled :: "u64 \<Rightarrow> tcp \<Rightarrow> bool" where
  "settled i s \<longleftrightarrow> (\<forall>c. um_find (ts_store s) i = Some c \<longrightarrow> um_find (ts_conns s) (cn_fd c) = Some i \<longrightarrow>
     (cn_writing c \<longleftrightarrow> cn_out c \<noteq> []))"

definition tables_ok :: "u64 set \<Rightarrow> tcp \<Rightarrow> bool" where
  "tables_ok X s \<longleftrightarrow> table_ok s \<and> (\<forall>i. i \<notin> X \<longrightarrow> settled i s)"

text \<open>What stays of a connection object; the read buffer may change for the connections in \<open>R\<close>.\<close>

definition same_static :: "bool \<Rightarrow> conn \<Rightarrow> conn \<Rightarrow> bool" where
  "same_static b c c' \<longleftrightarrow> cn_fd c' = cn_fd c \<and> cn_id c' = cn_id c \<and> cn_owner c' = cn_owner c \<and> (b \<or> cn_in c' = cn_in c)"

fun add_id :: "task \<Rightarrow> u64 option" where
  "add_id (AddConn f i l) = Some i"
| "add_id t = None"

definition add_ids :: "task list \<Rightarrow> u64 list" where
  "add_ids ts = List.map_filter add_id ts"

lemma add_ids_simps [simp]:
  "add_ids [] = []" "add_ids (AddConn f i l # ts) = i # add_ids ts" "add_ids (AppendFlush i d # ts) = add_ids ts"
  "add_ids (CloseTask i # ts) = add_ids ts"
  by (simp_all add: add_ids_def map_filter_simps)

lemma add_ids_append [simp]: "add_ids (ts @ us) = add_ids ts @ add_ids us"
  by (simp add: add_ids_def map_filter_def)

text \<open>What the handlers of an existing connection leave alone; entries of the table only go away.\<close>

definition frame :: "u64 set \<Rightarrow> tcp \<Rightarrow> tcp \<Rightarrow> bool" where
  "frame R s s' \<longleftrightarrow> ts_next_conn_id s' = ts_next_conn_id s \<and> ts_pool s' = ts_pool s \<and>
     (\<forall>f. um_find (ts_conns s') f = um_find (ts_conns s) f \<or> um_find (ts_conns s') f = None) \<and>
     (\<forall>i. rel_option (same_static (i \<in> R)) (um_find (ts_store s) i) (um_find (ts_store s') i)) \<and>
     (\<forall>l. \<exists>ts. ts_tasks s' l = ts_tasks s l @ ts \<and> add_ids ts = [])"

definition keeps :: "u64 set \<Rightarrow> u64 set \<Rightarrow> u64 set \<Rightarrow> tcp \<Rightarrow> tcp \<Rightarrow> bool" where
  "keeps R X Y s s' \<longleftrightarrow> (tables_ok X s \<longrightarrow> tables_ok Y s' \<and> frame R s s')"

lemma same_static_refl [simp]: "same_static b c c"
  by (simp add: same_static_def)

lemma rel_same_static_refl [simp]: "rel_option (same_static b) x x"
  by (cases x) simp_all

lemma frame_refl [simp]: "frame R s s"
  by (simp add: frame_def)

lemma frame_trans: assumes "frame R s s1" "frame R s1 s2" shows "frame R s s2"
proof -
  have "rel_option (same_static (i \<in> R)) (um_find (ts_store s) i) (um_find (ts_store s2) i)" for i
  proof -
    have "rel_option (same_static (i \<in> R)) (um_find (ts_store s) i) (um_find (ts_store s1) i)"
      "rel_option (same_static (i \<in> R)) (um_find (ts_store s1) i) (um_find (ts_store s2) i)"
      using assms by (simp_all add: frame_def)
    then show ?thesis by (auto simp: same_static_def elim!: option.rel_cases)
  qed
  moreover have "\<exists>ts. ts_tasks s2 l = ts_tasks s l @ ts \<and> add_ids ts = []" for l
  proof -
    from assms obtain t1 t2 where "ts_tasks s1 l = ts_tasks s l @ t1" "add_ids t1 = []"
      "ts_tasks s2 l = ts_tasks s1 l @ t2" "add_ids t2 = []" unfolding frame_def by meson
    then show ?thesis by (intro exI [of _ "t1 @ t2"]) simp
  qed
  moreover have "um_find (ts_conns s2) f = um_find (ts_conns s) f \<or> um_find (ts_conns s2) f = None" for f
    using assms unfolding frame_def by metis
  ultimately show ?thesis using assms by (simp add: frame_def)
qed

lemma frame_mono: "frame R s s' \<Longrightarrow> R \<subseteq> R' \<Longrightarrow> frame R' s s'"
  unfolding frame_def same_static_def by (fastforce elim!: option.rel_mono_strong)

lemma keeps_trans [trans]: "keeps R X Y s s1 \<Longrightarrow> keeps R Y Z s1 s2 \<Longrightarrow> keeps R X Z s s2"
  by (auto simp: keeps_def intro: frame_trans)

lemma keeps_refl [simp]: "keeps R X X s s"
  by (simp add: keeps_def)

lemma keeps_mono: "keeps R X Y s s' \<Longrightarrow> R \<subseteq> R' \<Longrightarrow> keeps R' X Y s s'"
  by (auto simp: keeps_def intro: frame_mono)

text \<open>Fields that the invariant does not read.\<close>

lemma keeps_cong:
  "ts_conns s' = ts_conns s \<Longrightarrow> ts_store s' = ts_store s \<Longrightarrow> ts_next_conn_id s' = ts_next_conn_id s \<Longrightarrow>
   ts_pool s' = ts_pool s \<Longrightarrow> ts_tasks s' = ts_tasks s \<Longrightarrow> keeps R X X s s'"
  by (simp add: keeps_def frame_def tables_ok_def table_ok_def settled_def)

lemma table_conn:
  "table_ok s \<Longrightarrow> um_find (ts_conns s) f = Some i \<Longrightarrow> \<exists>c. um_find (ts_store s) i = Some c \<and> cn_fd c = f \<and> cn_id c = i"
  by (simp add: table_ok_def)

text \<open>A new value for the object of connection \<open>i\<close>.\<close>

lemma keeps_store:
  assumes find: "um_find (ts_store s) i = Some c" and same: "same_static (i \<in> R) c c'"
    and st: "ts_store s' = um_put i c' (ts_store s)" "ts_conns s' = ts_conns s"
    and rest: "ts_next_conn_id s' = ts_next_conn_id s" "ts_pool s' = ts_pool s" "ts_tasks s' = ts_tasks s"
    and X: "X - {i} \<subseteq> Y" "i \<notin> Y \<Longrightarrow> (cn_writing c' \<longleftrightarrow> cn_out c' \<noteq> []) \<or> i \<notin> X \<and> cn_writing c' = cn_writing c \<and> cn_out c' = cn_out c"
  shows "keeps R X Y s s'"
proof (unfold keeps_def, intro impI)
  assume "tables_ok X s"
  then have t: "table_ok s" and w: "\<And>j. j \<notin> X \<Longrightarrow> settled j s" by (auto simp: tables_ok_def)
  then have ok: "um_ok (ts_store s)" by (simp add: table_ok_def)
  note put = um.ok_put [OF ok] um.find_put [OF ok]
  have "table_ok s'"
    using t find same by (fastforce simp: table_ok_def st put same_static_def)
  moreover have "settled j s'" if "j \<notin> Y" for j
    using w [of j] X that find same by (cases "j = i") (auto simp: settled_def st put same_static_def)
  moreover have "frame R s s'"
    using find same by (auto simp: frame_def st put rest)
  ultimately show "tables_ok Y s' \<and> frame R s s'" by (simp add: tables_ok_def)
qed

section \<open>The operations keep the invariant\<close>

lemma upd_conn_rest [simp]: "ts_pool (upd_conn i f s) = ts_pool s"
  by (simp add: upd_conn_def split: option.split)

lemma keeps_upd:
  assumes "\<And>c. um_find (ts_store s) i = Some c \<Longrightarrow> same_static (i \<in> R) c (f c)" "X - {i} \<subseteq> Y"
    "\<And>c. um_find (ts_store s) i = Some c \<Longrightarrow> i \<notin> Y \<Longrightarrow>
       (cn_writing (f c) \<longleftrightarrow> cn_out (f c) \<noteq> []) \<or> i \<notin> X \<and> cn_writing (f c) = cn_writing c \<and> cn_out (f c) = cn_out c"
    "um_find (ts_store s) i \<noteq> None \<or> X \<subseteq> Y"
  shows "keeps R X Y s (upd_conn i f s)"
proof (cases "um_find (ts_store s) i")
  case None
  then show ?thesis using assms(4) by (auto simp: upd_conn_def keeps_def tables_ok_def)
next
  case (Some c)
  show ?thesis
    by (rule keeps_store [OF Some assms(1) [OF Some]]) (use Some assms in \<open>auto simp: upd_conn_def\<close>)
qed

lemma keeps_chan: "keeps R X X s (chan_op f i s)"
proof (cases "um_find (ts_store s) i")
  case (Some c)
  obtain ch po where "f (cn_channel c, ts_pollers s (cn_owner c)) = (ch, po)" by fastforce
  with Some show ?thesis
    by (intro keeps_store [of s i c R "c\<lparr>cn_channel := ch\<rparr>"]) (auto simp: chan_op_def same_static_def)
qed (simp add: chan_op_def)

lemma keeps_log: "keeps R X X s (log_effect x s)"
  by (rule keeps_cong) (simp_all add: log_effect_def)

lemma keeps_erase:
  "keeps R X X s (s\<lparr>ts_conns := um_erase f (ts_conns s)\<rparr>)"
proof -
  have "table_ok s \<Longrightarrow> um_find (um_erase f (ts_conns s)) g = (if g = f then None else um_find (ts_conns s) g)" for g
    by (simp add: table_ok_def um.find_erase)
  moreover have "table_ok s \<Longrightarrow> um_ok (um_erase f (ts_conns s))" by (simp add: table_ok_def um.ok_erase)
  ultimately show ?thesis by (auto simp: keeps_def tables_ok_def table_ok_def settled_def frame_def)
qed

text \<open>A closed connection need not be settled.\<close>

lemma keeps_close: "keeps R X (X - {i}) (fst w) (fst (closeConnInLoop e i w))"
proof (cases "um_find (ts_store (fst w)) i")
  case None
  then show ?thesis by (auto simp: closeConnInLoop_def keeps_def tables_ok_def settled_def)
next
  case (Some c)
  let ?s = "fst w" and ?s' = "fst (closeConnInLoop e i w)"
  have k: "keeps R X X ?s ?s'"
    using Some keeps_trans [OF keeps_erase [where f = "cn_fd c"] keeps_trans [OF keeps_chan keeps_log], of R X ?s]
    by (simp add: closeConnInLoop_def Let_def)
  have "settled i ?s'" if "table_ok ?s"
  proof -
    let ?s1 = "?s\<lparr>ts_conns := um_erase (cn_fd c) (ts_conns ?s)\<rparr>"
    from that have ok: "um_ok (ts_conns ?s)" "um_ok (ts_store ?s1)" by (simp_all add: table_ok_def)
    from chan_op_store(3) [OF ok(2), of i c disableAll] Some obtain c' where
      "um_find (ts_store (chan_op disableAll i ?s1)) i = Some c'" "same_conn c c'" by auto
    with ok(1) Some show ?thesis
      by (auto simp: closeConnInLoop_def Let_def settled_def um.find_erase dest: same_conn_simps)
  qed
  with k show ?thesis by (auto simp: keeps_def tables_ok_def)
qed

lemma keeps_pop: "pop_send s = (x, s') \<Longrightarrow> keeps R X X s s'"
  by (rule keeps_cong) (auto simp: pop_send_def split: list.splits)

lemma keeps_writing:
  assumes "um_find (ts_store s) i = Some c" "b \<longleftrightarrow> cn_out c \<noteq> []"
  shows "keeps R X (X - {i}) s (chan_op f i (upd_conn i (\<lambda>c. c\<lparr>cn_writing := b\<rparr>) s))"
  by (rule keeps_trans [OF keeps_upd keeps_chan]) (use assms in \<open>auto simp: same_static_def\<close>)

lemma keeps_stay:
  assumes "um_find (ts_store s) i = Some c" "cn_writing c \<longleftrightarrow> cn_out c \<noteq> []"
  shows "keeps R X (X - {i}) s s"
  using assms by (auto simp: keeps_def tables_ok_def settled_def)

lemma keeps_flush_run: "v = flushWrite e i w \<Longrightarrow> keeps R X (X - {i}) (fst w) (fst v)"
proof (induction w v arbitrary: X rule: flushWrite_rule)
  case (gone s a)
  then show ?case by (auto simp: keeps_def tables_ok_def settled_def)
next
  case (idle s a c)
  then show ?case using keeps_writing [of s i c False] keeps_stay [of s i c] by simp
next
  case (again s a c s')
  then show ?case
    using keeps_trans [OF keeps_pop [OF again(3)] keeps_writing [of s' i c True]]
      keeps_trans [OF keeps_stay [of s i c] keeps_pop [OF again(3)]] pop_send_simps [OF again(3)]
    by simp
next
  case (retry s a c s' v)
  then show ?case using keeps_trans [OF keeps_pop [OF retry(2)]] by simp
next
  case (failed s a c x s')
  then show ?case using keeps_trans [OF keeps_pop [OF failed(3)] keeps_close [of R X i "(s', a)" e, simplified]] by simp
next
  case (more s a c n s' v)
  have "keeps R X (insert i X) s (after_send n c i s')"
    by (rule keeps_trans [OF keeps_pop [OF more(3)] keeps_trans [OF keeps_upd keeps_log]]) (auto simp: same_static_def)
  from keeps_trans [OF this] more(5) [of "insert i X"] show ?case by simp
qed

lemmas keeps_flush = keeps_flush_run [OF refl]

lemma keeps_append: "keeps R {} {} (fst w) (fst (appendAndFlush e i d w))"
proof (cases "um_find (ts_store (fst w)) i")
  case (Some c)
  let ?s = "upd_conn i (\<lambda>c. c\<lparr>cn_last_active_ms := env_now e, cn_out := cn_out c @ d\<rparr>) (fst w)"
  have "keeps R {} {i} (fst w) ?s" by (rule keeps_upd) (auto simp: same_static_def)
  then have "keeps R {} {} (fst w) (fst (flushWrite e i (?s, snd w)))"
    using keeps_flush [of R "{i}" i "(?s, snd w)" e] by (auto intro: keeps_trans)
  moreover have "keeps R {} {} (fst w) ?s" if "cn_writing c"
  proof (unfold keeps_def, intro impI)
    assume t: "tables_ok {} (fst w)"
    with \<open>keeps R {} {i} (fst w) ?s\<close> have "tables_ok {i} ?s" "frame R (fst w) ?s" by (auto simp: keeps_def)
    moreover have "settled i ?s"
      using t that Some by (auto simp: tables_ok_def settled_def table_ok_def upd_conn_store)
    ultimately show "tables_ok {} ?s \<and> frame R (fst w) ?s" by (auto simp: tables_ok_def)
  qed
  ultimately show ?thesis using Some by (simp add: appendAndFlush_def Let_def)
qed (simp add: appendAndFlush_def)

lemma keeps_close0: "keeps R {} {} (fst w) (fst (closeConnInLoop e i w))"
  using keeps_close [of R "{}" i w e] by simp

lemma keeps_queue:
  "add_ids [t] = [] \<Longrightarrow> keeps R X X s (s\<lparr>ts_tasks := (ts_tasks s)(l := ts_tasks s l @ [t])\<rparr>)"
  by (auto simp: keeps_def frame_def tables_ok_def table_ok_def settled_def)

lemma keeps_run:
  assumes "add_ids [t] = []"
  shows "keeps R {} {} (fst w) (fst (run_in_loop e l t w))"
  using assms keeps_queue [OF assms, of R "{}" "fst w" l]
  by (cases t) (simp_all add: run_in_loop_def exec_task_def keeps_append keeps_close0)

lemma keeps_send: "keeps R {} {} (fst w) (fst (send e f d w))"
  by (simp add: send_def keeps_run split: option.split)

lemma keeps_shutdown: "keeps R {} {} (fst w) (fst (shutdown e f w))"
  by (simp add: shutdown_def keeps_run split: option.split)

lemma keeps_closeConn: "keeps R {} {} (fst w) (fst (closeConn e i w))"
  by (simp add: closeConn_def keeps_run keeps_close0)

lemma keeps_fold:
  "(\<And>x w. keeps R X X (fst w) (fst (f x w))) \<Longrightarrow> keeps R X X (fst w) (fst (fold f xs w))"
proof (induction xs arbitrary: w)
  case (Cons x xs)
  from keeps_trans [OF Cons.prems [where x = x and w = w] Cons.IH [OF Cons.prems]] show ?case by simp
qed simp

lemma keeps_idle: "keeps R X X s (s\<lparr>ts_closed_idle := n\<rparr>)"
  by (rule keeps_cong) simp_all

lemma keeps_sweep: "keeps R {} {} (fst w) (fst (sweepIdle e w))"
proof -
  have "keeps R {} {} (fst w) (fst (case w of (s, a) \<Rightarrow> closeConn e i (s\<lparr>ts_closed_idle := ts_closed_idle s + 1\<rparr>, a)))"
    for i and w :: "tcp \<times> 'a"
    using keeps_trans [OF keeps_idle keeps_closeConn [where w = "(_, snd w)", unfolded fst_conv]] by (simp add: split_beta)
  then show ?thesis unfolding sweepIdle_def by (simp add: keeps_fold)
qed

section \<open>The message callback\<close>

text \<open>
  What the transport asks of its client: a message callback acts on the transport only through
  operations that keep the tables and leave the read buffers alone, such as \<open>send\<close> and
  \<open>shutdown\<close>.
\<close>

locale message_handler =
  fixes om :: "'a on_message"
  assumes om_keeps: "keeps {} {} {} (fst w) (fst (om e f i d w))"

text \<open>Between events every read buffer is empty.\<close>

definition quiet :: "tcp \<Rightarrow> bool" where
  "quiet s \<longleftrightarrow> (\<forall>i c. um_find (ts_store s) i = Some c \<longrightarrow> buf_ok (cn_in c) \<and> contents (cn_in c) = [])"

lemma quiet_frame:
  assumes "frame R s s'" "quiet s"
    "\<And>i c. i \<in> R \<Longrightarrow> um_find (ts_store s') i = Some c \<Longrightarrow> buf_ok (cn_in c) \<and> contents (cn_in c) = []"
  shows "quiet s'"
  unfolding quiet_def
proof (intro allI impI)
  fix i c' assume c': "um_find (ts_store s') i = Some c'"
  moreover from assms(1) have "rel_option (same_static (i \<in> R)) (um_find (ts_store s) i) (um_find (ts_store s') i)"
    by (simp add: frame_def)
  ultimately obtain c where "um_find (ts_store s) i = Some c" "same_static (i \<in> R) c c'"
    by (auto simp: option_rel_Some2)
  with assms(2,3) c' show "buf_ok (cn_in c') \<and> contents (cn_in c') = []" by (auto simp: quiet_def same_static_def)
qed

lemma keeps_recv: "keeps R X X s (s\<lparr>ts_recv_bytes := n\<rparr>)"
  by (rule keeps_cong) simp_all

lemma keeps_in:
  assumes "i \<in> R" "\<And>c. same_static True c (f c) \<and> cn_writing (f c) = cn_writing c \<and> cn_out (f c) = cn_out c"
  shows "keeps R {} {} s (upd_conn i f s)"
  by (rule keeps_upd) (use assms in auto)

text \<open>One turn of the read loop that got \<open>d\<close>: what the callback is given, and the state after it.\<close>

definition received :: "'a env \<Rightarrow> u64 \<Rightarrow> buffer \<Rightarrow> string \<Rightarrow> tcp \<Rightarrow> tcp" where
  "received e i buf d s =
     (upd_conn i (\<lambda>c. c\<lparr>cn_in := buf, cn_last_active_ms := env_now e,
        cn_recv_bytes := cn_recv_bytes c + of_int (int (length d))\<rparr>) s)
       \<lparr>ts_recv_bytes := ts_recv_bytes s + of_int (int (length d))\<rparr>"

lemma readable_step:
  assumes "um_find (ts_store (fst w)) i = Some c" "buf_ok (cn_in c)" "contents (cn_in c) = []"
    "r (iov_lens (cn_in c)) = Inr d" "d \<noteq> []"
  obtains buf where "buf_ok buf" "contents buf = d"
    "handleReadable e om i (r # rs) w =
       (let w' = om e (cn_fd c) (cn_id c) d (received e i buf d (fst w), snd w)
        in handleReadable e om i rs (upd_conn i (\<lambda>c. c\<lparr>cn_in := retrieve (length d) (cn_in c)\<rparr>) (fst w'), snd w'))"
proof -
  from readFd_buffer [where readv = r, OF assms(2,4)] obtain buf where
    r: "readFd r (cn_in c) = (int (length d), None, buf)" and buf: "buf_ok buf" "contents buf = d"
    using assms(3) by auto
  have "peek_string buf (length d) = d"
    using peek_string_contents [of "length d" buf] length_contents [OF buf(1)] buf(2) by simp
  with r assms(1,5) buf show ?thesis by (intro that [of buf]) (simp_all add: received_def Let_def)
qed

lemma read_turn_quiet:
  assumes om: "message_handler om" and inv: "tables_ok {} s" "quiet s"
    and buf: "buf_ok buf" "contents buf = d" and i: "um_find (ts_store s) i = Some c"
    and w2: "w2 = om e f j d (received e i buf d s, a)"
    and s3: "s3 = upd_conn i (\<lambda>c. c\<lparr>cn_in := retrieve (length d) (cn_in c)\<rparr>) (fst w2)"
  shows "tables_ok {} s3 \<and> frame {i} s s3 \<and> quiet s3"
proof -
  let ?s1 = "received e i buf d s"
  have "keeps {i} {} {} s ?s1"
    unfolding received_def by (rule keeps_trans [OF keeps_in keeps_recv]) (auto simp: same_static_def)
  moreover have "keeps {} {} {} ?s1 (fst w2)"
    using message_handler.om_keeps [OF om, of "(?s1, a)"] w2 by simp
  moreover have "keeps {i} {} {} (fst w2) s3" unfolding s3 by (rule keeps_in) (auto simp: same_static_def)
  ultimately have t: "tables_ok {} (fst w2)" "tables_ok {} s3" and f: "frame {i} s ?s1" "frame {} ?s1 (fst w2)" "frame {i} (fst w2) s3"
    using inv(1) by (auto simp: keeps_def)
  have fr: "frame {i} s s3" using f frame_mono [OF f(2), of "{i}"] by (blast intro: frame_trans)
  have ok: "um_ok (ts_store s)" "um_ok (ts_store (fst w2))" using inv(1) t(1) by (auto simp: tables_ok_def table_ok_def)
  from f(2) have "rel_option (same_static False) (um_find (ts_store ?s1) i) (um_find (ts_store (fst w2)) i)"
    by (simp add: frame_def)
  then have "\<exists>c2. um_find (ts_store (fst w2)) i = Some c2 \<and> cn_in c2 = buf"
    using i ok(1) by (auto simp: received_def upd_conn_store same_static_def option_rel_Some1)
  then have "quiet s3"
    using buf ok(2) by (intro quiet_frame [OF fr inv(2)]) (auto simp: s3 upd_conn_store buf_ok_retrieve contents_retrieve)
  with t fr show ?thesis by simp
qed

lemma close_quiet:
  assumes "tables_ok {} (fst w)" "quiet (fst w)"
  shows "tables_ok {} (fst (closeConnInLoop e i w)) \<and> frame R (fst w) (fst (closeConnInLoop e i w)) \<and>
    quiet (fst (closeConnInLoop e i w))"
  using keeps_close0 [of "{}" w e i] assms by (auto simp: keeps_def intro: quiet_frame frame_mono)

lemma readable_quiet:
  assumes "message_handler om"
  shows "tables_ok {} (fst w) \<Longrightarrow> quiet (fst w) \<Longrightarrow>
    tables_ok {} (fst (handleReadable e om i rs w)) \<and> frame {i} (fst w) (fst (handleReadable e om i rs w)) \<and>
    quiet (fst (handleReadable e om i rs w))"
proof (induction rs arbitrary: w)
  case (Cons r rs)
  note inv = Cons.prems
  show ?case
  proof (cases "um_find (ts_store (fst w)) i")
    case (Some c)
    with inv have q: "buf_ok (cn_in c)" "contents (cn_in c) = []" by (auto simp: quiet_def)
    show ?thesis
    proof (cases "r (iov_lens (cn_in c))")
      case (Inl er)
      then show ?thesis
        using Some inv close_quiet [OF inv] Cons.IH [OF inv] by (auto simp: readFd_error)
    next
      case (Inr d)
      show ?thesis
      proof (cases "d = []")
        case False
        from readable_step [of w i c r d e om rs, OF Some q Inr False] obtain buf where
          buf: "buf_ok buf" "contents buf = d" and step:
          "handleReadable e om i (r # rs) w =
             (let w' = om e (cn_fd c) (cn_id c) d (received e i buf d (fst w), snd w)
              in handleReadable e om i rs (upd_conn i (\<lambda>c. c\<lparr>cn_in := retrieve (length d) (cn_in c)\<rparr>) (fst w'), snd w'))" by blast
        let ?w2 = "om e (cn_fd c) (cn_id c) d (received e i buf d (fst w), snd w)"
        let ?s3 = "upd_conn i (\<lambda>c. c\<lparr>cn_in := retrieve (length d) (cn_in c)\<rparr>) (fst ?w2)"
        from read_turn_quiet [OF assms inv buf Some refl refl] have "tables_ok {} ?s3" "frame {i} (fst w) ?s3" "quiet ?s3" by auto
        with Cons.IH [of "(?s3, snd ?w2)"] show ?thesis unfolding step Let_def by (auto intro: frame_trans)
      next
        case True
        from readFd_buffer [where readv = r, OF q(1) Inr] obtain b where
          b: "readFd r (cn_in c) = (0, None, b)" "buf_ok b" "contents b = []" using True q(2) by auto
        let ?s = "upd_conn i (\<lambda>c. c\<lparr>cn_in := b\<rparr>) (fst w)"
        have "keeps {i} {} {} (fst w) ?s" by (rule keeps_in) (auto simp: same_static_def)
        then have t: "tables_ok {} ?s" "frame {i} (fst w) ?s" using inv(1) by (auto simp: keeps_def)
        have "um_ok (ts_store (fst w))" using inv(1) by (auto simp: tables_ok_def table_ok_def)
        then have "quiet ?s" using b by (intro quiet_frame [OF t(2) inv(2)]) (auto simp: upd_conn_store)
        with close_quiet [of "(?s, snd w)" e i] t b Some show ?thesis by (auto intro: frame_trans)
      qed
    qed
  qed (use inv in simp)
qed simp

section \<open>Connection ids\<close>

text \<open>
  Ids are handed out once: every object has an id below the counter, and the ids of connections
  that still wait in a queue to be added are below the counter, unused and pairwise different.
  \<open>ts\<close> are tasks taken from a queue that have not run yet.
\<close>

definition fresh_id :: "tcp \<Rightarrow> u64 \<Rightarrow> bool" where
  "fresh_id s i \<longleftrightarrow> i < ts_next_conn_id s \<and> um_find (ts_store s) i = None"

definition ids_ok :: "task list \<Rightarrow> tcp \<Rightarrow> bool" where
  "ids_ok ts s \<longleftrightarrow> (\<forall>i. um_find (ts_store s) i \<noteq> None \<longrightarrow> i < ts_next_conn_id s) \<and>
     distinct (add_ids ts) \<and> (\<forall>i \<in> set (add_ids ts). fresh_id s i) \<and>
     (\<forall>l. distinct (add_ids (ts_tasks s l)) \<and> set (add_ids (ts_tasks s l)) \<inter> set (add_ids ts) = {} \<and>
        (\<forall>i \<in> set (add_ids (ts_tasks s l)). fresh_id s i)) \<and>
     (\<forall>l l'. l \<noteq> l' \<longrightarrow> set (add_ids (ts_tasks s l)) \<inter> set (add_ids (ts_tasks s l')) = {})"

definition good :: "task list \<Rightarrow> tcp \<Rightarrow> bool" where
  "good ts s \<longleftrightarrow> tables_ok {} s \<and> quiet s \<and> ids_ok ts s"

lemma ids_frame: assumes "frame R s s'" "ids_ok ts s" shows "ids_ok ts s'"
proof -
  have next_id: "ts_next_conn_id s' = ts_next_conn_id s" using assms(1) by (simp add: frame_def)
  have none: "um_find (ts_store s') i = None \<longleftrightarrow> um_find (ts_store s) i = None" for i
  proof -
    from assms(1) have "rel_option (same_static (i \<in> R)) (um_find (ts_store s) i) (um_find (ts_store s') i)"
      by (simp add: frame_def)
    then show ?thesis by (auto elim!: option.rel_cases)
  qed
  have adds: "add_ids (ts_tasks s' l) = add_ids (ts_tasks s l)" for l
  proof -
    from assms(1) obtain us where "ts_tasks s' l = ts_tasks s l @ us" "add_ids us = []" unfolding frame_def by meson
    then show ?thesis by simp
  qed
  have fresh: "fresh_id s' = fresh_id s" by (simp add: fun_eq_iff fresh_id_def next_id none)
  from assms(2) show ?thesis unfolding ids_ok_def adds fresh next_id none .
qed

lemma good_keeps: assumes "keeps {} {} {} s s'" "good ts s" shows "good ts s'"
  using assms ids_frame quiet_frame [of "{}"] by (auto simp: good_def keeps_def)

lemma good_readable:
  assumes "message_handler om" "good ts (fst w)" shows "good ts (fst (handleReadable e om i rs w))"
proof -
  have inv: "tables_ok {} (fst w)" "quiet (fst w)" "ids_ok ts (fst w)" using assms(2) by (simp_all add: good_def)
  note r = readable_quiet [OF assms(1) inv(1,2), of e i rs]
  with ids_frame [OF _ inv(3)] show ?thesis unfolding good_def by blast
qed

lemma good_run_cb:
  assumes "message_handler om" "good ts (fst w)" shows "good ts (fst (run_cb e om loops rs cb w))"
proof (cases cb)
  case (OnReadable i)
  then show ?thesis using assms(2) good_readable [OF assms] by (simp add: run_cb_def)
next
  case (OnWritable i)
  have "keeps {} {} {} (fst w) (fst (flushWrite e i w))" using keeps_flush [of "{}" "{}" i w e] by simp
  then show ?thesis using assms(2) good_keeps OnWritable by (simp add: run_cb_def)
next
  case (OnClose i)
  then show ?thesis using assms(2) good_keeps [OF keeps_closeConn [where e = e and i = i] assms(2)] by (simp add: run_cb_def)
qed

lemma good_event:
  assumes "message_handler om" "good ts (fst w)"
  shows "good ts (fst (conn_event e om loops i ev rs w))"
proof (cases "um_find (ts_store (fst w)) i")
  case (Some c)
  obtain cbs ch where h: "handleEvent ev (cn_channel c) = (cbs, ch)" by fastforce
  have "keeps {} {} {} (fst w) (upd_conn i (\<lambda>c. c\<lparr>cn_channel := ch\<rparr>) (fst w))"
    by (rule keeps_upd) (auto simp: same_static_def)
  then have "good ts (upd_conn i (\<lambda>c. c\<lparr>cn_channel := ch\<rparr>) (fst w))" by (rule good_keeps) (rule assms(2))
  then have "good ts (fst (fold (run_cb e om loops rs) cbs (upd_conn i (\<lambda>c. c\<lparr>cn_channel := ch\<rparr>) (fst w), snd w)))"
    by (induction cbs arbitrary: w rule: rev_induct) (auto intro: good_run_cb [OF assms(1)])
  then show ?thesis using Some h by (simp add: conn_event_def)
qed (use assms in \<open>simp add: conn_event_def\<close>)

lemma good_new_object:
  assumes "good (AddConn f i l # ts) s" "buf_ok (cn_in c)" "contents (cn_in c) = []"
  shows "good ts (s\<lparr>ts_store := um_put i c (ts_store s)\<rparr>)"
proof -
  let ?s1 = "s\<lparr>ts_store := um_put i c (ts_store s)\<rparr>"
  from assms(1) have t: "table_ok s" "\<And>j. settled j s" "quiet s" and ids: "ids_ok (AddConn f i l # ts) s"
    by (auto simp: good_def tables_ok_def)
  then have fresh: "um_find (ts_store s) i = None" "i < ts_next_conn_id s" by (auto simp: ids_ok_def fresh_id_def)
  have ok: "um_ok (ts_store s)" using t(1) by (auto simp: table_ok_def)
  note put = um.ok_put [OF ok] um.find_put [OF ok]
  have used: "um_find (ts_conns s) g \<noteq> Some i" for g using table_conn [OF t(1), of g i] fresh by auto
  have "table_ok ?s1" using t(1) used by (auto simp: table_ok_def put)
  moreover have "settled j ?s1" for j using t(2) [of j] used by (auto simp: settled_def put)
  moreover have "quiet ?s1" using t(3) assms(2,3) by (auto simp: quiet_def put)
  moreover have "ids_ok ts ?s1" using ids fresh by (auto simp: ids_ok_def fresh_id_def put)
  ultimately show ?thesis by (simp add: good_def tables_ok_def)
qed

lemma good_enter:
  assumes "good ts s" "um_find (ts_store s) i = Some c" "cn_fd c = f" "cn_id c = i" "cn_writing c \<longleftrightarrow> cn_out c \<noteq> []"
  shows "good ts (s\<lparr>ts_conns := um_put f i (ts_conns s), ts_conn_count := n\<rparr>)"
proof -
  let ?s1 = "s\<lparr>ts_conns := um_put f i (ts_conns s), ts_conn_count := n\<rparr>"
  from assms(1) have t: "table_ok s" "\<And>j. settled j s" by (auto simp: good_def tables_ok_def)
  then have ok: "um_ok (ts_conns s)" by (simp add: table_ok_def)
  note put = um.ok_put [OF ok] um.find_put [OF ok]
  have "table_ok ?s1" using t(1) assms(2-) by (auto simp: table_ok_def put)
  moreover have "settled j ?s1" for j using t(2) [of j] assms(2-) by (auto simp: settled_def put)
  ultimately show ?thesis using assms(1) by (simp add: good_def tables_ok_def quiet_def ids_ok_def fresh_id_def)
qed

lemma good_add:
  assumes "good (AddConn f i l # ts) (fst w)"
  shows "good ts (fst (addConnection e f i l w))"
proof -
  let ?s = "fst w"
  let ?c = "(new_Conn f i l (env_now e))\<lparr>cn_channel := (cn_channel (new_Conn f i l (env_now e)))
    \<lparr>ch_read_cb := Some (OnReadable i), ch_write_cb := Some (OnWritable i), ch_close_cb := Some (OnClose i)\<rparr>\<rparr>"
  let ?s1 = "?s\<lparr>ts_store := um_put i ?c (ts_store ?s)\<rparr>"
  let ?s2 = "chan_op (enableReading (env_ctl e) i) i ?s1"
  have c: "cn_fd ?c = f" "cn_id ?c = i" "cn_writing ?c = False" "cn_out ?c = []" "buf_ok (cn_in ?c)" "contents (cn_in ?c) = []"
    by (simp_all add: new_Conn_def buf_ok_new)
  have "good ts ?s1" by (rule good_new_object [OF assms c(5,6)])
  then have g2: "good ts ?s2" by (rule good_keeps [OF keeps_chan])
  have "um_ok (ts_store ?s)" using assms by (simp add: good_def tables_ok_def table_ok_def)
  then have "um_ok (ts_store ?s1)" "um_find (ts_store ?s1) i = Some ?c" by (simp_all add: um.ok_put um.find_put)
  from chan_op_store(3) [OF this] obtain c' where c': "um_find (ts_store ?s2) i = Some c'" "same_conn ?c c'" by blast
  from same_conn_simps [OF this(2)] c have "cn_fd c' = f" "cn_id c' = i" "cn_writing c' \<longleftrightarrow> cn_out c' \<noteq> []" by auto
  from good_enter [OF g2 c'(1) this] show ?thesis by (simp add: addConnection_def Let_def)
qed

lemma good_exec:
  assumes "good (t # ts) (fst w)" shows "good ts (fst (exec_task e t w))"
proof (cases t)
  case (AddConn f i l)
  with assms good_add [where w = w] show ?thesis by (simp add: exec_task_def)
next
  case (AppendFlush i d)
  with assms have "good ts (fst w)" by (simp add: good_def ids_ok_def)
  then show ?thesis using AppendFlush good_keeps [OF keeps_append] by (simp add: exec_task_def)
next
  case (CloseTask i)
  with assms have "good ts (fst w)" by (simp add: good_def ids_ok_def)
  then show ?thesis using CloseTask good_keeps [OF keeps_close0] by (simp add: exec_task_def)
qed

lemma good_run_tasks: assumes "good [] (fst w)" shows "good [] (fst (run_tasks e w))"
proof -
  let ?ts = "ts_tasks (fst w) (env_loop e)"
  have "good ?ts ((fst w)\<lparr>ts_tasks := (ts_tasks (fst w))(env_loop e := [])\<rparr>)"
    using assms by (auto simp: good_def tables_ok_def table_ok_def settled_def quiet_def ids_ok_def fresh_id_def)
  moreover have "good us (fst w) \<Longrightarrow> good [] (fst (fold (exec_task e) us w))" for us and w :: "tcp \<times> 'a"
  proof (induction us arbitrary: w)
    case (Cons u us)
    from Cons.IH [OF good_exec [OF Cons.prems]] show ?case by simp
  qed simp
  ultimately show ?thesis by (simp add: run_tasks_def Let_def)
qed

lemma unat_not_minus_1: "unat (c :: u64) + 1 < 2 ^ 64 \<Longrightarrow> c \<noteq> -1"
  by (auto simp: unsigned_minus_1_eq_mask mask_eq_exp_minus_1)

lemma good_next_id:
  assumes "good ts s" "unat (ts_next_conn_id s) + 1 < 2 ^ 64"
  shows "good (AddConn f (ts_next_conn_id s) l # ts) (s\<lparr>ts_pool := lp, ts_next_conn_id := ts_next_conn_id s + 1\<rparr>)"
proof -
  have lt: "ts_next_conn_id s < ts_next_conn_id s + 1" by (rule plus_1_gt [OF unat_not_minus_1 [OF assms(2)]])
  have "\<And>i. i < ts_next_conn_id s \<Longrightarrow> i < ts_next_conn_id s + 1" using less_trans [OF _ lt] .
  with assms(1) lt show ?thesis
    by (auto simp: good_def tables_ok_def table_ok_def settled_def quiet_def ids_ok_def fresh_id_def)
qed

lemma good_queue_add:
  assumes "good (AddConn f i l # ts) s"
  shows "good ts (s\<lparr>ts_tasks := (ts_tasks s)(k := ts_tasks s k @ [AddConn f i l])\<rparr>)"
  using assms by (auto simp: good_def tables_ok_def table_ok_def settled_def quiet_def ids_ok_def fresh_id_def)

lemma good_accept:
  "good [] (fst w) \<Longrightarrow> unat (ts_next_conn_id (fst w)) + length as < 2 ^ 64 \<Longrightarrow> good [] (fst (handleAccept e as w))"
proof (induction e as w rule: handleAccept.induct)
  case (2 e er as w)
  then show ?case by simp
next
  case (3 e f as w)
  let ?i = "ts_next_conn_id (fst w)"
  obtain l lp where n: "nextLoop (ts_pool (fst w)) = (l, lp)" by fastforce
  let ?s = "(fst w)\<lparr>ts_pool := lp, ts_next_conn_id := ?i + 1\<rparr>"
  let ?w = "run_in_loop e l (AddConn f ?i l) (?s, snd w)"
  have g: "good [AddConn f ?i l] ?s" using "3.prems" by (intro good_next_id) auto
  have "good [] (fst ?w) \<and> ts_next_conn_id (fst ?w) = ?i + 1"
    using good_add [where w = "(?s, snd w)", unfolded fst_conv, OF g] good_queue_add [OF g]
    by (simp add: run_in_loop_def exec_task_def addConnection_def Let_def)
  moreover have "unat (?i + 1) = unat ?i + 1" using unat_plus_1 [OF unat_not_minus_1 [of ?i]] "3.prems"(2) by simp
  ultimately have "good [] (fst (handleAccept e as ?w))"
    using "3.IH" [OF n [symmetric] refl refl refl] "3.prems" by simp
  then show ?case by (simp add: n Let_def)
qed simp

section \<open>Steps of the server\<close>

text \<open>
  A step is one handler, run by one thread: the base loop accepts and sweeps, an I/O loop
  dispatches an event or runs its queue, any thread calls \<open>send\<close> or \<open>shutdown\<close>, and the kernel
  decides what the next calls of \<open>send\<close> will answer. Fewer than \<open>2 ^ 64\<close> connections are accepted.
\<close>

inductive tcp_step :: "'a on_message \<Rightarrow> tcp \<times> 'a \<Rightarrow> tcp \<times> 'a \<Rightarrow> bool" for om where
  accept: "unat (ts_next_conn_id (fst w)) + length as < 2 ^ 64 \<Longrightarrow> tcp_step om w (handleAccept e as w)"
| event: "tcp_step om w (conn_event e om loops i ev rs w)"
| tasks: "tcp_step om w (run_tasks e w)"
| sweep: "tcp_step om w (sweepIdle e w)"
| api_send: "tcp_step om w (send e f d w)"
| api_shutdown: "tcp_step om w (shutdown e f w)"
| kernel: "tcp_step om (s, a) (s\<lparr>ts_sends := xs\<rparr>, a)"

inductive tcp_reachable :: "'a on_message \<Rightarrow> nat loop_pool \<Rightarrow> int \<Rightarrow> 'a \<Rightarrow> tcp \<times> 'a \<Rightarrow> bool" for om lp idle a where
  start: "tcp_reachable om lp idle a (new_TcpServer lp idle, a)"
| step: "tcp_reachable om lp idle a w \<Longrightarrow> tcp_step om w w' \<Longrightarrow> tcp_reachable om lp idle a w'"

lemma good_step: assumes "message_handler om" "tcp_step om w w'" "good [] (fst w)" shows "good [] (fst w')"
  using assms(2,3)
proof cases
  case (accept as e)
  with assms(3) show ?thesis by (simp add: good_accept)
next
  case (event e loops i ev rs)
  with good_event [OF assms(1,3)] show ?thesis by simp
next
  case (tasks e)
  with good_run_tasks [OF assms(3)] show ?thesis by simp
next
  case (sweep e)
  with good_keeps [OF keeps_sweep assms(3)] show ?thesis by simp
next
  case (api_send e f d)
  with good_keeps [OF keeps_send assms(3)] show ?thesis by simp
next
  case (api_shutdown e f)
  with good_keeps [OF keeps_shutdown assms(3)] show ?thesis by simp
next
  case (kernel s a xs)
  then show ?thesis using good_keeps [OF keeps_cong assms(3)] by simp
qed

lemma good_start: "good [] (new_TcpServer lp idle)"
  by (simp add: good_def tables_ok_def table_ok_def settled_def quiet_def ids_ok_def fresh_id_def new_TcpServer_def)

lemma good_reachable: assumes "message_handler om" "tcp_reachable om lp idle a w" shows "good [] (fst w)"
  using assms(2) by induction (auto intro: good_step [OF assms(1)] simp: good_start)

end
