(* ===== verification/TcpServer_Steps.thy ===== *)
theory TcpServer_Steps
  imports TcpServer_Inv
begin

text \<open>
  Relations between two states of the transport that every handler respects. The locale
  \<open>transport_relation\<close> lists what the handlers are built from; that they respect such a relation is
  proved once, and two relations are instances: the mask of a channel agrees with the flag of its
  connection (\<open>armed\<close>), and a descriptor that is not in the table is not closed and does not come back
  (\<open>shut\<close>).
\<close>

section \<open>Handlers respect a relation\<close>

locale transport_relation =
  fixes P :: "tcp \<times> 'a \<Rightarrow> tcp \<times> 'a \<Rightarrow> bool"
  assumes P_refl: "P w w"
    and P_trans: "P w1 w2 \<Longrightarrow> P w2 w3 \<Longrightarrow> P w1 w3"
    and P_other: "\<lbrakk>ts_conns s' = ts_conns s; ts_store s' = ts_store s; ts_tasks s' = ts_tasks s; ts_log s' = ts_log s; ts_pool s' = ts_pool s\<rbrakk> \<Longrightarrow>
      P (s, a) (s', a)"
    and P_object: "(\<And>c. cn_fd (g c) = cn_fd c \<and> cn_writing (g c) = cn_writing c \<and> ch_events (cn_channel (g c)) = ch_events (cn_channel c)) \<Longrightarrow>
      P (s, a) (upd_conn i g s, a)"
    and P_queue: "add_id t = None \<Longrightarrow> P (s, a) (s\<lparr>ts_tasks := (ts_tasks s)(l := ts_tasks s l @ [t])\<rparr>, a)"
    and P_close: "P w (closeConnInLoop e i w)"
    and P_flush: "P w (flushWrite e i w)"
begin

lemma P_append: "P w (appendAndFlush e i d w)"
proof -
  let ?s = "upd_conn i (\<lambda>c. c\<lparr>cn_last_active_ms := env_now e, cn_out := cn_out c @ d\<rparr>) (fst w)"
  have "P (fst w, snd w) (?s, snd w)" by (rule P_object) simp
  then show ?thesis
    using P_trans [OF _ P_flush] P_refl by (simp add: appendAndFlush_def Let_def split: option.split)
qed

lemma P_exec: "add_id t = None \<Longrightarrow> P w (exec_task e t w)"
  by (cases t) (simp_all add: exec_task_def P_append P_close)

lemma P_run: "add_id t = None \<Longrightarrow> P w (run_in_loop e l t w)"
  using P_queue [of t "fst w" "snd w" l] by (simp add: run_in_loop_def P_exec)

lemma P_send: "P w (send e f d w)"
  by (simp add: send_def P_run P_refl split: option.split)

lemma P_shutdown: "P w (shutdown e f w)"
  by (simp add: shutdown_def P_run P_refl split: option.split)

lemma P_closeConn: "P w (closeConn e i w)"
  by (simp add: closeConn_def P_run P_close)

lemma P_fold: "(\<And>x w. x \<in> set xs \<Longrightarrow> P w (f x w)) \<Longrightarrow> P w (fold f xs w)"
proof (induction xs arbitrary: w)
  case (Cons x xs)
  have "P w (f x w)" "P (f x w) (fold f xs (f x w))" using Cons by simp_all
  then show ?case by (auto intro: P_trans)
qed (simp add: P_refl)

lemma P_sweep: "P w (sweepIdle e w)"
proof -
  have "P (s, a) (closeConn e i (s\<lparr>ts_closed_idle := n\<rparr>, a))" for s a n i
    by (rule P_trans [OF P_other P_closeConn]) simp_all
  then show ?thesis by (auto simp: sweepIdle_def P_refl intro!: P_fold)
qed

end

text \<open>With a message callback that respects the relation, so does the dispatch of events.\<close>

locale transport_client = transport_relation P for P :: "tcp \<times> 'a \<Rightarrow> tcp \<times> 'a \<Rightarrow> bool" +
  fixes om :: "'a on_message"
  assumes P_om: "P w (om e f i d w)"
begin

lemma P_readable: "P w (handleReadable e om i rs w)"
proof (induction rs arbitrary: w)
  case (Cons r rs)
  show ?case
  proof (cases "um_find (ts_store (fst w)) i")
    case (Some c)
    obtain n er b where r: "readFd r (cn_in c) = (n, er, b)" by (metis prod_cases3)
    let ?s1 = "upd_conn i (\<lambda>c. c\<lparr>cn_in := b, cn_last_active_ms := env_now e, cn_recv_bytes := cn_recv_bytes c + of_int n\<rparr>) (fst w)"
    let ?s2 = "?s1\<lparr>ts_recv_bytes := ts_recv_bytes ?s1 + of_int n\<rparr>"
    let ?w3 = "om e (cn_fd c) (cn_id c) (peek_string b (nat n)) (?s2, snd w)"
    let ?s4 = "upd_conn i (\<lambda>c. c\<lparr>cn_in := retrieve (nat n) (cn_in c)\<rparr>) (fst ?w3)"
    have "P (fst w, snd w) (?s1, snd w)" "P (fst ?w3, snd ?w3) (?s4, snd ?w3)" by (rule P_object, simp)+
    moreover have "P (?s1, snd w) (?s2, snd w)" by (rule P_other) simp_all
    moreover have "P (?s2, snd w) ?w3" by (rule P_om)
    ultimately have "P w (?s4, snd ?w3)" unfolding prod.collapse by (blast intro: P_trans)
    from P_trans [OF this Cons.IH] have "P w (handleReadable e om i rs (?s4, snd ?w3))" .
    moreover have "P (fst w, snd w) (closeConnInLoop e i (upd_conn i (\<lambda>c. c\<lparr>cn_in := b\<rparr>) (fst w), snd w))"
      by (rule P_trans [OF P_object P_close]) simp
    ultimately show ?thesis using Cons.IH [of w] P_close [of w e i] P_refl Some r by (simp add: Let_def)
  qed (simp add: P_refl)
qed (simp add: P_refl)

lemma P_run_cb: "P w (run_cb e om loops rs cb w)"
  by (simp add: run_cb_def P_readable P_flush P_closeConn P_refl split: tcp_cb.split)

lemma P_event: "P w (conn_event e om loops i ev rs w)"
proof (cases "um_find (ts_store (fst w)) i")
  case (Some c)
  obtain cbs ch where h: "handleEvent ev (cn_channel c) = (cbs, ch)" by fastforce
  have "upd_conn i (\<lambda>c. c\<lparr>cn_channel := ch\<rparr>) (fst w) = upd_conn i (\<lambda>c. c\<lparr>cn_channel := (cn_channel c)\<lparr>ch_revents := ev\<rparr>\<rparr>) (fst w)"
    using Some h by (auto simp: upd_conn_def handleEvent_def Let_def)
  moreover have "P (fst w, snd w) (upd_conn i (\<lambda>c. c\<lparr>cn_channel := (cn_channel c)\<lparr>ch_revents := ev\<rparr>\<rparr>) (fst w), snd w)"
    by (rule P_object) simp
  moreover have "P (s, a) (fold (run_cb e om loops rs) cbs (s, a))" for s a by (rule P_fold [OF P_run_cb])
  ultimately show ?thesis using Some h P_trans by (fastforce simp: conn_event_def)
qed (simp add: conn_event_def P_refl)

end

section \<open>The mask of a channel\<close>

definition asks_out :: "tcp_cb channel \<Rightarrow> bool" where
  "asks_out ch \<longleftrightarrow> ch_events ch AND EPOLLOUT \<noteq> 0"

definition armed :: "tcp \<Rightarrow> bool" where
  "armed s \<longleftrightarrow> (\<forall>i c. um_find (ts_store s) i = Some c \<longrightarrow> um_find (ts_conns s) (cn_fd c) = Some i \<longrightarrow>
     (asks_out (cn_channel c) \<longleftrightarrow> cn_writing c))"

lemma out_bit: "x AND EPOLLOUT \<noteq> 0 \<longleftrightarrow> bit x 2"
  by (simp add: EPOLLOUT_def and_exp_eq_0_iff_not_bit [of x 2, simplified])

lemma asks_ops:
  "asks_out (fst (enableWriting ctl p cp))" "\<not> asks_out (fst (disableWriting ctl p cp))"
  "asks_out (fst (enableReading ctl p cp)) = asks_out (fst cp)"
  by (simp_all add: asks_out_def out_bit enableWriting_def disableWriting_def enableReading_def updateChannel_events bit_or_iff bit_and_iff bit_not_iff)
    (simp_all add: epoll_bits)

text \<open>The table and the store after a change of one entry, whatever they hold.\<close>

lemma find_changed [simp]:
  "um_find (um_put k v m) j = (if j = k then Some v else um_find m j)"
  "um_find (um_erase k m) j = (if j = k then None else um_find m j)"
  by (simp_all add: AList.update_conv' AList.delete_conv')

lemma armed_put:
  assumes "armed s" "ts_conns s' = ts_conns s" "ts_store s' = um_put i c (ts_store s)"
    "um_find (ts_conns s) (cn_fd c) = Some i \<Longrightarrow> asks_out (cn_channel c) \<longleftrightarrow> cn_writing c"
  shows "armed s'"
  using assms by (auto simp: armed_def)

lemma armed_writing:
  assumes "armed s" "\<And>cp. asks_out (fst (f cp)) \<longleftrightarrow> b"
  shows "armed (chan_op f i (upd_conn i (\<lambda>c. c\<lparr>cn_writing := b\<rparr>) s))"
proof (cases "um_find (ts_store s) i")
  case (Some c)
  obtain ch po where f: "f (cn_channel c, ts_pollers s (cn_owner c)) = (ch, po)" by fastforce
  have "asks_out ch \<longleftrightarrow> b" using assms(2) [of "(cn_channel c, ts_pollers s (cn_owner c))"] f by simp
  with Some f assms(1) show ?thesis by (auto simp: chan_op_def upd_conn_def armed_def)
qed (use assms in \<open>simp add: chan_op_def upd_conn_def\<close>)

lemma armed_close: "armed (fst w) \<Longrightarrow> armed (fst (closeConnInLoop e i w))"
  by (auto simp: closeConnInLoop_def chan_op_def armed_def log_effect_def Let_def split: option.split prod.split)

lemma armed_same: "armed s \<Longrightarrow> ts_conns s' = ts_conns s \<Longrightarrow> ts_store s' = ts_store s \<Longrightarrow> armed s'"
  by (simp add: armed_def)

lemma armed_object:
  "armed s \<Longrightarrow> (\<And>c. cn_fd (g c) = cn_fd c \<and> cn_writing (g c) = cn_writing c \<and> ch_events (cn_channel (g c)) = ch_events (cn_channel c)) \<Longrightarrow>
   armed (upd_conn i g s)"
  by (auto simp: upd_conn_def armed_def asks_out_def split: option.split)

lemma armed_flush: "v = flushWrite e i w \<Longrightarrow> armed (fst w) \<Longrightarrow> armed (fst v)"
proof (induction w v rule: flushWrite_rule)
  case (idle s a c)
  then show ?case by (auto intro: armed_writing simp: asks_ops)
next
  case (again s a c s')
  then have "armed s'" using pop_send_simps [OF again(3)] by (auto intro: armed_same)
  then show ?case by (auto intro: armed_writing simp: asks_ops)
next
  case (retry s a c s' v)
  then show ?case using pop_send_simps [OF retry(2)] by (auto intro: armed_same)
next
  case (failed s a c x s')
  then have "armed s'" using pop_send_simps [OF failed(3)] by (auto intro: armed_same)
  then show ?case using armed_close [of "(s', a)"] by simp
next
  case (more s a c n s' v)
  then have "armed s'" using pop_send_simps [OF more(3)] by (auto intro: armed_same)
  then have "armed (upd_conn i (\<lambda>c. c\<lparr>cn_out := drop n (cn_out c)\<rparr>) s')" by (rule armed_object) simp
  then show ?case using more(5) armed_same by simp
qed simp

interpretation arm: transport_relation "\<lambda>w w'. armed (fst w) \<longrightarrow> armed (fst w')"
  by unfold_locales (auto intro: armed_close armed_flush [OF refl] armed_object armed_same)

lemma armed_add: "armed (fst w) \<Longrightarrow> armed (fst (addConnection e f i l w))"
proof -
  assume a: "armed (fst w)"
  let ?c = "(new_Conn f i l (env_now e))\<lparr>cn_channel := (cn_channel (new_Conn f i l (env_now e)))
    \<lparr>ch_read_cb := Some (OnReadable i), ch_write_cb := Some (OnWritable i), ch_close_cb := Some (OnClose i)\<rparr>\<rparr>"
  obtain ch po where p: "enableReading (env_ctl e) i (cn_channel ?c, ts_pollers (fst w) l) = (ch, po)" by fastforce
  have "asks_out (fst (enableReading (env_ctl e) i (cn_channel ?c, ts_pollers (fst w) l))) = asks_out (cn_channel ?c)" by (simp add: asks_ops)
  then have "\<not> asks_out ch" using p by (simp add: asks_out_def new_Conn_def new_Channel_def)
  with a p show ?thesis by (auto simp: addConnection_def chan_op_def armed_def new_Conn_def Let_def)
qed

lemma armed_exec: "armed (fst w) \<Longrightarrow> armed (fst (exec_task e t w))"
  using arm.P_exec [of t w e] by (cases t) (simp_all add: exec_task_def armed_add)

lemma armed_run_tasks: assumes "armed (fst w)" shows "armed (fst (run_tasks e w))"
proof -
  have "armed (fst w) \<Longrightarrow> armed (fst (fold (exec_task e) ts w))" for ts and w :: "tcp \<times> 'a"
    by (induction ts arbitrary: w) (auto simp: armed_exec)
  moreover have "armed ((fst w)\<lparr>ts_tasks := (ts_tasks (fst w))(env_loop e := [])\<rparr>)" using assms by (simp add: armed_def)
  ultimately show ?thesis by (simp add: run_tasks_def Let_def)
qed

lemma armed_accept: "armed (fst w) \<Longrightarrow> armed (fst (handleAccept e as w))"
proof (induction e as w rule: handleAccept.induct)
  case (3 e f as w)
  obtain l lp where n: "nextLoop (ts_pool (fst w)) = (l, lp)" by fastforce
  let ?s = "(fst w)\<lparr>ts_pool := lp, ts_next_conn_id := ts_next_conn_id (fst w) + 1\<rparr>"
  have "armed ?s" using "3.prems" by (simp add: armed_def)
  then have "armed (fst (run_in_loop e l (AddConn f (ts_next_conn_id (fst w)) l) (?s, snd w)))"
    using armed_exec [of "(?s, snd w)"] by (simp add: run_in_loop_def armed_def)
  then show ?case using "3.IH" [OF n [symmetric] refl refl refl] by (simp add: n Let_def)
qed simp_all

section \<open>A closed descriptor\<close>

text \<open>No entry of the table, and no connection with this descriptor waits to be added.\<close>

fun add_fd :: "task \<Rightarrow> fd option" where
  "add_fd (AddConn f i l) = Some f"
| "add_fd t = None"

definition shut :: "fd \<Rightarrow> tcp \<Rightarrow> bool" where
  "shut f s \<longleftrightarrow> um_find (ts_conns s) f = None \<and> (\<forall>l. \<forall>t \<in> set (ts_tasks s l). add_fd t \<noteq> Some f)"

definition still :: "fd \<Rightarrow> tcp \<Rightarrow> tcp \<Rightarrow> bool" where
  "still f s s' \<longleftrightarrow> (shut f s \<longrightarrow> shut f s' \<and> count_list (ts_log s') (Closed f) = count_list (ts_log s) (Closed f))"

lemma still_refl [simp]: "still f s s"
  by (simp add: still_def)

lemma still_trans: "still f s1 s2 \<Longrightarrow> still f s2 s3 \<Longrightarrow> still f s1 s3"
  by (simp add: still_def)

lemma still_same:
  "ts_conns s' = ts_conns s \<Longrightarrow> ts_tasks s' = ts_tasks s \<Longrightarrow> count_list (ts_log s') (Closed f) = count_list (ts_log s) (Closed f) \<Longrightarrow> still f s s'"
  by (simp add: still_def shut_def)

lemma still_close: "still f (fst w) (fst (closeConnInLoop e i w))"
  by (auto simp: closeConnInLoop_def still_def shut_def Let_def split: option.split)

lemma still_flush: "v = flushWrite e i w \<Longrightarrow> still f (fst w) (fst v)"
proof (induction w v rule: flushWrite_rule)
  case (again s a c s')
  then show ?case using pop_send_simps [OF again(3)] by (auto intro: still_same)
next
  case (retry s a c s' v)
  then show ?case using pop_send_simps [OF retry(2)] still_trans [OF still_same [of s' s f]] by simp
next
  case (failed s a c x s')
  then show ?case using pop_send_simps [OF failed(3)] still_trans [OF still_same [of s' s f] still_close [of f "(s', a)", unfolded fst_conv]] by simp
next
  case (more s a c n s' v)
  then show ?case using pop_send_simps [OF more(3)] still_trans [OF still_same [of "after_send n c i s'" s f]] by simp
qed (auto intro: still_same)

interpretation stl: transport_relation "\<lambda>w w'. still f (fst w) (fst w')" for f
proof unfold_locales
  show "still f (fst (s, a)) (fst (s\<lparr>ts_tasks := (ts_tasks s)(l := ts_tasks s l @ [t])\<rparr>, a))" if "add_id t = None" for s l t and a :: 'a
    using that by (cases t) (auto simp: still_def shut_def)
qed (auto intro: still_trans still_close still_flush [OF refl] still_same)

lemma still_add: "f \<noteq> g \<Longrightarrow> still f (fst w) (fst (addConnection e g i l w))"
  by (auto simp: addConnection_def still_def shut_def Let_def)

lemma still_exec: "add_fd t \<noteq> Some f \<Longrightarrow> still f (fst w) (fst (exec_task e t w))"
  using stl.P_exec [of t f w e] by (cases t) (auto simp: exec_task_def still_add)

lemma still_run_tasks: "still f (fst w) (fst (run_tasks e w))"
proof -
  let ?ts = "ts_tasks (fst w) (env_loop e)" and ?s = "(fst w)\<lparr>ts_tasks := (ts_tasks (fst w))(env_loop e := [])\<rparr>"
  have "still f ?s (fst (fold (exec_task e) ?ts (?s, snd w)))" if "shut f (fst w)"
  proof -
    have "still f (fst v) (fst (exec_task e t v))" if "t \<in> set ?ts" for t v
      using still_exec [of t f v e] \<open>shut f (fst w)\<close> that by (simp add: shut_def)
    then show ?thesis using stl.P_fold [of ?ts f "exec_task e" "(?s, snd w)"] by simp
  qed
  moreover have "still f (fst w) ?s" by (auto simp: still_def shut_def)
  ultimately show ?thesis by (simp add: run_tasks_def Let_def still_def)
qed

lemma still_accept: "Inr f \<notin> set as \<Longrightarrow> still f (fst w) (fst (handleAccept e as w))"
proof (induction e as w rule: handleAccept.induct)
  case (3 e g as w)
  obtain l lp where n: "nextLoop (ts_pool (fst w)) = (l, lp)" by fastforce
  let ?i = "ts_next_conn_id (fst w)"
  let ?s = "(fst w)\<lparr>ts_pool := lp, ts_next_conn_id := ?i + 1\<rparr>"
  let ?w = "run_in_loop e l (AddConn g ?i l) (?s, snd w)"
  have g: "f \<noteq> g" "Inr f \<notin> set as" using "3.prems" by auto
  have "still f (fst w) ?s" by (rule still_same) simp_all
  moreover have "still f ?s (fst ?w)"
    using still_exec [of "AddConn g ?i l" f "(?s, snd w)" e] g(1) by (auto simp: run_in_loop_def) (auto simp: still_def shut_def)
  moreover have "still f (fst ?w) (fst (handleAccept e as ?w))" using "3.IH" [OF n [symmetric] refl refl refl g(2)] .
  ultimately have "still f (fst w) (fst (handleAccept e as ?w))" by (blast intro: still_trans)
  then show ?case by (simp add: n Let_def)
qed simp_all

declare find_changed [simp del]

section \<open>The pool of loops\<close>

lemma pool_other [simp]:
  "ts_pool (chan_op f i s) = ts_pool s" "ts_pool (log_effect x s) = ts_pool s" "ts_pool (fst (closeConnInLoop e i w)) = ts_pool (fst w)"
  by (auto simp: log_effect_def chan_op_def closeConnInLoop_def Let_def split: option.split prod.split)

lemma pool_flush: "v = flushWrite e i w \<Longrightarrow> ts_pool (fst v) = ts_pool (fst w)"
proof (induction w v rule: flushWrite_rule)
  case (again s a c s')
  then show ?case by (auto simp: pop_send_def split: list.splits)
next
  case (retry s a c s' v)
  then show ?case by (auto simp: pop_send_def split: list.splits)
next
  case (failed s a c x s')
  then show ?case by (auto simp: pop_send_def split: list.splits)
next
  case (more s a c n s' v)
  then show ?case by (auto simp: pop_send_def split: list.splits)
qed simp_all

interpretation pl: transport_relation "\<lambda>w w'. ts_pool (fst w') = ts_pool (fst w)"
  by unfold_locales (simp_all add: pool_flush [OF refl])

lemma pool_exec: "ts_pool (fst (exec_task e t w)) = ts_pool (fst w)"
  using pl.P_exec [where t = t and w = w and e = e] by (cases t) (simp_all add: exec_task_def addConnection_def Let_def)

lemma pool_run_tasks: "ts_pool (fst (run_tasks e w)) = ts_pool (fst w)"
proof -
  have "ts_pool (fst (fold (exec_task e) ts w)) = ts_pool (fst w)" for ts and w :: "tcp \<times> 'a"
    by (induction ts arbitrary: w) (simp_all add: pool_exec)
  then show ?thesis by (simp add: run_tasks_def Let_def)
qed

text \<open>Accepting only moves the round-robin counter of the pool.\<close>

lemma pool_accept:
  "lp_threads (ts_pool (fst (handleAccept e as w))) = lp_threads (ts_pool (fst w)) \<and>
   lp_stopped (ts_pool (fst (handleAccept e as w))) = lp_stopped (ts_pool (fst w))"
proof (induction e as w rule: handleAccept.induct)
  case (3 e f as w)
  obtain l lp where n: "nextLoop (ts_pool (fst w)) = (l, lp)" by fastforce
  then have "lp_threads lp = lp_threads (ts_pool (fst w))" "lp_stopped lp = lp_stopped (ts_pool (fst w))"
    by (auto simp: nextLoop_def split: if_splits)
  then show ?case using "3.IH" [OF n [symmetric] refl refl refl] by (simp add: n Let_def run_in_loop_def pool_exec)
qed simp_all

section \<open>The counter of received bytes\<close>

lemma recv_other [simp]:
  "ts_recv_bytes (log_effect x s) = ts_recv_bytes s" "ts_recv_bytes (fst (closeConnInLoop e i w)) = ts_recv_bytes (fst w)"
  by (auto simp: log_effect_def closeConnInLoop_def Let_def split: option.split)

lemma recv_flush: "v = flushWrite e i w \<Longrightarrow> ts_recv_bytes (fst v) = ts_recv_bytes (fst w)"
proof (induction w v rule: flushWrite_rule)
  case (again s a c s')
  then show ?case by (auto simp: pop_send_def split: list.splits)
next
  case (retry s a c s' v)
  then show ?case by (auto simp: pop_send_def split: list.splits)
next
  case (failed s a c x s')
  then show ?case by (auto simp: pop_send_def split: list.splits)
next
  case (more s a c n s' v)
  then show ?case by (auto simp: pop_send_def split: list.splits)
qed simp_all

lemma recv_api:
  "ts_recv_bytes (fst (send e f d w)) = ts_recv_bytes (fst w)" "ts_recv_bytes (fst (shutdown e f w)) = ts_recv_bytes (fst w)"
  by (simp_all add: send_def shutdown_def run_in_loop_def exec_task_def appendAndFlush_def Let_def recv_flush [OF refl] split: option.split)

section \<open>Clients and steps\<close>

text \<open>
  A client of the transport whose message callback, besides keeping the tables, respects both
  relations and the counter, as \<open>send\<close> and \<open>shutdown\<close> do.
\<close>

locale tcp_client = message_handler +
  assumes om_armed: "armed (fst w) \<Longrightarrow> armed (fst (om e f i d w))"
    and om_still: "still g (fst w) (fst (om e f i d w))"
    and om_recv: "ts_recv_bytes (fst (om e f i d w)) = ts_recv_bytes (fst w)"
    and om_pool: "ts_pool (fst (om e f i d w)) = ts_pool (fst w)"

sublocale tcp_client \<subseteq> arms: transport_client "\<lambda>w w'. armed (fst w) \<longrightarrow> armed (fst w')" om
  by unfold_locales (blast intro: om_armed)

sublocale tcp_client \<subseteq> stls: transport_client "\<lambda>w w'. still f (fst w) (fst w')" om for f
  by unfold_locales (rule om_still)

sublocale tcp_client \<subseteq> pls: transport_client "\<lambda>w w'. ts_pool (fst w') = ts_pool (fst w)" om
  by unfold_locales (rule om_pool)

context tcp_client
begin

lemma pool_step:
  "tcp_step om w w' \<Longrightarrow> lp_threads (ts_pool (fst w')) = lp_threads (ts_pool (fst w)) \<and> lp_stopped (ts_pool (fst w')) = lp_stopped (ts_pool (fst w))"
  by (induction rule: tcp_step.induct) (simp_all add: pool_accept pool_run_tasks pls.P_event pl.P_sweep pl.P_send pl.P_shutdown)

lemma pool_reachable:
  "tcp_reachable om lp idle a w \<Longrightarrow> lp_threads (ts_pool (fst w)) = lp_threads lp \<and> lp_stopped (ts_pool (fst w)) = lp_stopped lp"
proof (induction rule: tcp_reachable.induct)
  case start
  show ?case by (simp add: new_TcpServer_def)
qed (simp add: pool_step)

lemma armed_step: "tcp_step om w w' \<Longrightarrow> armed (fst w) \<Longrightarrow> armed (fst w')"
proof (induction rule: tcp_step.induct)
  case (event w e loops i ev rs)
  then show ?case using arms.P_event by blast
next
  case (kernel s a xs)
  then show ?case by (simp add: armed_def)
qed (simp_all add: armed_accept armed_run_tasks arm.P_sweep [rule_format] arm.P_send [rule_format] arm.P_shutdown [rule_format])

lemma armed_reachable: "tcp_reachable om lp idle a w \<Longrightarrow> armed (fst w)"
proof (induction rule: tcp_reachable.induct)
  case start
  show ?case by (simp add: armed_def new_TcpServer_def)
qed (rule armed_step)

end

text \<open>Steps in which the kernel does not hand out the descriptor \<open>f\<close>.\<close>

inductive step_without :: "fd \<Rightarrow> 'a on_message \<Rightarrow> tcp \<times> 'a \<Rightarrow> tcp \<times> 'a \<Rightarrow> bool" for f om where
  accept: "Inr f \<notin> set as \<Longrightarrow> step_without f om w (handleAccept e as w)"
| event: "step_without f om w (conn_event e om loops i ev rs w)"
| tasks: "step_without f om w (run_tasks e w)"
| sweep: "step_without f om w (sweepIdle e w)"
| api_send: "step_without f om w (send e g d w)"
| api_shutdown: "step_without f om w (shutdown e g w)"
| kernel: "step_without f om (s, a) (s\<lparr>ts_sends := xs\<rparr>, a)"

context tcp_client
begin

lemma still_step: "step_without f om w w' \<Longrightarrow> still f (fst w) (fst w')"
proof (induction rule: step_without.induct)
  case (kernel s a xs)
  show ?case by (simp add: still_same)
qed (simp_all add: still_accept still_run_tasks stls.P_event stl.P_sweep stl.P_send stl.P_shutdown)

lemma still_steps: "(step_without f om)\<^sup>*\<^sup>* w w' \<Longrightarrow> still f (fst w) (fst w')"
  by (induction rule: rtranclp_induct) (auto intro: still_trans still_step)

end

end
