(* ===== verification/TcpServer_Correct.thy ===== *)
theory TcpServer_Correct
  imports TcpServer_Steps
begin

text \<open>
  What the transport promises: the tables are consistent in every reachable state, bytes are sent
  in order and none is lost while the connection is open, a connection is closed once and the
  application is told, reads are passed on exactly, and idle connections are swept.
\<close>

section \<open>Helper lemmas\<close>

text \<open>An open connection of the loop \<open>l\<close>.\<close>

definition open_conn :: "nat \<Rightarrow> fd \<Rightarrow> u64 \<Rightarrow> conn \<Rightarrow> tcp \<Rightarrow> bool" where
  "open_conn l f i c s \<longleftrightarrow> um_find (ts_conns s) f = Some i \<and> um_find (ts_store s) i = Some c \<and> cn_fd c = f \<and> cn_owner c = l \<and>
     (cn_writing c \<longleftrightarrow> cn_out c \<noteq> [])"

lemma append_flushed:
  assumes "um_ok (ts_store (fst w))" "open_conn l f i c (fst w)"
  shows "flushed e i (c\<lparr>cn_out := cn_out c @ d\<rparr>) w (appendAndFlush e i d w)"
proof -
  let ?c = "c\<lparr>cn_last_active_ms := env_now e, cn_out := cn_out c @ d\<rparr>"
  let ?s = "upd_conn i (\<lambda>c. c\<lparr>cn_last_active_ms := env_now e, cn_out := cn_out c @ d\<rparr>) (fst w)"
  have c: "um_find (ts_store (fst w)) i = Some c" "um_find (ts_conns (fst w)) (cn_fd c) = Some i" "cn_writing c \<longleftrightarrow> cn_out c \<noteq> []"
    using assms(2) by (auto simp: open_conn_def)
  have s: "um_ok (ts_store ?s)" "um_find (ts_store ?s) i = Some ?c" "\<And>j. j \<noteq> i \<Longrightarrow> um_find (ts_store ?s) j = um_find (ts_store (fst w)) j"
    using assms(1) c(1) by (simp_all add: upd_conn_store)
  have "flushed e i ?c (?s, snd w) (flushWrite e i (?s, snd w))" using s c by (intro flushWrite_flushed) simp_all
  moreover have "flushed e i ?c (?s, snd w) (?s, snd w)" if "cn_writing c"
    using s c that by (auto simp: flushed_def intro!: exI [of _ "[]"])
  ultimately have "flushed e i ?c (?s, snd w) (appendAndFlush e i d w)"
    using c(1) by (simp add: appendAndFlush_def Let_def)
  then show ?thesis using s(3) by (auto simp: flushed_def)
qed

text \<open>
  What happened to the connection \<open>i\<close> since the state \<open>w\<close> when \<open>data\<close> was added to its output: it is
  still open, or it was closed by a failed write.
\<close>

definition written :: "(fd \<Rightarrow> u64 \<Rightarrow> bool \<Rightarrow> 'a \<Rightarrow> 'a) \<Rightarrow> nat \<Rightarrow> fd \<Rightarrow> u64 \<Rightarrow> string \<Rightarrow> tcp \<times> 'a \<Rightarrow> tcp \<times> 'a \<Rightarrow> bool" where
  "written g l f i data w w' \<longleftrightarrow> um_ok (ts_store (fst w')) \<and> ts_tasks (fst w') = ts_tasks (fst w) \<and>
     (\<exists>L c'. um_find (ts_store (fst w')) i = Some c' \<and>
        (open_conn l f i c' (fst w') \<and> ts_conns (fst w') = ts_conns (fst w) \<and> snd w' = snd w \<and> cn_id c' = i \<and>
           ts_log (fst w') = ts_log (fst w) @ map (Sent f) L \<and> concat L @ cn_out c' = data \<or>
         ts_conns (fst w') = um_erase f (ts_conns (fst w)) \<and> snd w' = g f i False (snd w) \<and>
           ts_log (fst w') = ts_log (fst w) @ map (Sent f) L @ [Closed f] \<and> prefix (concat L) data))"

lemma written_flushed:
  assumes w: "written g l f i data w (s, a)" and c: "open_conn l f i c s" and ok: "um_ok (ts_conns (fst w))"
    and fl: "flushed e i (c\<lparr>cn_out := cn_out c @ d\<rparr>) (s, a) w'" and g: "env_on_connection e = g"
  shows "written g l f i (data @ d) w w'"
proof -
  have "um_find (um_erase f (ts_conns (fst w))) f = None" using ok by (simp add: um.find_erase)
  with w c obtain L where prev: "ts_conns s = ts_conns (fst w)" "a = snd w" "ts_tasks s = ts_tasks (fst w)" "cn_id c = i"
    and L: "ts_log s = ts_log (fst w) @ map (Sent f) L" "concat L @ cn_out c = data"
    by (auto simp: written_def open_conn_def)
  have cf: "cn_fd c = f" "cn_owner c = l" using c by (auto simp: open_conn_def)
  obtain c' L' where c': "um_find (ts_store (fst w')) i = Some c'" "cn_fd c' = f" "cn_id c' = i" "cn_owner c' = l"
    "concat L' @ cn_out c' = cn_out c @ d"
    and r: "(ts_conns (fst w') = ts_conns s \<and> snd w' = a \<and> ts_log (fst w') = ts_log s @ map (Sent f) L' \<and>
        (cn_writing c' \<longleftrightarrow> cn_out c' \<noteq> [])) \<or>
      (ts_conns (fst w') = um_erase f (ts_conns s) \<and> snd w' = g f i False a \<and>
        ts_log (fst w') = ts_log s @ map (Sent f) L' @ [Closed f])"
    using fl prev(4) unfolding flushed_def g by (simp add: cf) blast
  have all: "concat (L @ L') @ cn_out c' = data @ d" using L(2) c'(5) by (metis append.assoc concat_append)
  have "um_ok (ts_store (fst w')) \<and> ts_tasks (fst w') = ts_tasks (fst w)" using fl prev(3) by (auto simp: flushed_def)
  moreover have "prefix (concat (L @ L')) (data @ d)" unfolding all [symmetric] by (rule prefixI [OF refl])
  moreover have "open_conn l f i c' (fst w')" if "ts_conns (fst w') = ts_conns s" "cn_writing c' \<longleftrightarrow> cn_out c' \<noteq> []"
    using that c c' by (simp add: open_conn_def)
  ultimately show ?thesis
    unfolding written_def using c'(1,3) r all prev L(1) by (intro conjI exI [of _ "L @ L'"] exI [of _ c']) auto
qed

text \<open>
  The operations on a connection that its own loop performs: \<open>send\<close> of some data, or the callback
  for a writable descriptor.
\<close>

definition own_op :: "fd \<Rightarrow> u64 \<Rightarrow> nat list \<Rightarrow> 'a env \<times> string option \<Rightarrow> tcp \<times> 'a \<Rightarrow> tcp \<times> 'a" where
  "own_op f i loops eo w =
     (case snd eo of Some d \<Rightarrow> send (fst eo) f d w
      | None \<Rightarrow> run_cb (fst eo) (\<lambda>e f i d w. w) loops [] (OnWritable i) w)"

definition op_data :: "'a env \<times> string option \<Rightarrow> string" where
  "op_data eo = (case snd eo of Some d \<Rightarrow> d | None \<Rightarrow> [])"

lemma own_op_written:
  assumes w: "written g l f i data w w'" and ok: "table_ok (fst w)" and f: "um_find (ts_conns (fst w)) f = Some i"
    and held: "\<And>k. Some i \<notin> set (map task_conn (ts_tasks (fst w) k))"
    and e: "env_loop (fst eo) = l" "env_on_connection (fst eo) = g"
  shows "written g l f i (data @ op_data eo) w (own_op f i loops eo w')"
proof -
  obtain s a where w': "w' = (s, a)" by (cases w')
  have okc: "um_ok (ts_conns (fst w))" using ok by (simp add: table_ok_def)
  show ?thesis
  proof (cases "\<exists>c. open_conn l f i c s")
    case True
    then obtain c where c: "open_conn l f i c s" by blast
    have ok': "um_ok (ts_store s)" using w w' by (simp add: written_def)
    have "flushed (fst eo) i (c\<lparr>cn_out := cn_out c @ op_data eo\<rparr>) (s, a) (own_op f i loops eo (s, a))"
    proof (cases "snd eo")
      case (Some d)
      then show ?thesis
        using append_flushed [of "(s, a)" l f i c "fst eo" d] ok' c e(1)
        by (simp add: own_op_def op_data_def send_def run_in_loop_def owner_of_def exec_task_def open_conn_def)
    next
      case None
      have "i \<in> set (map snd (ts_conns s))"
        using c by (force simp: open_conn_def dest: map_of_SomeD)
      with None show ?thesis
        using flushWrite_flushed [of "(s, a)" i c "fst eo"] ok' c
        by (simp add: own_op_def op_data_def run_cb_def lock_def open_conn_def)
    qed
    from written_flushed [OF w [unfolded w'] c okc this e(2)] show ?thesis by (simp add: w')
  next
    case False
    with w have closed: "ts_conns s = um_erase f (ts_conns (fst w))" "ts_tasks s = ts_tasks (fst w)"
      by (auto simp: w' written_def)
    have "i \<notin> set (map snd (ts_conns s))"
    proof
      assume "i \<in> set (map snd (ts_conns s))"
      then obtain h where "(h, i) \<in> set (ts_conns s)" by auto
      then have "um_find (ts_conns s) h = Some i" using closed okc by (simp add: um.ok_erase)
      then have "h \<noteq> f" "um_find (ts_conns (fst w)) h = Some i" using closed okc by (auto simp: um.find_erase split: if_splits)
      with table_conn [OF ok, of h i] table_conn [OF ok f] show False by auto
    qed
    then have "own_op f i loops eo w' = w'"
      using closed okc held by (auto simp: w' own_op_def send_def run_cb_def lock_def um.find_erase split: option.split)
    moreover have "written g l f i (data @ op_data eo) w w'"
      using w False by (fastforce simp: w' written_def intro: prefix_order.trans)
    ultimately show ?thesis by simp
  qed
qed


section \<open>A kernel without write errors\<close>

text \<open>The answers of \<open>send\<close> that do not end the connection, and what the transport then does.\<close>

definition no_write_error :: "tcp \<Rightarrow> bool" where
  "no_write_error s \<longleftrightarrow> list_all (\<lambda>x. case x of Inr n \<Rightarrow> 0 < n | Inl er \<Rightarrow> er = EAGAIN \<or> er = EINTR) (ts_sends s)"

lemma pop_no_error:
  assumes "no_write_error s" "pop_send s = (x, s')"
  shows "no_write_error s' \<and> (case x of Inr n \<Rightarrow> 0 < n | Inl er \<Rightarrow> er = EAGAIN \<or> er = EINTR)"
  using assms by (auto simp: no_write_error_def pop_send_def split: list.splits)

lemma no_write_error_simps [simp]:
  "no_write_error (upd_conn i f s) = no_write_error s" "no_write_error (chan_op g i s) = no_write_error s"
  "no_write_error (log_effect x s) = no_write_error s"
  by (simp_all add: no_write_error_def)

lemma flush_stays_open:
  "no_write_error (fst w) \<Longrightarrow> no_write_error (fst (flushWrite e i w)) \<and>
   ts_conns (fst (flushWrite e i w)) = ts_conns (fst w) \<and> snd (flushWrite e i w) = snd w"
proof (induction "length (ts_sends (fst w))" arbitrary: w rule: less_induct)
  case less
  obtain s a where w: "w = (s, a)" by (cases w)
  obtain x s' where x: "pop_send s = (x, s')" by fastforce
  have s: "no_write_error s" using less.prems w by simp
  note ps = pop_send_simps [OF x] and pe = pop_no_error [OF s x]
  show ?case
  proof (cases "um_find (ts_store s) i")
    case None
    then show ?thesis unfolding w using s by (subst (1 2 3) flushWrite.simps) simp
  next
    case (Some c)
    show ?thesis
    proof (cases x)
      case (Inl er)
      have "er \<noteq> EAGAIN \<Longrightarrow> no_write_error (fst (flushWrite e i (s', a))) \<and>
          ts_conns (fst (flushWrite e i (s', a))) = ts_conns s' \<and> snd (flushWrite e i (s', a)) = a"
        using less.hyps [of "(s', a)"] pop_send_shorter [OF x] pe Inl w by simp
      then show ?thesis
        unfolding w using Some x Inl pe ps s by (subst (1 2 3) flushWrite.simps) auto
    next
      case (Inr n)
      let ?w = "(log_effect (Sent (cn_fd c) (take n (cn_out c))) (upd_conn i (\<lambda>c. c\<lparr>cn_out := drop n (cn_out c)\<rparr>) s'), a)"
      have "no_write_error (fst (flushWrite e i ?w)) \<and> ts_conns (fst (flushWrite e i ?w)) = ts_conns s' \<and> snd (flushWrite e i ?w) = a"
        using less.hyps [of ?w] pop_send_shorter [OF x] pe Inr w by simp
      then show ?thesis
        unfolding w using Some x Inr pe ps s by (subst (1 2 3) flushWrite.simps) auto
    qed
  qed
qed

text \<open>The effect of sending \<open>d\<close> on an open connection.\<close>

definition sent :: "nat \<Rightarrow> fd \<Rightarrow> u64 \<Rightarrow> string \<Rightarrow> tcp \<Rightarrow> tcp \<Rightarrow> bool" where
  "sent l f i d s s' \<longleftrightarrow> tables_ok {} s' \<and> frame {} s s' \<and> no_write_error s' \<and> ts_conns s' = ts_conns s \<and> ts_tasks s' = ts_tasks s \<and>
     (\<exists>c c' L. open_conn l f i c s \<and> open_conn l f i c' s' \<and> ts_log s' = ts_log s @ map (Sent f) L \<and>
        concat L @ cn_out c' = cn_out c @ d)"

lemma sent_refl: "tables_ok {} s \<Longrightarrow> no_write_error s \<Longrightarrow> open_conn l f i c s \<Longrightarrow> sent l f i [] s s"
  by (auto simp: sent_def intro!: exI [of _ c] exI [of _ "[]"])

lemma sent_trans: assumes "sent l f i d s s1" "sent l f i d' s1 s2" shows "sent l f i (d @ d') s s2"
proof -
  from assms obtain c c1 L c1' c2 L' where
    "open_conn l f i c s" "open_conn l f i c1 s1" "ts_log s1 = ts_log s @ map (Sent f) L" "concat L @ cn_out c1 = cn_out c @ d"
    "open_conn l f i c1' s1" "open_conn l f i c2 s2" "ts_log s2 = ts_log s1 @ map (Sent f) L'" "concat L' @ cn_out c2 = cn_out c1' @ d'"
    unfolding sent_def by blast
  moreover from this have "c1' = c1" by (simp add: open_conn_def)
  ultimately have "open_conn l f i c s \<and> open_conn l f i c2 s2 \<and> ts_log s2 = ts_log s @ map (Sent f) (L @ L') \<and>
      concat (L @ L') @ cn_out c2 = cn_out c @ d @ d'"
    by (metis append.assoc concat_append map_append)
  moreover have "frame {} s s2" using assms by (auto simp: sent_def intro: frame_trans)
  moreover have "ts_conns s2 = ts_conns s" "ts_tasks s2 = ts_tasks s" "tables_ok {} s2" "no_write_error s2"
    using assms by (simp_all add: sent_def)
  ultimately show ?thesis unfolding sent_def by blast
qed

lemma send_sent:
  assumes "tables_ok {} s" "no_write_error s" "open_conn l f i c s" "env_loop e = l"
  shows "\<exists>s'. send e f d (s, a) = (s', a) \<and> sent l f i d s s'"
proof -
  have ok: "um_ok (ts_store s)" using assms(1) by (simp add: tables_ok_def table_ok_def)
  have run: "send e f d (s, a) = appendAndFlush e i d (s, a)"
    using assms(3,4) by (simp add: send_def run_in_loop_def owner_of_def exec_task_def open_conn_def)
  obtain s' a' where r: "appendAndFlush e i d (s, a) = (s', a')" by fastforce
  have fl: "flushed e i (c\<lparr>cn_out := cn_out c @ d\<rparr>) (s, a) (s', a')"
    using append_flushed [of "(s, a)" l f i c e d] ok assms(3) r by simp
  have k: "tables_ok {} s' \<and> frame {} s s'" using keeps_append [of "{}" "(s, a)" e i d] r assms(1) by (simp add: keeps_def)
  have stay: "no_write_error s'" "ts_conns s' = ts_conns s" "a' = a"
    using r assms(2,3) flush_stays_open [of "(upd_conn i (\<lambda>c. c\<lparr>cn_last_active_ms := env_now e, cn_out := cn_out c @ d\<rparr>) s, a)" e i]
    by (auto simp: appendAndFlush_def Let_def open_conn_def split: if_splits)
  have "um_find (um_erase f (ts_conns s)) f = None" using assms(1) by (simp add: tables_ok_def table_ok_def um.find_erase)
  moreover have "um_find (ts_conns s) f = Some i" using assms(3) by (simp add: open_conn_def)
  ultimately have "ts_conns s' \<noteq> um_erase f (ts_conns s)" using stay(2) by auto
  then obtain c' L where "um_find (ts_store s') i = Some c'" "cn_fd c' = f" "cn_owner c' = l" "concat L @ cn_out c' = cn_out c @ d"
    "ts_log s' = ts_log s @ map (Sent f) L" "cn_writing c' \<longleftrightarrow> cn_out c' \<noteq> []"
    using fl assms(3) unfolding flushed_def open_conn_def by auto
  moreover have "ts_tasks s' = ts_tasks s" using fl by (simp add: flushed_def)
  ultimately have "sent l f i d s s'" unfolding sent_def using k stay assms(3) unfolding open_conn_def by auto
  then show ?thesis using run r stay(3) by simp
qed

text \<open>Closing an open connection from its own loop.\<close>

lemma shutdown_closes:
  assumes "tables_ok {} s" "open_conn l f i c s" "env_loop e = l"
  shows "\<exists>s'. shutdown e f (s, a) = (s', env_on_connection e f i False a) \<and> tables_ok {} s' \<and>
    ts_conns s' = um_erase f (ts_conns s) \<and> ts_log s' = ts_log s @ [Closed f]"
proof -
  have ok: "um_ok (ts_store s)" and c: "um_find (ts_store s) i = Some c" "um_find (ts_conns s) (cn_fd c) \<noteq> None" "cn_fd c = f"
    using assms(1,2) by (auto simp: tables_ok_def table_ok_def open_conn_def)
  have "cn_id c = i" using table_conn [of s f i] assms(1,2) c by (auto simp: tables_ok_def open_conn_def)
  moreover have run: "shutdown e f (s, a) = closeConnInLoop e i (s, a)"
    using assms(2,3) by (simp add: shutdown_def run_in_loop_def owner_of_def exec_task_def open_conn_def)
  moreover have "tables_ok {} (fst (closeConnInLoop e i (s, a)))"
    using keeps_close0 [of "{}" "(s, a)" e i] assms(1) by (simp add: keeps_def)
  ultimately show ?thesis using closeConnInLoop_open [OF ok c(1,2), of e a] c(3) by auto
qed

section \<open>Properties\<close>

text \<open>
  C7: the tables of the server. For every client that keeps the contract \<open>tcp_client\<close>, in every reachable state an entry of the table leads to the
  object of a connection with this descriptor and id, no other descriptor leads there, its id was handed
  out, its read buffer is empty, and the event mask of its channel contains \<open>EPOLLOUT\<close> exactly when bytes
  are left to write, which is also what its flag \<open>writing\<close> says.
\<close>

theorem tcp_invariant:
  assumes "tcp_client om" "tcp_reachable om lp idle a (s, a')" "um_find (ts_conns s) f = Some i"
  shows "\<exists>c. um_find (ts_store s) i = Some c \<and> cn_fd c = f \<and> cn_id c = i \<and> i < ts_next_conn_id s \<and>
    (\<forall>g. um_find (ts_conns s) g = Some i \<longrightarrow> g = f) \<and> contents (cn_in c) = [] \<and> (cn_writing c \<longleftrightarrow> cn_out c \<noteq> []) \<and>
    (ch_events (cn_channel c) AND EPOLLOUT \<noteq> 0 \<longleftrightarrow> cn_out c \<noteq> [])"
proof -
  from good_reachable [OF tcp_client.axioms(1) [OF assms(1)] assms(2)] have t: "table_ok s" "settled i s" "quiet s" "ids_ok [] s"
    by (auto simp: good_def tables_ok_def)
  from table_conn [OF t(1) assms(3)] obtain c where c: "um_find (ts_store s) i = Some c" "cn_fd c = f" "cn_id c = i" by blast
  moreover have "g = f" if "um_find (ts_conns s) g = Some i" for g using table_conn [OF t(1) that] c by auto
  moreover have "i < ts_next_conn_id s" using t(4) c(1) by (auto simp: ids_ok_def)
  moreover have "contents (cn_in c) = []" using t(3) c(1) unfolding quiet_def by blast
  moreover have w: "cn_writing c \<longleftrightarrow> cn_out c \<noteq> []" using t(2) c(1,2) assms(3) unfolding settled_def by blast
  moreover have "armed s" using tcp_client.armed_reachable [OF assms(1,2)] by simp
  then have "ch_events (cn_channel c) AND EPOLLOUT \<noteq> 0 \<longleftrightarrow> cn_out c \<noteq> []"
    using w c(1,2) assms(3) unfolding armed_def asks_out_def by blast
  ultimately show ?thesis by blast
qed

text \<open>A server with one connection, descriptor 7, that its base loop serves.\<close>

definition sample_env :: "nat \<Rightarrow> int \<Rightarrow> string list env" where
  "sample_env l now = \<lparr>env_loop = l, env_now = now, env_ctl = (\<lambda>_ _ _. None), env_on_connection = (\<lambda>f i up a. a @ [if up then ''up'' else ''down''])\<rparr>"

definition record_message :: "string list on_message" where
  "record_message e f i d w = (fst w, snd w @ [d])"

definition sample_server :: "tcp \<times> string list" where
  "sample_server = handleAccept (sample_env 0 5) [Inr 7] (new_TcpServer (new_EventLoopThreadPool 0) 30, [])"

lemma record_message_client: "tcp_client record_message"
  by unfold_locales (simp_all add: record_message_def)

interpretation rm: tcp_client record_message
  by (rule record_message_client)

lemmas record_message_handler = rm.message_handler_axioms

lemmas sample_defs = sample_server_def sample_env_def new_TcpServer_def new_EventLoopThreadPool_def nextLoop_def Let_def
  run_in_loop_def exec_task_def addConnection_def chan_op_def enableReading_def updateChannel_def register_def new_Conn_def new_Channel_def

lemma sample_reachable: "tcp_reachable record_message (new_EventLoopThreadPool 0) 30 [] sample_server"
  unfolding sample_server_def by (rule tcp_reachable.step [OF tcp_reachable.start tcp_step.accept]) (simp add: new_TcpServer_def)

lemma sample_table: "um_find (ts_conns (fst sample_server)) 7 = Some 1"
  by (simp add: sample_defs)

theorem tcp_invariant_witness:
  "\<exists>c. um_find (ts_store (fst sample_server)) 1 = Some c \<and> cn_fd c = 7 \<and> contents (cn_in c) = [] \<and>
     (ch_events (cn_channel c) AND EPOLLOUT \<noteq> 0 \<longleftrightarrow> cn_out c \<noteq> [])"
  using tcp_invariant [OF record_message_client _ sample_table] sample_reachable by (metis prod.collapse)

text \<open>
  C6: output order. Whatever the kernel answers, a sequence of \<open>send\<close> calls and writable events that
  the loop of an open connection performs sends the bytes given to \<open>send\<close>, after those already
  waiting, in order, each once: as long as the connection is open, what is not sent is in its buffer
  and the loop waits for \<open>EPOLLOUT\<close>; after a failed write a prefix was sent, the connection is closed
  and the application was told.
\<close>

theorem send_in_order:
  assumes "table_ok s" "open_conn l f i c s" "\<And>k. Some i \<notin> set (map task_conn (ts_tasks s k))"
    "list_all (\<lambda>eo. env_loop (fst eo) = l \<and> env_on_connection (fst eo) = g) ops"
  shows "written g l f i (cn_out c @ concat (map op_data ops)) (s, a) (fold (own_op f i loops) ops (s, a))"
  using assms(4)
proof (induction ops rule: rev_induct)
  case Nil
  from assms(1,2) table_conn [OF assms(1), of f i] have "cn_id c = i" "um_ok (ts_store s)" "um_find (ts_store s) i = Some c"
    by (auto simp: table_ok_def open_conn_def)
  then show ?case unfolding written_def using assms(2) by (auto intro!: exI [of _ "[]"])
next
  case (snoc eo ops)
  then show ?case
    using own_op_written [OF snoc.IH, of eo loops] assms by (simp add: open_conn_def)
qed

definition sample_ops :: "(string list env \<times> string option) list" where
  "sample_ops = [(sample_env 0 5, Some ''ab''), (sample_env 0 6, None)]"

definition sample_conn :: conn where
  "sample_conn = the (um_find (ts_store (fst sample_server)) 1)"

lemma sample_open: "open_conn 0 7 1 sample_conn (fst sample_server)" "cn_out sample_conn = []"
  by (simp_all add: sample_defs open_conn_def sample_conn_def)

lemma sample_tables: "table_ok (fst sample_server)" "quiet (fst sample_server)" "ts_tasks (fst sample_server) k = []"
  using good_reachable [OF record_message_handler sample_reachable] by (simp_all add: good_def tables_ok_def sample_defs)

theorem send_in_order_witness:
  "written (env_on_connection (sample_env 0 5)) 0 7 1 ''ab'' (fst sample_server, []) (fold (own_op 7 1 [0]) sample_ops (fst sample_server, []))"
proof -
  have "cn_out sample_conn @ concat (map op_data sample_ops) = ''ab''"
    by (simp add: sample_open sample_ops_def op_data_def)
  moreover have "list_all (\<lambda>eo. env_loop (fst eo) = 0 \<and> env_on_connection (fst eo) = env_on_connection (sample_env 0 5)) sample_ops"
    by (simp add: sample_ops_def sample_env_def)
  ultimately show ?thesis
    using send_in_order [OF sample_tables(1) sample_open(1), where g = "env_on_connection (sample_env 0 5)" and ops = sample_ops and loops = "[0]" and a = "[]"]
    by (simp add: sample_tables(3))
qed


text \<open>
  A writable socket is drained. If the kernel accepts at least one byte in each of the next
  calls, and there are as many calls as bytes waiting, \<open>flushWrite\<close> sends everything, leaves the
  connection open and stops waiting for \<open>EPOLLOUT\<close>.
\<close>

theorem flush_drains:
  assumes "table_ok (fst w)" "um_find (ts_store (fst w)) i = Some c" "um_find (ts_conns (fst w)) (cn_fd c) = Some i"
    "list_all (\<lambda>x. \<exists>n > 0. x = Inr n) (ts_sends (fst w))" "length (cn_out c) \<le> length (ts_sends (fst w))"
  shows "\<exists>L c'. um_find (ts_store (fst (flushWrite e i w))) i = Some c' \<and> cn_out c' = [] \<and> \<not> cn_writing c' \<and>
    concat L = cn_out c \<and> ts_log (fst (flushWrite e i w)) = ts_log (fst w) @ map (Sent (cn_fd c)) L \<and>
    ts_conns (fst (flushWrite e i w)) = ts_conns (fst w)"
  using assms
proof (induction "length (cn_out c)" arbitrary: w c rule: less_induct)
  case less
  obtain s a where w: "w = (s, a)" by (cases w)
  have ok: "um_ok (ts_store s)" using less.prems(1) w by (simp add: table_ok_def)
  note c = less.prems(2) [unfolded w, simplified]
  show ?case
  proof (cases "cn_out c = []")
    case True
    let ?s = "upd_conn i (\<lambda>c. c\<lparr>cn_writing := False\<rparr>) s"
    have "um_find (ts_store ?s) i = Some (c\<lparr>cn_writing := False\<rparr>)" "um_ok (ts_store ?s)" using ok c by (simp_all add: upd_conn_store)
    from chan_op_store(3) [OF this(2,1), of "disableWriting (env_ctl e) i"] obtain c' where
      "um_find (ts_store (chan_op (disableWriting (env_ctl e) i) i ?s)) i = Some c'" "same_conn (c\<lparr>cn_writing := False\<rparr>) c'" by blast
    with same_conn_simps [OF this(2)] True c show ?thesis
      unfolding w by (subst (1 2 3) flushWrite.simps) (auto intro!: exI [of _ "[]"])
  next
    case False
    then obtain n xs where n: "ts_sends s = Inr n # xs" "n > 0" "list_all (\<lambda>x. \<exists>n > 0. x = Inr n) xs" "length (cn_out c) \<le> Suc (length xs)"
      using less.prems(4,5) w by (cases "ts_sends s") auto
    let ?c = "c\<lparr>cn_out := drop n (cn_out c)\<rparr>"
    let ?s = "log_effect (Sent (cn_fd c) (take n (cn_out c))) (upd_conn i (\<lambda>c. c\<lparr>cn_out := drop n (cn_out c)\<rparr>) (s\<lparr>ts_sends := xs\<rparr>))"
    have unfold: "flushWrite e i w = flushWrite e i (?s, a)"
      using n c False unfolding w by (subst flushWrite.simps) (simp add: pop_send_def)
    have "keeps {} UNIV UNIV s ?s"
      by (rule keeps_trans [OF keeps_cong [where s' = "s\<lparr>ts_sends := xs\<rparr>"] keeps_trans [OF keeps_upd keeps_log]]) (auto simp: same_static_def)
    then have "table_ok ?s" using less.prems(1) w by (simp add: keeps_def tables_ok_def)
    moreover have "um_find (ts_store ?s) i = Some ?c" using ok c by (simp add: upd_conn_store)
    moreover have "length (cn_out ?c) < length (cn_out c)" using n(2) False by (simp add: diff_less)
    ultimately obtain L c' where "um_find (ts_store (fst (flushWrite e i (?s, a)))) i = Some c'" "cn_out c' = []" "\<not> cn_writing c'"
      "concat L = drop n (cn_out c)" "ts_log (fst (flushWrite e i (?s, a))) = ts_log ?s @ map (Sent (cn_fd c)) L"
      "ts_conns (fst (flushWrite e i (?s, a))) = ts_conns ?s"
      using less.hyps [of ?c "(?s, a)"] n less.prems(3) w by (auto simp: le_diff_conv)
    then show ?thesis
      unfolding unfold by (intro exI [of _ "take n (cn_out c) # L"] exI [of _ c']) (simp add: w)
  qed
qed

definition sample_pending :: "tcp \<times> string list" where
  "sample_pending = (upd_conn 1 (\<lambda>c. c\<lparr>cn_out := ''abc'', cn_writing := True\<rparr>) (fst sample_server)\<lparr>ts_sends := [Inr 1, Inr 5, Inr 1]\<rparr>, [])"

theorem flush_drains_witness:
  "\<exists>L c'. um_find (ts_store (fst (flushWrite (sample_env 0 5) 1 sample_pending))) 1 = Some c' \<and> cn_out c' = [] \<and> \<not> cn_writing c' \<and>
    concat L = ''abc'' \<and> ts_log (fst (flushWrite (sample_env 0 5) 1 sample_pending)) = map (Sent 7) L"
proof -
  let ?c = "sample_conn\<lparr>cn_out := ''abc'', cn_writing := True\<rparr>"
  have "table_ok (fst sample_pending)" "um_find (ts_store (fst sample_pending)) 1 = Some ?c" "cn_fd ?c = 7"
    "um_find (ts_conns (fst sample_pending)) 7 = Some 1" "ts_log (fst sample_pending) = []" "ts_sends (fst sample_pending) = [Inr 1, Inr 5, Inr 1]"
    by (simp_all add: sample_pending_def sample_conn_def sample_defs upd_conn_def table_ok_def)
  with flush_drains [of sample_pending 1 ?c "sample_env 0 5"] show ?thesis by auto
qed

text \<open>
  C24: closing. \<open>closeConnInLoop\<close> on an open connection removes its entry, takes its channel out of
  the poller, tells the application once and closes the descriptor once; a second close of the object
  changes nothing. From then on, whatever the server and a client with the contract \<open>tcp_client\<close> do, and until the kernel hands out
  the descriptor again (no connection with it waits to be added either), the table has no entry for it, it is not closed a second time, and \<open>send\<close> and \<open>shutdown\<close> on it
  and a close of any object with this descriptor change nothing.
\<close>

theorem close_once:
  assumes "table_ok s" "open_conn l f i c s" "registered i (cn_channel c, ts_pollers s l)" "closeConnInLoop e i (s, a) = (s', a')"
    and "tcp_client om" "\<And>k t. t \<in> set (ts_tasks s k) \<Longrightarrow> add_fd t \<noteq> Some f" "(step_without f om)\<^sup>*\<^sup>* (s', a') (s2, a2)"
  shows "a' = env_on_connection e f (cn_id c) False a \<and> ts_log s' = ts_log s @ [Closed f] \<and>
    ts_conns s' = um_erase f (ts_conns s) \<and>
    (\<exists>c'. um_find (ts_store s') i = Some c' \<and> ch_events (cn_channel c') = 0 \<and> \<not> ch_in_poller (cn_channel c') \<and>
       registered i (cn_channel c', ts_pollers s' l)) \<and>
    closeConnInLoop e2 i (s', a') = (s', a') \<and>
    um_find (ts_conns s2) f = None \<and> count_list (ts_log s2) (Closed f) = count_list (ts_log s) (Closed f) + 1 \<and>
    send e2 f d (s2, a2) = (s2, a2) \<and> shutdown e2 f (s2, a2) = (s2, a2) \<and>
    (\<forall>j k. um_find (ts_store s2) j = Some k \<longrightarrow> cn_fd k = f \<longrightarrow> closeConnInLoop e2 j (s2, a2) = (s2, a2))"
proof -
  have c: "um_find (ts_store s) i = Some c" "um_find (ts_conns s) (cn_fd c) \<noteq> None" "cn_fd c = f" and ok: "um_ok (ts_store s)" "um_ok (ts_conns s)"
    using assms(1,2) by (auto simp: open_conn_def table_ok_def)
  from closeConnInLoop_open [OF ok(1) c(1,2), of e a] assms(4) obtain c' where
    s': "a' = env_on_connection e f (cn_id c) False a" "ts_conns s' = um_erase f (ts_conns s)" "ts_log s' = ts_log s @ [Closed f]"
    "um_find (ts_store s') i = Some c'" "same_conn c c'" "ts_tasks s' = ts_tasks s" using c(3) assms(4) by auto
  have none: "um_find (ts_conns s') f = None" using s'(2) ok(2) by (simp add: um.find_erase)
  have "shut f s'" using none s'(6) assms(6) unfolding shut_def by (metis)
  with tcp_client.still_steps [OF assms(5,7)] have s2: "shut f s2" "count_list (ts_log s2) (Closed f) = count_list (ts_log s') (Closed f)"
    by (simp_all add: still_def)
  then have none2: "um_find (ts_conns s2) f = None" by (simp add: shut_def)
  have "cn_fd c' = f" using same_conn_simps [OF s'(5)] c(3) by simp
  with none s'(4) have "closeConnInLoop e2 i (s', a') = (s', a')" by (simp add: closeConnInLoop_done)
  moreover have "cn_channel c' = fst (disableAll (cn_channel c, ts_pollers s l))" "ts_pollers s' l = snd (disableAll (cn_channel c, ts_pollers s l))"
    using assms(2,4) c ok(1) s'(4)
    by (auto simp: open_conn_def closeConnInLoop_def Let_def chan_op_def um.find_put log_effect_def split: prod.splits)
  then have "ch_events (cn_channel c') = 0 \<and> \<not> ch_in_poller (cn_channel c') \<and> registered i (cn_channel c', ts_pollers s' l)"
    using disableAll_out [OF assms(3)] by simp
  ultimately show ?thesis using s' none2 s2(2) by (simp add: send_def shutdown_def closeConnInLoop_done)
qed

text \<open>After the close another client is accepted and the application still tries to send on the old descriptor.\<close>

definition sample_closed :: "tcp \<times> string list" where
  "sample_closed = closeConnInLoop (sample_env 0 5) 1 (fst sample_server, [])"

definition sample_later :: "tcp \<times> string list" where
  "sample_later = send (sample_env 0 6) 7 ''x'' (handleAccept (sample_env 0 6) [Inr 8] sample_closed)"

theorem close_once_witness:
  "snd sample_closed = [''down''] \<and> um_find (ts_conns (fst sample_later)) 7 = None \<and>
     count_list (ts_log (fst sample_later)) (Closed 7) = count_list (ts_log (fst sample_server)) (Closed 7) + 1 \<and>
     send (sample_env 0 7) 7 ''y'' sample_later = sample_later"
proof -
  obtain s' a' where r: "closeConnInLoop (sample_env 0 5) 1 (fst sample_server, []) = (s', a')" by fastforce
  obtain s2 a2 where r2: "sample_later = (s2, a2)" by fastforce
  have "step_without 7 record_message sample_closed (handleAccept (sample_env 0 6) [Inr 8] sample_closed)" by (rule step_without.accept) simp
  moreover have "step_without 7 record_message (handleAccept (sample_env 0 6) [Inr 8] sample_closed) sample_later"
    unfolding sample_later_def by (rule step_without.api_send)
  ultimately have "(step_without 7 record_message)\<^sup>*\<^sup>* (s', a') (s2, a2)"
    using r r2 by (simp add: sample_closed_def converse_rtranclp_into_rtranclp)
  moreover have "registered 1 (cn_channel sample_conn, ts_pollers (fst sample_server) 0)"
    by (simp add: sample_conn_def sample_defs registered_def)
  moreover have "t \<in> set (ts_tasks (fst sample_server) k) \<Longrightarrow> add_fd t \<noteq> Some 7" for k t by (simp add: sample_tables(3))
  moreover have "env_on_connection (sample_env 0 5) 7 (cn_id sample_conn) False [] = [''down'']" by (simp add: sample_env_def)
  ultimately show ?thesis
    using close_once [OF sample_tables(1) sample_open(1) _ r record_message_client, of s2 a2 "sample_env 0 7" "''y''"] r
    by (simp add: sample_closed_def r2)
qed

section \<open>Input\<close>

text \<open>
  What the answers of \<open>readv\<close> deliver: the data in order, up to an empty answer or an error, which end the
  connection, or \<open>EAGAIN\<close>, which does not; \<open>EINTR\<close> is passed over.
\<close>

fun deliveries :: "(errno + string) list \<Rightarrow> string list \<times> bool" where
  "deliveries [] = ([], False)"
| "deliveries (Inr d # xs) = (if d = [] then ([], True) else (d # fst (deliveries xs), snd (deliveries xs)))"
| "deliveries (Inl er # xs) = (if er = EAGAIN then ([], False) else if er = EINTR then deliveries xs else ([], True))"

text \<open>A client whose calls are recorded: each call of the message callback with its arguments.\<close>

type_synonym calls = "(fd \<times> u64 \<times> string) list"

definition watched_env :: "'a env \<Rightarrow> ('a \<times> calls) env" where
  "watched_env e = \<lparr>env_loop = env_loop e, env_now = env_now e, env_ctl = env_ctl e,
     env_on_connection = (\<lambda>f i up aL. (env_on_connection e f i up (fst aL), snd aL))\<rparr>"

definition watched_client :: "'a env \<Rightarrow> 'a on_message \<Rightarrow> ('a \<times> calls) on_message" where
  "watched_client e om e' f i d w =
     (let (s, a) = om e f i d (fst w, fst (snd w)) in (s, (a, snd (snd w) @ [(f, i, d)])))"

lemma watched_close:
  "closeConnInLoop (watched_env e) i (s, (a, L)) = (let (s', a') = closeConnInLoop e i (s, a) in (s', (a', L)))"
  by (simp add: closeConnInLoop_def watched_env_def Let_def split: option.split)

lemma close_gone:
  "um_find (ts_store s) i = Some c \<Longrightarrow> um_ok (ts_store s) \<Longrightarrow> um_ok (ts_conns s) \<Longrightarrow> um_find (ts_conns (fst (closeConnInLoop e i (s, a)))) (cn_fd c) = None"
  by (cases "um_find (ts_conns s) (cn_fd c)") (auto simp: closeConnInLoop_def Let_def um.find_erase)

text \<open>What one event of the read loop has done, seen from the client.\<close>

definition delivered :: "fd \<Rightarrow> u64 \<Rightarrow> (errno + string) list \<Rightarrow> tcp \<Rightarrow> calls \<Rightarrow> tcp \<times> 'a \<Rightarrow> tcp \<times> 'a \<times> calls \<Rightarrow> bool" where
  "delivered f j xs s L w v \<longleftrightarrow> v = (fst w, (snd w, L @ map (\<lambda>d. (f, j, d)) (fst (deliveries xs)))) \<and>
     ts_recv_bytes (fst w) = ts_recv_bytes s + of_nat (length (concat (fst (deliveries xs)))) \<and>
     (snd (deliveries xs) \<longrightarrow> um_find (ts_conns (fst w)) f = None)"

lemma delivered_close:
  assumes "table_ok s" "um_find (ts_store s) i = Some c" "deliveries xs = ([], True)"
  shows "delivered (cn_fd c) j xs s L (closeConnInLoop e i (s, a)) (closeConnInLoop (watched_env e) i (s, (a, L)))"
proof -
  have "ts_recv_bytes (fst (closeConnInLoop e i (s, a))) = ts_recv_bytes s" using recv_other(2) [of e i "(s, a)"] by simp
  then show ?thesis
    using assms close_gone [of s i c e a] by (simp add: delivered_def watched_close split_beta table_ok_def)
qed

lemma read_data:
  assumes "tcp_client om" "tables_ok {} s" "quiet s" "um_find (ts_store s) i = Some c" "d \<noteq> []"
  obtains s3 a3 c3 where "tables_ok {} s3" "quiet s3" "um_find (ts_store s3) i = Some c3" "cn_fd c3 = cn_fd c" "cn_id c3 = cn_id c"
    "ts_recv_bytes s3 = ts_recv_bytes s + of_nat (length d)"
    "\<And>rs. handleReadable e om i ((\<lambda>iov. Inr d) # rs) (s, a) = handleReadable e om i rs (s3, a3)"
    "\<And>rs L. handleReadable (watched_env e) (watched_client e om) i ((\<lambda>iov. Inr d) # rs) (s, (a, L)) =
      handleReadable (watched_env e) (watched_client e om) i rs (s3, (a3, L @ [(cn_fd c, cn_id c, d)]))"
proof -
  have q: "buf_ok (cn_in c)" "contents (cn_in c) = []" using assms(3,4) by (auto simp: quiet_def)
  obtain buf where r: "readFd (\<lambda>iov. Inr d) (cn_in c) = (int (length d), None, buf)" and buf: "buf_ok buf" "contents buf = d"
    using readFd_buffer [where readv = "\<lambda>iov. Inr d" and data = d, OF q(1)] q(2) by auto
  have p: "peek_string buf (length d) = d"
    using peek_string_contents [of "length d" buf] length_contents [OF buf(1)] buf(2) by simp
  obtain s2 a2 where o: "om e (cn_fd c) (cn_id c) d (received e i buf d s, a) = (s2, a2)" by fastforce
  let ?s3 = "upd_conn i (\<lambda>c. c\<lparr>cn_in := retrieve (length d) (cn_in c)\<rparr>) s2"
  have k: "tables_ok {} ?s3" "frame {i} s ?s3" "quiet ?s3"
    using read_turn_quiet [OF tcp_client.axioms(1) [OF assms(1)] assms(2,3) buf assms(4) o [symmetric], of ?s3] by simp_all
  from k(2) have "rel_option (same_static (i \<in> {i})) (um_find (ts_store s) i) (um_find (ts_store ?s3) i)" unfolding frame_def by blast
  then obtain c3 where c3: "um_find (ts_store ?s3) i = Some c3" "cn_fd c3 = cn_fd c" "cn_id c3 = cn_id c"
    using assms(4) by (auto simp: option_rel_Some1 same_static_def)
  have "ts_recv_bytes ?s3 = ts_recv_bytes s + of_nat (length d)"
    using tcp_client.om_recv [OF assms(1), of e "cn_fd c" "cn_id c" d "(received e i buf d s, a)"] o by (simp add: received_def)
  with that [OF k(1,3) c3] show thesis
    using assms(4,5) r p o by (simp add: Let_def received_def watched_client_def watched_env_def)
qed

lemma read_eof:
  assumes "tables_ok {} s" "buf_ok (cn_in c)" "um_find (ts_store s) i = Some c"
  shows "delivered (cn_fd c) (cn_id c) (Inr [] # xs) s L (handleReadable e om i (map (\<lambda>x iov. x) (Inr [] # xs)) (s, a))
    (handleReadable (watched_env e) (watched_client e om) i (map (\<lambda>x iov. x) (Inr [] # xs)) (s, (a, L)))"
proof -
  obtain buf where r: "readFd (\<lambda>iov. Inr []) (cn_in c) = (0, None, buf)"
    using readFd_buffer [where readv = "\<lambda>iov. Inr []" and data = "[]", OF assms(2)] by auto
  let ?s = "upd_conn i (\<lambda>c. c\<lparr>cn_in := buf\<rparr>) s"
  have "keeps {i} {} {} s ?s" by (rule keeps_in) (auto simp: same_static_def)
  then have ts: "table_ok ?s" using assms(1) by (simp add: keeps_def tables_ok_def)
  have "um_ok (ts_store s)" using assms(1) by (simp add: tables_ok_def table_ok_def)
  then have fs: "um_find (ts_store ?s) i = Some (c\<lparr>cn_in := buf\<rparr>)" using assms(3) by (simp add: upd_conn_store)
  have d: "deliveries (Inr [] # xs) = ([], True)" by simp
  from delivered_close [OF ts fs d, of "cn_id c" L e a] show ?thesis using assms(3) r by (simp add: delivered_def)
qed

lemma read_error:
  assumes "table_ok s" "buf_ok (cn_in c)" "contents (cn_in c) = []" "um_find (ts_store s) i = Some c"
    and "delivered (cn_fd c) (cn_id c) xs s L (handleReadable e om i (map (\<lambda>x iov. x) xs) (s, a))
      (handleReadable (watched_env e) (watched_client e om) i (map (\<lambda>x iov. x) xs) (s, (a, L)))"
  shows "delivered (cn_fd c) (cn_id c) (Inl er # xs) s L (handleReadable e om i (map (\<lambda>x iov. x) (Inl er # xs)) (s, a))
    (handleReadable (watched_env e) (watched_client e om) i (map (\<lambda>x iov. x) (Inl er # xs)) (s, (a, L)))"
proof -
  have r: "readFd (\<lambda>iov. Inl er) (cn_in c) = (-1, Some er, cn_in c)" by (rule readFd_error) simp
  consider "er = EAGAIN" | "er = EINTR" "er \<noteq> EAGAIN" | "er \<noteq> EAGAIN" "er \<noteq> EINTR" by blast
  then show ?thesis
  proof cases
    case 3
    then have "deliveries (Inl er # xs) = ([], True)" by simp
    from delivered_close [OF assms(1,4) this] show ?thesis using 3 assms(4) r by simp
  qed (use assms(4,5) r in \<open>simp_all add: delivered_def\<close>)
qed

text \<open>
  C25: input. Let the tables be consistent and the read buffers empty, as in all reachable states. For every client with the contract
  \<open>tcp_client\<close>, also one that sends and shuts down in its message callback as the HTTP server does, and whatever the calls of \<open>readv\<close> answer, an event on a connection calls the message callback once for
  each non-empty answer, with the descriptor and the id of the connection and exactly the bytes of the
  answer, in order, up to \<open>EAGAIN\<close>, an empty answer or an error; after \<open>EINTR\<close> it goes on. The counter of
  received bytes grows by their number, and an empty answer or an error leaves no entry for the descriptor.
\<close>

theorem readable_delivers:
  assumes "tcp_client om" "tables_ok {} s" "quiet s" "um_find (ts_store s) i = Some c"
  shows "delivered (cn_fd c) (cn_id c) xs s L (handleReadable e om i (map (\<lambda>x iov. x) xs) (s, a))
    (handleReadable (watched_env e) (watched_client e om) i (map (\<lambda>x iov. x) xs) (s, (a, L)))"
  using assms(2-)
proof (induction xs arbitrary: s a c L)
  case Nil
  then show ?case by (simp add: delivered_def)
next
  case (Cons x xs)
  have q: "buf_ok (cn_in c)" "contents (cn_in c) = []" using Cons.prems(2,3) by (auto simp: quiet_def)
  have t: "table_ok s" "um_ok (ts_store s)" using Cons.prems(1) by (auto simp: tables_ok_def table_ok_def)
  show ?case
  proof (cases x)
    case (Inl er)
    then show ?thesis using read_error [OF t(1) q Cons.prems(3) Cons.IH [OF Cons.prems]] by simp
  next
    case (Inr d)
    show ?thesis
    proof (cases "d = []")
      case True
      then show ?thesis using read_eof [OF Cons.prems(1) q(1) Cons.prems(3)] Inr by simp
    next
      case False
      from read_data [OF assms(1) Cons.prems False] obtain s3 a3 c3 where
        n: "tables_ok {} s3" "quiet s3" "um_find (ts_store s3) i = Some c3" "cn_fd c3 = cn_fd c" "cn_id c3 = cn_id c"
        "ts_recv_bytes s3 = ts_recv_bytes s + of_nat (length d)"
        and run: "\<And>rs. handleReadable e om i ((\<lambda>iov. Inr d) # rs) (s, a) = handleReadable e om i rs (s3, a3)"
        "\<And>rs L. handleReadable (watched_env e) (watched_client e om) i ((\<lambda>iov. Inr d) # rs) (s, (a, L)) =
          handleReadable (watched_env e) (watched_client e om) i rs (s3, (a3, L @ [(cn_fd c, cn_id c, d)]))" by metis
      from Cons.IH [OF n(1-3), of "L @ [(cn_fd c, cn_id c, d)]" a3] n(4-6) False show ?thesis
        unfolding list.map Inr run by (simp add: delivered_def add.assoc)
    qed
  qed
qed

text \<open>A client that sends back what it gets, and a peer that sends two pieces and closes.\<close>

definition echo_message :: "string list on_message" where
  "echo_message e f i d w = send e f d (fst w, snd w @ [d])"

lemma echo_client: "tcp_client echo_message"
proof unfold_locales
  show "keeps {} {} {} (fst w) (fst (echo_message e f i d w))" for w e f i d
    using keeps_send [of "{}" "(fst w, snd w @ [d])" e f d] by (simp add: echo_message_def)
  show "armed (fst (echo_message e f i d w))" if "armed (fst w)" for w e f i d
    using arm.P_send [of "(fst w, snd w @ [d])" e f d] that by (simp add: echo_message_def)
  show "still g (fst w) (fst (echo_message e f i d w))" for g w e f i d
    using stl.P_send [of g "(fst w, snd w @ [d])" e f d] by (simp add: echo_message_def)
qed (simp_all add: echo_message_def recv_api pl.P_send)

theorem readable_delivers_witness:
  "snd (snd (handleReadable (watched_env (sample_env 0 5)) (watched_client (sample_env 0 5) echo_message) 1
     (map (\<lambda>x iov. x) [Inr ''ab'', Inl EINTR, Inr ''c'', Inr []]) (fst sample_server, ([], [])))) = [(7, 1, ''ab''), (7, 1, ''c'')]"
proof -
  have "tables_ok {} (fst sample_server)" using good_reachable [OF record_message_handler sample_reachable] by (simp add: good_def)
  moreover have "um_find (ts_store (fst sample_server)) 1 = Some sample_conn" "cn_fd sample_conn = 7" "cn_id sample_conn = 1"
    by (simp_all add: sample_defs sample_conn_def)
  ultimately show ?thesis
    using readable_delivers [OF echo_client _ sample_tables(2), where i = 1 and c = sample_conn and e = "sample_env 0 5" and L = "[]" and a = "[]"
        and xs = "[Inr ''ab'', Inl EINTR, Inr ''c'', Inr []]"]
    by (simp add: delivered_def EINTR_def EAGAIN_def)
qed

text \<open>
  C26: the idle sweep. With a positive limit the sweep of the base loop hands each connection of
  another loop whose last activity lies at least the limit back, and no other, to its loop for
  closing, and counts it; with a limit of zero or less nothing is done.
\<close>

theorem sweep_selects_idle:
  assumes "table_ok s" "list_all (\<lambda>(f, i). owner_of i s \<noteq> env_loop e) (ts_conns s)"
  shows "(0 < ts_idle_timeout_s s \<longrightarrow>
      (\<forall>i. i \<in> set (expired (env_now e) s) \<longleftrightarrow> (\<exists>f c. um_find (ts_conns s) f = Some i \<and> um_find (ts_store s) i = Some c \<and>
         ts_idle_timeout_s s * 1000 \<le> env_now e - cn_last_active_ms c)) \<and>
      (\<exists>s'. sweepIdle e (s, a) = (s', a) \<and> ts_conns s' = ts_conns s \<and> ts_store s' = ts_store s \<and>
         ts_closed_idle s' = ts_closed_idle s + of_nat (length (expired (env_now e) s)) \<and>
         (\<forall>l. ts_tasks s' l = ts_tasks s l @ map CloseTask (filter (\<lambda>i. owner_of i s = l) (expired (env_now e) s))))) \<and>
    (ts_idle_timeout_s s \<le> 0 \<longrightarrow> sweepIdle e (s, a) = (s, a))"
proof -
  let ?step = "\<lambda>i (s, a). closeConn e i (s\<lparr>ts_closed_idle := ts_closed_idle s + 1\<rparr>, a)"
  have find: "um_find (ts_conns s) f = Some i \<longleftrightarrow> (f, i) \<in> set (ts_conns s)" for f i
    using assms(1) by (auto simp: table_ok_def intro: map_of_is_SomeI dest: map_of_SomeD)
  have member: "i \<in> set (expired (env_now e) s) \<longleftrightarrow> (\<exists>f c. um_find (ts_conns s) f = Some i \<and> um_find (ts_store s) i = Some c \<and>
         ts_idle_timeout_s s * 1000 \<le> env_now e - cn_last_active_ms c)" for i
    unfolding find expired_def by (force split: option.splits)
  have "\<exists>s'. fold ?step is (s, a) = (s', a) \<and> ts_conns s' = ts_conns s \<and> ts_store s' = ts_store s \<and>
      ts_closed_idle s' = ts_closed_idle s + of_nat (length is) \<and>
      (\<forall>l. ts_tasks s' l = ts_tasks s l @ map CloseTask (filter (\<lambda>i. owner_of i s = l) is))"
    if "list_all (\<lambda>i. owner_of i s \<noteq> env_loop e) is" for "is" and s :: tcp
    using that
  proof (induction "is" arbitrary: s)
    case (Cons i "is")
    let ?s = "s\<lparr>ts_closed_idle := ts_closed_idle s + 1, ts_tasks := (ts_tasks s)(owner_of i s := ts_tasks s (owner_of i s) @ [CloseTask i])\<rparr>"
    have o: "owner_of j ?s = owner_of j s" for j by (simp add: owner_of_def)
    have o2: "owner_of j (s\<lparr>ts_closed_idle := ts_closed_idle s + 1\<rparr>) = owner_of j s" for j by (simp add: owner_of_def)
    have first: "closeConn e i (s\<lparr>ts_closed_idle := ts_closed_idle s + 1\<rparr>, a) = (?s, a)" using Cons.prems by (simp add: closeConn_def run_in_loop_def o2)
    from Cons.IH [of ?s] Cons.prems show ?case by (fastforce simp: first o add.assoc)
  qed simp
  moreover have "list_all (\<lambda>i. owner_of i s \<noteq> env_loop e) (expired (env_now e) s)"
    using assms(2) by (auto simp: expired_def list_all_iff)
  ultimately show ?thesis using member by (simp add: sweepIdle_def)
qed

definition idle_server :: "tcp \<times> string list" where
  "idle_server = run_tasks (sample_env 1 5) (handleAccept (sample_env 0 5) [Inr 7, Inr 8]
     (new_TcpServer (pool_start (\<lambda>name. 1) ''io'' (setThreadNum 1 (new_EventLoopThreadPool 0))) 30, []))"

theorem sweep_selects_idle_witness:
  "ts_tasks (fst (sweepIdle (sample_env 0 30005) (fst idle_server, []))) 1 = [CloseTask 1, CloseTask 2]"
proof -
  have s: "table_ok (fst idle_server)" "list_all (\<lambda>(f, i). owner_of i (fst idle_server) \<noteq> env_loop (sample_env 0 30005)) (ts_conns (fst idle_server))"
    "ts_idle_timeout_s (fst idle_server) = 30" "ts_tasks (fst idle_server) 1 = []"
    "filter (\<lambda>i. owner_of i (fst idle_server) = 1) (expired (env_now (sample_env 0 30005)) (fst idle_server)) = [1, 2]"
    by (simp_all add: idle_server_def run_tasks_def sample_defs pool_start_def setThreadNum_def table_ok_def owner_of_def expired_def)
  with sweep_selects_idle [OF s(1,2), of "[]"] show ?thesis by auto
qed

end
