(* ===== verification/HttpServer_Correct.thy ===== *)
theory HttpServer_Correct
  imports HttpServer TcpServer_Correct
begin

text \<open>
  The HTTP layer on one connection refines a pure function on the byte stream: the requests in
  the stream are answered in order, an error or a request that does not keep the connection ends
  it. \<open>onMessage\<close> is a client of the transport in the sense of \<open>tcp_client\<close>.
\<close>

section \<open>The message callback and the transport\<close>

text \<open>The callback acts on the transport only by calls of \<open>send\<close> and \<open>shutdown\<close>, one after the other.\<close>

lemma message_loop_calls:
  assumes trans: "\<And>s s1 s2. P s s1 \<Longrightarrow> P s1 s2 \<Longrightarrow> P s s2" and refl: "\<And>s. P s s"
    and send: "\<forall>w d. P (fst w) (fst (send e f d w))" and shut: "\<forall>w. P (fst w) (fst (shutdown e f w))"
  shows "P (fst w) (fst (message_loop handler e f i c w))"
  using send shut
proof (induction handler e f i c w rule: message_loop.induct)
  case (1 handler e f i c w)
  have send: "P (fst w) (fst (send e f d (fst w, h)))" for d h using "1.prems"(1) by (metis fst_conv)
  obtain r p b where pr: "parse (hc_parser c) (hc_in c) = (r, p, b)" by (cases "parse (hc_parser c) (hc_in c)")
  let ?h = "put_conn i \<lparr>hc_in = b, hc_parser = p\<rparr> (snd w)"
  show ?case
  proof (cases r)
    case NeedMore
    then show ?thesis by (subst message_loop.simps) (simp add: pr Let_def refl)
  next
    case (Error err)
    then show ?thesis using trans [OF send "1.prems"(2) [rule_format]] by (subst message_loop.simps) (simp add: pr Let_def handleError_def)
  next
    case Complete
    obtain resp app where a: "answer handler (req p) (hs_app ?h) = (resp, app)" by fastforce
    let ?w = "send e f (serialize resp) (fst w, ?h\<lparr>hs_requests := hs_requests ?h + 1, hs_app := app\<rparr>)"
    have k: "P (fst w) (fst ?w)" by (rule send)
    note IH = "1.IH" [OF pr [symmetric] HOL.refl HOL.refl Complete a [symmetric] HOL.refl HOL.refl HOL.refl _ _ "1.prems"]
    show ?thesis
      using k trans [OF k "1.prems"(2) [rule_format]] trans [OF k IH]
      by (subst message_loop.simps) (simp add: pr Let_def Complete a)
  qed
qed

lemma onMessage_calls:
  assumes "\<And>s s1 s2. P s s1 \<Longrightarrow> P s1 s2 \<Longrightarrow> P s s2" "\<And>s. P s s"
    "\<And>w d. P (fst w) (fst (send e f d w))" "\<And>w. P (fst w) (fst (shutdown e f w))"
  shows "P (fst w) (fst (onMessage handler e f i d w))"
proof -
  have "P s (fst (message_loop handler e f i c (s, h)))" for s c h
    by (rule message_loop_calls [where P = P and w = "(s, h)", unfolded fst_conv]) (blast intro: assms(1), simp_all add: assms(2-))
  then show ?thesis by (simp add: onMessage_def Let_def split_beta)
qed

lemma onMessage_handler: "message_handler (onMessage handler)"
  by unfold_locales (rule onMessage_calls, blast intro: keeps_trans, simp_all add: keeps_send keeps_shutdown)

interpretation http: tcp_client "onMessage handler" for handler
proof (rule tcp_client.intro [OF onMessage_handler], unfold_locales)
  show "armed (fst (onMessage handler e f i d w))" if "armed (fst w)" for e f i d w
    using that onMessage_calls [where P = "\<lambda>s s'. armed s \<longrightarrow> armed s'"] arm.P_send arm.P_shutdown by metis
  show "still g (fst w) (fst (onMessage handler e f i d w))" for g e f i d w
    by (rule onMessage_calls) (blast intro: still_trans, simp_all add: stl.P_send stl.P_shutdown)
  show "ts_recv_bytes (fst (onMessage handler e f i d w)) = ts_recv_bytes (fst w)" for e f i d w
    by (rule onMessage_calls [where P = "\<lambda>s s'. ts_recv_bytes s' = ts_recv_bytes s"]) (simp_all add: recv_api)
  show "ts_pool (fst (onMessage handler e f i d w)) = ts_pool (fst w)" for e f i d w
    by (rule onMessage_calls [where P = "\<lambda>s s'. ts_pool s' = ts_pool s"]) (simp_all add: pl.P_send pl.P_shutdown)
qed


section \<open>Specification: a connection as a stream\<close>

text \<open>How the bytes at hand leave a connection: waiting for more, finished, or refused.\<close>

datatype conn_end = Waiting | Ended | Refused

lemma parse_stream_shorter:
  assumes "parse_stream p s = (Complete, p', s')"
  shows "length s' \<le> length s \<and> (state p = RequestLine \<longrightarrow> length s' < length s)"
proof -
  let ?b = "buf_append s (new_Buffer 0)"
  have b: "buf_ok ?b" "contents ?b = s" by (simp_all add: inv_intros abs_simps)
  obtain r q b' where pr: "parse p ?b = (r, q, b')" by (cases "parse p ?b")
  with parse_refines_aux [OF b(1), of p] b(2) assms have "r = Complete" "buf_ok b'" "contents b' = s'" by auto
  with parse_shorter [of p ?b q b'] pr length_contents [OF b(1)] length_contents [of b'] b(2) show ?thesis by simp
qed

text \<open>
  \<open>serve_stream\<close> maps the parser, the bytes at hand and the state of the application to the
  responses, the way it ends, the parser and the bytes left, and the new state.
\<close>

function serve_stream :: "'b handler option \<Rightarrow> parser \<Rightarrow> string \<Rightarrow> 'b \<Rightarrow> string list \<times> conn_end \<times> parser \<times> string \<times> 'b" where
  "serve_stream handler p s b =
     (case parse_stream p s of
        (NeedMore, p', s') \<Rightarrow> ([], Waiting, p', s', b)
      | (Error err, p', s') \<Rightarrow> ([serialize (error_response err)], Refused, p', s', b)
      | (Complete, p', s') \<Rightarrow>
          (case answer handler (req p') b of
             (resp, b') \<Rightarrow>
               if \<not> rq_keep_alive (req p') \<or> \<not> rs_keep_alive resp then ([serialize resp], Ended, p', s', b')
               else (case serve_stream handler (reset p') s' b' of (out, r) \<Rightarrow> (serialize resp # out, r))))"
  by pat_completeness auto
termination
proof (relation "(\<lambda>(handler, p, s, b). length s) <*mlex*> measure (\<lambda>(handler, p, s, b). if state p = RequestLine then 0 else 1)", goal_cases)
  case 1
  show ?case by (intro wf_mlex wf_measure)
next
  case (2 handler p s b r ps p' s' resp b')
  then have "parse_stream p s = (Complete, p', s')" by simp
  from parse_stream_shorter [OF this] show ?case by (auto simp: mlex_prod_def reset_def)
qed

declare serve_stream.simps [simp del]

section \<open>Shards\<close>

text \<open>A connection record is found where it was put, and only this one is touched.\<close>

definition shards_ok :: "'b http \<Rightarrow> bool" where
  "shards_ok h \<longleftrightarrow> (\<forall>n. um_ok (hs_shards h n))"

lemma find_put_conn: "shards_ok h \<Longrightarrow> find_conn j (put_conn i c h) = (if j = i then Some c else find_conn j h)"
  by (auto simp: find_conn_def put_conn_def shards_ok_def um.find_put)

lemma find_drop_conn: "shards_ok h \<Longrightarrow> find_conn j (drop_conn i h) = (if j = i then None else find_conn j h)"
  by (auto simp: find_conn_def drop_conn_def shards_ok_def um.find_erase)

lemma shards_ok_ops [simp]:
  "shards_ok h \<Longrightarrow> shards_ok (put_conn i c h)" "shards_ok h \<Longrightarrow> shards_ok (drop_conn i h)" "shards_ok (new_HttpServer b)"
  by (auto simp: shards_ok_def put_conn_def drop_conn_def new_HttpServer_def um.ok_put um.ok_erase)

lemma shards_ok_cong [simp]:
  "shards_ok (h\<lparr>hs_requests := n, hs_app := x\<rparr>) = shards_ok h" "shards_ok (h\<lparr>hs_errors := n\<rparr>) = shards_ok h"
  "find_conn j (h\<lparr>hs_requests := n, hs_app := x\<rparr>) = find_conn j h" "find_conn j (h\<lparr>hs_errors := n\<rparr>) = find_conn j h"
  by (simp_all add: shards_ok_def find_conn_def)

lemma put_conn_simps [simp]:
  "hs_app (put_conn i c h) = hs_app h" "hs_requests (put_conn i c h) = hs_requests h" "hs_errors (put_conn i c h) = hs_errors h"
  "hs_dangling (put_conn i c h) = hs_dangling h" "hs_app (drop_conn i h) = hs_app h" "hs_requests (drop_conn i h) = hs_requests h"
  "hs_errors (drop_conn i h) = hs_errors h" "hs_dangling (drop_conn i h) = hs_dangling h"
  by (simp_all add: put_conn_def drop_conn_def)


section \<open>Refinement\<close>

text \<open>
  The outcome of the message callback on connection \<open>i\<close>: the responses were handed to the transport
  in order, and unless the connection waits for more input it has been closed after them.
\<close>

definition conn_result :: "nat \<Rightarrow> fd \<Rightarrow> u64 \<Rightarrow> string list \<times> conn_end \<times> parser \<times> string \<times> 'b \<Rightarrow>
    tcp \<times> 'b http \<Rightarrow> tcp \<times> 'b http \<Rightarrow> bool" where
  "conn_result l f i r w w' \<longleftrightarrow>
     (case r of (outs, st, p, rest, b) \<Rightarrow>
        hs_app (snd w') = b \<and> hs_dangling (snd w') = hs_dangling (snd w) \<and> shards_ok (snd w') \<and> tables_ok {} (fst w') \<and>
        hs_requests (snd w') + (if st = Refused then 1 else 0) = hs_requests (snd w) + of_nat (length outs) \<and>
        hs_errors (snd w') = hs_errors (snd w) + (if st = Refused then 1 else 0) \<and>
        (\<forall>j. j \<noteq> i \<longrightarrow> find_conn j (snd w') = find_conn j (snd w)) \<and>
        (if st = Waiting
         then sent l f i (concat outs) (fst w) (fst w') \<and>
           (\<exists>c. find_conn i (snd w') = Some c \<and> hc_parser c = p \<and> buf_ok (hc_in c) \<and> contents (hc_in c) = rest)
         else find_conn i (snd w') = None \<and> ts_conns (fst w') = um_erase f (ts_conns (fst w)) \<and>
           (\<exists>s1. sent l f i (concat outs) (fst w) s1 \<and> ts_log (fst w') = ts_log s1 @ [Closed f])))"

text \<open>The parser for the whole connection is used by its own loop, with the HTTP callback installed.\<close>

definition serving :: "'b http env \<Rightarrow> nat \<Rightarrow> fd \<Rightarrow> u64 \<Rightarrow> tcp \<times> 'b http \<Rightarrow> bool" where
  "serving e l f i w \<longleftrightarrow> env_loop e = l \<and> env_on_connection e = onConnection \<and> tables_ok {} (fst w) \<and> no_write_error (fst w) \<and>
     (\<exists>k. open_conn l f i k (fst w)) \<and> shards_ok (snd w)"

lemma serving_send:
  assumes "serving e l f i w"
  shows "\<exists>s'. send e f d w = (s', snd w) \<and> sent l f i d (fst w) s' \<and> serving e l f i (s', snd w)"
proof -
  from assms obtain k where "tables_ok {} (fst w)" "no_write_error (fst w)" "open_conn l f i k (fst w)" "env_loop e = l"
    by (auto simp: serving_def)
  from send_sent [OF this, of d "snd w"] obtain s' where s': "send e f d w = (s', snd w)" "sent l f i d (fst w) s'" by auto
  then have "serving e l f i (s', snd w)" using assms by (auto simp: serving_def sent_def)
  with s' show ?thesis by blast
qed

lemma serving_shutdown:
  assumes "serving e l f i w"
  shows "\<exists>s'. shutdown e f w = (s', drop_conn i (snd w)) \<and> tables_ok {} s' \<and>
    ts_conns s' = um_erase f (ts_conns (fst w)) \<and> ts_log s' = ts_log (fst w) @ [Closed f]"
proof -
  from assms obtain k where "tables_ok {} (fst w)" "open_conn l f i k (fst w)" "env_loop e = l" by (auto simp: serving_def)
  from shutdown_closes [OF this, of "snd w"] assms show ?thesis by (simp add: serving_def onConnection_def)
qed

text \<open>A last response, then the connection is closed.\<close>

lemma send_and_close:
  assumes "serving e l f i v" "fst v = fst w" "hs_app (snd v) = b" "hs_dangling (snd v) = hs_dangling (snd w)" "st \<noteq> Waiting"
    "hs_requests (snd v) + (if st = Refused then 1 else 0) = hs_requests (snd w) + 1"
    "hs_errors (snd v) = hs_errors (snd w) + (if st = Refused then 1 else 0)"
    "\<And>j. j \<noteq> i \<Longrightarrow> find_conn j (snd v) = find_conn j (snd w)"
  shows "conn_result l f i ([d], st, p, rest, b) w (shutdown e f (send e f d v))"
proof -
  from serving_send [OF assms(1), of d] obtain s1 where s1: "send e f d v = (s1, snd v)" "sent l f i d (fst w) s1" "serving e l f i (s1, snd v)"
    using assms(2) by auto
  from serving_shutdown [OF s1(3)] obtain s2 where "shutdown e f (s1, snd v) = (s2, drop_conn i (snd v))" "tables_ok {} s2"
    "ts_conns s2 = um_erase f (ts_conns s1)" "ts_log s2 = ts_log s1 @ [Closed f]" by auto
  moreover have "ts_conns s1 = ts_conns (fst w)" using s1(2) by (simp add: sent_def)
  moreover have "shards_ok (snd v)" using assms(1) by (simp add: serving_def)
  ultimately show ?thesis
    using assms(3-) s1(1,2) unfolding conn_result_def by (simp add: find_drop_conn) blast
qed

lemma conn_result_Cons:
  assumes "sent l f i d (fst w) (fst v)" "hs_requests (snd v) = hs_requests (snd w) + 1" "hs_errors (snd v) = hs_errors (snd w)"
    "hs_dangling (snd v) = hs_dangling (snd w)" "\<And>j. j \<noteq> i \<Longrightarrow> find_conn j (snd v) = find_conn j (snd w)"
    "conn_result l f i (outs, r) v w'"
  shows "conn_result l f i (d # outs, r) w w'"
proof -
  obtain st p rest b where r: "r = (st, p, rest, b)" by (cases r)
  have "ts_conns (fst v) = ts_conns (fst w)" using assms(1) by (simp add: sent_def)
  with assms sent_trans [OF assms(1)] show ?thesis
    unfolding conn_result_def r by (auto simp: algebra_simps split: if_splits)
qed

text \<open>One turn of the loop that ends it: an incomplete request, and a refused one.\<close>

lemma message_loop_wait:
  assumes "serving e l f i w" "buf_ok b'" "hs_app (snd w) = b"
    and pr: "parse (hc_parser c) (hc_in c) = (NeedMore, p', b')" and ps: "parse_stream p s = (NeedMore, p', contents b')"
  shows "conn_result l f i (serve_stream handler p s b) w (message_loop handler e f i c w)"
proof -
  have "sent l f i [] (fst w) (fst w)" "tables_ok {} (fst w)" using assms(1) by (auto simp: serving_def intro: sent_refl)
  moreover have "message_loop handler e f i c w = (fst w, put_conn i \<lparr>hc_in = b', hc_parser = p'\<rparr> (snd w))"
    by (subst message_loop.simps) (simp add: pr Let_def)
  moreover have "serve_stream handler p s b = ([], Waiting, p', contents b', b)" by (subst serve_stream.simps) (simp add: ps)
  ultimately show ?thesis using assms(1-3) by (simp add: conn_result_def serving_def find_put_conn)
qed

lemma message_loop_refused:
  assumes sv: "serving e l f i w" and b: "hs_app (snd w) = b"
    and pr: "parse (hc_parser c) (hc_in c) = (Error err, p', b')" and ps: "parse_stream p s = (Error err, p', contents b')"
  shows "conn_result l f i (serve_stream handler p s b) w (message_loop handler e f i c w)"
proof -
  let ?h = "put_conn i \<lparr>hc_in = b', hc_parser = p'\<rparr> (snd w)"
  let ?w = "(fst w, ?h\<lparr>hs_errors := hs_errors ?h + 1\<rparr>)"
  have h: "shards_ok ?h" "\<And>j. find_conn j ?h = (if j = i then Some \<lparr>hc_in = b', hc_parser = p'\<rparr> else find_conn j (snd w))"
    using sv by (simp_all add: find_put_conn serving_def)
  then have "serving e l f i ?w" using sv by (simp add: serving_def)
  then have "conn_result l f i ([serialize (error_response err)], Refused, p', contents b', b) w
      (shutdown e f (send e f (serialize (error_response err)) ?w))"
    using b h(2) by (intro send_and_close) simp_all
  then show ?thesis
    by (subst message_loop.simps, subst serve_stream.simps) (simp add: pr ps Let_def handleError_def)
qed

lemma message_loop_result:
  "\<lbrakk>serving e l f i w; buf_ok (hc_in c); hc_parser c = p; contents (hc_in c) = s; hs_app (snd w) = b\<rbrakk> \<Longrightarrow>
   conn_result l f i (serve_stream handler p s b) w (message_loop handler e f i c w)"
proof (induction handler p s b arbitrary: c w rule: serve_stream.induct)
  case (1 handler p s b)
  obtain r p' b' where pr: "parse (hc_parser c) (hc_in c) = (r, p', b')" by (cases "parse (hc_parser c) (hc_in c)")
  with parse_refines_aux [OF "1.prems"(2), of p] "1.prems" have ps: "parse_stream p s = (r, p', contents b')" and b': "buf_ok b'" by auto
  let ?h = "put_conn i \<lparr>hc_in = b', hc_parser = p'\<rparr> (snd w)"
  have sh: "shards_ok (snd w)" using "1.prems"(1) by (simp add: serving_def)
  then have h: "shards_ok ?h" "\<And>j. find_conn j ?h = (if j = i then Some \<lparr>hc_in = b', hc_parser = p'\<rparr> else find_conn j (snd w))"
    by (simp_all add: find_put_conn)
  show ?case
  proof (cases r)
    case NeedMore
    show ?thesis by (rule message_loop_wait [OF "1.prems"(1) b' "1.prems"(5) pr [unfolded NeedMore] ps [unfolded NeedMore]])
  next
    case (Error err)
    show ?thesis by (rule message_loop_refused [OF "1.prems"(1,5) pr [unfolded Error] ps [unfolded Error]])
  next
    case Complete
    obtain resp x where a: "answer handler (req p') b = (resp, x)" by fastforce
    let ?h1 = "?h\<lparr>hs_requests := hs_requests ?h + 1, hs_app := x\<rparr>"
    have sv: "serving e l f i (fst w, ?h1)" using "1.prems"(1) h(1) by (simp add: serving_def)
    from serving_send [OF sv, of "serialize resp"] obtain s1 where s1: "send e f (serialize resp) (fst w, ?h1) = (s1, ?h1)"
      "sent l f i (serialize resp) (fst w) s1" "serving e l f i (s1, ?h1)" by auto
    have unfold: "message_loop handler e f i c w =
        (if \<not> rq_keep_alive (req p') \<or> \<not> rs_keep_alive resp then shutdown e f (s1, ?h1)
         else message_loop handler e f i \<lparr>hc_in = b', hc_parser = reset p'\<rparr> (s1, ?h1))"
      using Complete a s1(1) "1.prems"(5) h(2) by (subst message_loop.simps) (simp add: pr Let_def)
    show ?thesis
    proof (cases "\<not> rq_keep_alive (req p') \<or> \<not> rs_keep_alive resp")
      case True
      have "conn_result l f i ([serialize resp], Ended, p', contents b', x) w (shutdown e f (send e f (serialize resp) (fst w, ?h1)))"
        using sv h(2) by (intro send_and_close) simp_all
      with True a Complete show ?thesis unfolding unfold s1(1) by (subst serve_stream.simps) (simp add: ps)
    next
      case False
      obtain outs r' where ss: "serve_stream handler (reset p') (contents b') x = (outs, r')"
        by (cases "serve_stream handler (reset p') (contents b') x")
      have "conn_result l f i (outs, r') (s1, ?h1) (message_loop handler e f i \<lparr>hc_in = b', hc_parser = reset p'\<rparr> (s1, ?h1))"
        using "1.IH" [OF ps [symmetric] Complete refl a [symmetric] _ s1(3), of "\<lparr>hc_in = b', hc_parser = reset p'\<rparr>"] False b' ss by simp
      then have "conn_result l f i (serialize resp # outs, r') w (message_loop handler e f i c w)"
        unfolding unfold using False s1(2) h(2) by (simp only: if_False) (rule conn_result_Cons [where v = "(s1, ?h1)"]; simp)
      with False a Complete ss show ?thesis by (subst serve_stream.simps) (simp add: ps)
    qed
  qed
qed


text \<open>What the server holds of connection \<open>i\<close>: its parser and the bytes not yet parsed.\<close>

definition conn_view :: "u64 \<Rightarrow> 'b http \<Rightarrow> parser \<times> string" where
  "conn_view i h = (case find_conn i h of None \<Rightarrow> (new_HttpParser, []) | Some c \<Rightarrow> (hc_parser c, contents (hc_in c)))"

definition conn_buffer_ok :: "u64 \<Rightarrow> 'b http \<Rightarrow> bool" where
  "conn_buffer_ok i h \<longleftrightarrow> (case find_conn i h of None \<Rightarrow> True | Some c \<Rightarrow> buf_ok (hc_in c))"

lemma conn_result_put:
  "shards_ok h \<Longrightarrow> conn_result l f i r (s, put_conn i c h) w' = conn_result l f i r (s, h) w'"
  by (cases r) (auto simp: conn_result_def find_put_conn)

lemma onMessage_result:
  assumes "serving e l f i (s, h)" "conn_buffer_ok i h" "conn_view i h = (p, rest)"
  shows "conn_result l f i (serve_stream handler p (rest @ d) (hs_app h)) (s, h) (onMessage handler e f i d (s, h))"
proof -
  obtain c h1 where fc: "findOrCreate i h = (c, h1)" by fastforce
  then have c: "buf_ok (hc_in c)" "hc_parser c = p" "contents (hc_in c) = rest" "h1 = h \<or> h1 = put_conn i c h"
    using assms(2,3) by (auto simp: findOrCreate_def conn_buffer_ok_def conn_view_def new_HttpConn_def buf_ok_new split: option.splits)
  have sh: "shards_ok h" "shards_ok h1" using assms(1) c(4) by (auto simp: serving_def)
  let ?c = "c\<lparr>hc_in := buf_append d (hc_in c)\<rparr>"
  have "conn_result l f i (serve_stream handler p (rest @ d) (hs_app h)) (s, put_conn i ?c h1)
      (message_loop handler e f i ?c (s, put_conn i ?c h1))"
    using assms(1) c sh by (intro message_loop_result) (auto simp: serving_def inv_intros abs_simps)
  then have "conn_result l f i (serve_stream handler p (rest @ d) (hs_app h)) (s, h) (message_loop handler e f i ?c (s, put_conn i ?c h1))"
    using sh c(4) by (auto simp: conn_result_put)
  then show ?thesis by (simp add: onMessage_def fc Let_def)
qed


section \<open>Properties\<close>

text \<open>
  C1: the HTTP layer refines the stream function. While the kernel reports no write error, a read of
  \<open>d\<close> on an open connection hands exactly the responses that \<open>serve_stream\<close> computes for the bytes
  held back before and \<open>d\<close> to the transport, in order; afterwards the record of the connection holds the
  parser and the bytes left over, or, after a request that does not keep the connection and after
  an error, the connection is closed and its record is gone. The state of the application, both
  counters and the records of all other connections are as the specification says.
\<close>

theorem http_refines_stream:
  assumes "serving e l f i (s, h)" "conn_buffer_ok i h" "conn_view i h = (p, rest)"
  shows "conn_result l f i (serve_stream handler p (rest @ d) (hs_app h)) (s, h) (onMessage handler e f i d (s, h))"
  by (rule onMessage_result [OF assms])

definition http_env :: "'b http env" where
  "http_env = \<lparr>env_loop = 0, env_now = 5, env_ctl = (\<lambda>_ _ _. None), env_on_connection = onConnection\<rparr>"

lemma sample_serving:
  assumes "no_write_error (s\<lparr>ts_sends := xs\<rparr>)" "s = fst sample_server"
  shows "serving http_env 0 7 1 (s\<lparr>ts_sends := xs\<rparr>, new_HttpServer b)"
proof -
  have "tables_ok {} (s\<lparr>ts_sends := xs\<rparr>)"
    using good_reachable [OF record_message_handler sample_reachable] assms(2)
    by (simp add: good_def tables_ok_def table_ok_def settled_def)
  moreover have "open_conn 0 7 1 sample_conn (s\<lparr>ts_sends := xs\<rparr>)" using sample_open(1) assms(2) by (simp add: open_conn_def)
  ultimately show ?thesis using assms(1) unfolding serving_def by (auto simp: http_env_def)
qed

theorem http_refines_stream_witness:
  "conn_result 0 7 1 (serve_stream None new_HttpParser ''GET / HTT'' (3 :: nat))
     ((fst sample_server)\<lparr>ts_sends := [Inr 5]\<rparr>, new_HttpServer 3)
     (onMessage None http_env 7 1 ''GET / HTT'' ((fst sample_server)\<lparr>ts_sends := [Inr 5]\<rparr>, new_HttpServer 3))"
proof -
  have "serving http_env 0 7 1 ((fst sample_server)\<lparr>ts_sends := [Inr 5]\<rparr>, new_HttpServer (3 :: nat))"
    by (rule sample_serving) (simp_all add: no_write_error_def)
  moreover have "conn_buffer_ok 1 (new_HttpServer (3 :: nat))" "conn_view 1 (new_HttpServer (3 :: nat)) = (new_HttpParser, [])"
    "hs_app (new_HttpServer (3 :: nat)) = 3"
    by (simp_all add: conn_buffer_ok_def conn_view_def find_conn_def new_HttpServer_def)
  ultimately show ?thesis
    using http_refines_stream [of http_env 0 7 1 _ "new_HttpServer (3 :: nat)" new_HttpParser "[]" None "''GET / HTT''"] by simp
qed

subsection \<open>Pipelined requests\<close>

text \<open>A request as text, and the responses of a handler to a list of requests.\<close>

record request_text =
  rt_method :: string
  rt_target :: string
  rt_version :: string
  rt_headers :: "(string \<times> string) list"
  rt_body :: string

definition wf_request :: "request_text \<Rightarrow> bool" where
  "wf_request r \<longleftrightarrow> wf_token (rt_method r) \<and> wf_token (rt_target r) \<and> (rt_version r = ''HTTP/1.0'' \<or> rt_version r = ''HTTP/1.1'') \<and>
     list_all wf_header (rt_headers r) \<and> wf_body (rt_headers r) (rt_body r) \<and>
     length (head_text (rt_method r) (rt_target r) (rt_version r) (rt_headers r)) \<le> kMaxHeaderBytes"

definition text_of :: "request_text \<Rightarrow> string" where
  "text_of r = head_text (rt_method r) (rt_target r) (rt_version r) (rt_headers r) @ rt_body r"

definition parsed :: "request_text \<Rightarrow> http_request" where
  "parsed r = request_of (rt_method r) (rt_target r) (rt_version r) (rt_headers r) (rt_body r)"

fun answers :: "'b handler option \<Rightarrow> http_request list \<Rightarrow> 'b \<Rightarrow> http_response list \<times> 'b" where
  "answers handler [] b = ([], b)"
| "answers handler (rq # rqs) b =
     (let (resp, b) = answer handler rq b; (resps, b) = answers handler rqs b in (resp # resps, b))"

lemma answers_length: "answers handler rqs b = (resps, b') \<Longrightarrow> length resps = length rqs"
  by (induction rqs arbitrary: b resps) (auto simp: Let_def split: prod.splits)

text \<open>Handlers that leave the keep-alive flag of the response as the server set it.\<close>

definition keeps_alive :: "'b handler option \<Rightarrow> bool" where
  "keeps_alive handler \<longleftrightarrow> (\<forall>rq b. rs_keep_alive (fst (answer handler rq b)) = rq_keep_alive rq)"

lemma serve_stream_request:
  assumes "wf_request r" "answer handler (parsed r) b = (resp, b')"
  shows "serve_stream handler new_HttpParser (text_of r @ rest) b =
    (if \<not> rq_keep_alive (parsed r) \<or> \<not> rs_keep_alive resp
     then ([serialize resp], Ended, \<lparr>state = Done, req = parsed r, content_length = length (rt_body r),
             header_bytes = length (head_text (rt_method r) (rt_target r) (rt_version r) (rt_headers r))\<rparr>, rest, b')
     else (case serve_stream handler new_HttpParser rest b' of (out, r) \<Rightarrow> (serialize resp # out, r)))"
proof -
  have "parse_stream new_HttpParser (text_of r @ rest) =
    (Complete, \<lparr>state = Done, req = parsed r, content_length = length (rt_body r),
      header_bytes = length (head_text (rt_method r) (rt_target r) (rt_version r) (rt_headers r))\<rparr>, rest)"
    using parse_stream_text [of "rt_method r" "rt_target r" "rt_version r" "rt_headers r" "rt_body r" rest] assms(1)
    by (simp add: wf_request_def text_of_def parsed_def list_all_iff)
  then show ?thesis using assms(2) by (subst serve_stream.simps) (simp add: reset_new)
qed

lemma serve_stream_pipeline:
  assumes "keeps_alive handler" "list_all wf_request rs" "list_all (\<lambda>r. rq_keep_alive (parsed r)) rs"
    "answers handler (map parsed rs) b = (resps, b')" "serve_stream handler new_HttpParser rest b' = (out, r)"
  shows "serve_stream handler new_HttpParser (concat (map text_of rs) @ rest) b = (map serialize resps @ out, r)"
  using assms(2-)
proof (induction rs arbitrary: b resps)
  case (Cons q rs)
  obtain resp b1 where a: "answer handler (parsed q) b = (resp, b1)" by fastforce
  obtain resps1 where as: "answers handler (map parsed rs) b1 = (resps1, b')" "resps = resp # resps1"
    using Cons.prems(3) a by (auto simp: Let_def split: prod.splits)
  have "rs_keep_alive resp" using assms(1) [unfolded keeps_alive_def, rule_format, of "parsed q" b] a Cons.prems(2) by simp
  moreover have "serve_stream handler new_HttpParser (concat (map text_of rs) @ rest) b1 = (map serialize resps1 @ out, r)"
    using Cons.IH [OF _ _ as(1)] Cons.prems by simp
  ultimately show ?case using serve_stream_request [OF _ a, of "concat (map text_of rs) @ rest"] Cons.prems as(2) by simp
qed simp


text \<open>The handler of the program leaves the flag alone on every route.\<close>

lemma handle_keep_alive: "handle now rq resp a = Some (r, a') \<Longrightarrow> rs_keep_alive r = rs_keep_alive resp"
  by (auto simp: handle_def Let_def methodNotAllowed_def notFound_def badRequest_def setJson_def handleStats_def
      handleRedirect_def handleShorten_def split: if_splits option.splits sum.splits prod.splits)

lemma app_keeps_alive: "keeps_alive (Some (app_handler now))"
  unfolding keeps_alive_def answer_def app_handler_def
  using handle_keep_alive by (auto simp: Let_def split: option.split)

lemma pipeline_answered:
  assumes "serving e l f i (s, h)" "find_conn i h = None" "list_all wf_request rs" "list_all (\<lambda>r. rq_keep_alive (parsed r)) rs"
    "answers (Some (app_handler now)) (map parsed rs) (hs_app h) = (resps, a)"
    "onMessage (Some (app_handler now)) e f i (concat (map text_of rs)) (s, h) = (s', h')"
  shows "sent l f i (concat (map serialize resps)) s s' \<and> hs_app h' = a \<and>
    hs_requests h' = hs_requests h + of_nat (length rs) \<and> hs_errors h' = hs_errors h \<and> conn_view i h' = (new_HttpParser, [])"
proof -
  let ?hd = "Some (app_handler now)"
  have empty: "serve_stream ?hd new_HttpParser [] a = ([], Waiting, new_HttpParser, [], a)"
    by (subst serve_stream.simps) (simp add: parse_stream_unfold line_stream_def split_line_def new_HttpParser_def kMaxHeaderBytes_def)
  have "serve_stream ?hd new_HttpParser (concat (map text_of rs)) (hs_app h) = (map serialize resps, Waiting, new_HttpParser, [], a)"
    using serve_stream_pipeline [OF app_keeps_alive assms(3-5) empty] by simp
  moreover have "conn_buffer_ok i h" "conn_view i h = (new_HttpParser, [])"
    using assms(2) by (simp_all add: conn_buffer_ok_def conn_view_def)
  moreover have "length resps = length rs" using answers_length [OF assms(5)] by simp
  ultimately show ?thesis
    using onMessage_result [OF assms(1), of new_HttpParser "[]" ?hd "concat (map text_of rs)"] assms(6)
    by (auto simp: conn_result_def conn_view_def)
qed

text \<open>
  C2: pipelining in the program. Any number of well-formed keep-alive requests that arrive glued
  together in one read on a new connection are answered by the short-link application one after the
  other, each by the handler in the state its predecessors left, and the responses are handed to the transport
  in the order of the requests; the connection stays open with an empty buffer and a new parser.
\<close>

theorem pipeline_answered_in_order:
  assumes "serving e l f i (s, h)" "find_conn i h = None" "list_all wf_request rs" "list_all (\<lambda>r. rq_keep_alive (parsed r)) rs"
    "answers (Some (app_handler now)) (map parsed rs) (hs_app h) = (resps, a)"
    "onMessage (Some (app_handler now)) e f i (concat (map text_of rs)) (s, h) = (s', h')"
  shows "sent l f i (concat (map serialize resps)) s s' \<and> hs_app h' = a \<and>
    hs_requests h' = hs_requests h + of_nat (length rs) \<and> hs_errors h' = hs_errors h \<and> conn_view i h' = (new_HttpParser, [])"
  using assms by (rule pipeline_answered)

definition healthz_request :: request_text where
  "healthz_request = \<lparr>rt_method = ''GET'', rt_target = ''/healthz'', rt_version = ''HTTP/1.1'', rt_headers = [], rt_body = []\<rparr>"

lemma healthz_wf: "wf_request healthz_request" "rq_keep_alive (parsed healthz_request)"
  by (simp_all add: wf_request_def healthz_request_def wf_token_def isspace_def wf_body_def lower_keys_def head_text_def header_text_def
      kMaxHeaderBytes_def kMaxBodyBytes_def parsed_def request_of_def)

theorem pipeline_answered_in_order_witness:
  "\<exists>resps a. answers (Some (app_handler 9)) (map parsed [healthz_request, healthz_request]) (main_app 8080) = (resps, a) \<and>
     sent 0 7 1 (concat (map serialize resps)) ((fst sample_server)\<lparr>ts_sends := [Inr 5]\<rparr>)
       (fst (onMessage (Some (app_handler 9)) http_env 7 1 (concat (map text_of [healthz_request, healthz_request]))
          ((fst sample_server)\<lparr>ts_sends := [Inr 5]\<rparr>, new_HttpServer (main_app 8080))))"
proof -
  let ?rs = "[healthz_request, healthz_request]"
  let ?w = "((fst sample_server)\<lparr>ts_sends := [Inr 5]\<rparr>, new_HttpServer (main_app 8080))"
  obtain resps a where a: "answers (Some (app_handler 9)) (map parsed ?rs) (main_app 8080) = (resps, a)" by fastforce
  obtain s' h' where o: "onMessage (Some (app_handler 9)) http_env 7 1 (concat (map text_of ?rs)) ?w = (s', h')" by fastforce
  have "serving http_env 0 7 1 ?w" by (rule sample_serving) (simp_all add: no_write_error_def)
  moreover have "find_conn 1 (new_HttpServer (main_app 8080)) = None" "hs_app (new_HttpServer (main_app 8080)) = main_app 8080"
    by (simp_all add: find_conn_def new_HttpServer_def)
  ultimately have "sent 0 7 1 (concat (map serialize resps)) ((fst sample_server)\<lparr>ts_sends := [Inr 5]\<rparr>) s'"
    using pipeline_answered_in_order [of http_env 0 7 1 _ "new_HttpServer (main_app 8080)" ?rs 9 resps a s' h'] healthz_wf a o by simp
  with a o show ?thesis by auto
qed

subsection \<open>Half packets\<close>

lemma serve_stream_agree:
  assumes "agree (parse_stream p s) (parse_stream q t)"
  shows "\<exists>outs st p' q' rest b'. serve_stream handler p s b = (outs, st, p', rest, b') \<and> serve_stream handler q t b = (outs, st, q', rest, b')"
proof -
  obtain r p1 rest q1 where ps: "parse_stream p s = (r, p1, rest)" "parse_stream q t = (r, q1, rest)" "ahead p1 q1"
    using assms by (cases "parse_stream p s", cases "parse_stream q t") (auto simp: agree_def)
  have same: "req q1 = req p1" "reset q1 = reset p1" using ps(3) by (auto simp: reset_new elim: ahead_obtain)
  show ?thesis
  proof (cases r)
    case Complete
    obtain resp b1 where a: "answer handler (req p1) b = (resp, b1)" by fastforce
    obtain outs st p2 r2 b2 where "serve_stream handler (reset p1) rest b1 = (outs, st, p2, r2, b2)"
      by (cases "serve_stream handler (reset p1) rest b1")
    then show ?thesis using Complete ps same a by (subst (1 2) serve_stream.simps) simp
  qed (use ps in \<open>subst (1 2) serve_stream.simps, simp\<close>)+
qed

lemma serve_stream_split:
  "serve_stream handler p s b = (outs, Waiting, p1, s1, b1) \<Longrightarrow> counter_ok p s \<Longrightarrow> \<not> too_large (fst (parse_stream p1 (s1 @ t))) \<Longrightarrow>
   \<exists>outs2 st q1 q2 rest b2. serve_stream handler p1 (s1 @ t) b1 = (outs2, st, q1, rest, b2) \<and>
     serve_stream handler p (s @ t) b = (outs @ outs2, st, q2, rest, b2)"
proof (induction handler p s b arbitrary: outs rule: serve_stream.induct)
  case (1 handler p s b)
  obtain r p' s' where ps: "parse_stream p s = (r, p', s')" by (cases "parse_stream p s")
  show ?case
  proof (cases r)
    case NeedMore
    with "1.prems"(1) ps have eq: "outs = []" "p1 = p'" "s1 = s'" "b1 = b" by (auto simp: serve_stream.simps [of handler p s b])
    from parse_stream_cut [OF _ "1.prems"(2), of p' s' t] ps NeedMore "1.prems"(3) eq
    have "agree (parse_stream p (s @ t)) (parse_stream p1 (s1 @ t))" by simp
    from serve_stream_agree [OF this] eq show ?thesis by fastforce
  next
    case (Error err)
    with "1.prems"(1) ps show ?thesis by (simp add: serve_stream.simps [of handler p s b])
  next
    case Complete
    obtain resp x where a: "answer handler (req p') b = (resp, x)" by fastforce
    have ka: "\<not> (\<not> rq_keep_alive (req p') \<or> \<not> rs_keep_alive resp)"
      using "1.prems"(1) ps Complete a by (auto simp: serve_stream.simps [of handler p s b] split: if_splits)
    obtain o1 where o1: "serve_stream handler (reset p') s' x = (o1, Waiting, p1, s1, b1)" "outs = serialize resp # o1"
      using "1.prems"(1) ps Complete a ka
      by (cases "serve_stream handler (reset p') s' x") (auto simp: serve_stream.simps [of handler p s b])
    have "counter_ok (reset p') s'" by (simp add: reset_new counter_ok_def new_HttpParser_def)
    from "1.IH" [OF ps [symmetric] Complete refl a [symmetric] ka o1(1) this "1.prems"(3)] obtain outs2 st q1 q2 rest b2 where
      "serve_stream handler p1 (s1 @ t) b1 = (outs2, st, q1, rest, b2)"
      "serve_stream handler (reset p') (s' @ t) x = (o1 @ outs2, st, q2, rest, b2)" by blast
    moreover have "parse_stream p (s @ t) = (Complete, p', s' @ t)" using parse_stream_final [of p s r p' s' t] ps Complete by simp
    ultimately show ?thesis using a ka o1(2) by (simp add: serve_stream.simps [of handler p "s @ t"])
  qed
qed

text \<open>Two calls that continue one another did what one call did.\<close>

lemma conn_results_join:
  assumes res1: "conn_result l f i (o1, Waiting, p1, r1, b1) (s, h) (s1, h1)"
    and res2: "conn_result l f i (o2, st, q1, rest, b2) (s1, h1) (s2, h2)"
    and res3: "conn_result l f i (o1 @ o2, st, q2, rest, b2) (s, h) (s3, h3)"
  shows "hs_app h2 = hs_app h3 \<and> hs_requests h2 = hs_requests h3 \<and> hs_errors h2 = hs_errors h3 \<and>
    (\<exists>out u v. sent l f i out s u \<and> sent l f i out s v \<and>
       (if find_conn i h2 = None
        then find_conn i h3 = None \<and> ts_log s2 = ts_log u @ [Closed f] \<and> ts_log s3 = ts_log v @ [Closed f]
        else find_conn i h3 \<noteq> None \<and> s2 = u \<and> s3 = v))"
proof -
  have w1: "sent l f i (concat o1) s s1" using res1 by (simp add: conn_result_def)
  have "hs_requests h2 + (if st = Refused then 1 else 0) = hs_requests h3 + (if st = Refused then 1 else 0)"
    using res1 res2 res3 by (simp add: conn_result_def add.assoc)
  then have "hs_requests h2 = hs_requests h3" by (rule add_right_imp_eq)
  then have counts: "hs_requests h2 = hs_requests h3 \<and> hs_errors h2 = hs_errors h3" "hs_app h2 = b2" "hs_app h3 = b2"
    using res1 res2 res3 by (simp_all add: conn_result_def)
  show ?thesis
  proof (cases "st = Waiting")
    case True
    then have "sent l f i (concat o1 @ concat o2) s s2" "sent l f i (concat o1 @ concat o2) s s3" "find_conn i h2 \<noteq> None" "find_conn i h3 \<noteq> None"
      using res2 res3 sent_trans [OF w1] by (auto simp: conn_result_def)
    then show ?thesis using counts by auto
  next
    case False
    then obtain u v where "sent l f i (concat o1 @ concat o2) s u" "sent l f i (concat o1 @ concat o2) s v"
      "ts_log s2 = ts_log u @ [Closed f]" "ts_log s3 = ts_log v @ [Closed f]" "find_conn i h2 = None" "find_conn i h3 = None"
      using res2 res3 sent_trans [OF w1] by (auto simp: conn_result_def)
    then show ?thesis using counts by auto
  qed
qed

text \<open>
  C9: half packets. On a new connection that is still open after a read of \<open>d1\<close>, a second read of \<open>d2\<close>
  leads to the same responses in the same order, the same end of the connection, the same state of
  the application and the same counters as one read of \<open>d1\<close> and \<open>d2\<close> together, unless the request
  that \<open>d2\<close> continues is refused with status 431.
\<close>

theorem split_reads_same_answers:
  assumes "serving e l f i (s, h)" "find_conn i h = None"
    "onMessage handler e f i d1 (s, h) = (s1, h1)" "find_conn i h1 = Some c"
    "\<not> too_large (fst (parse (hc_parser c) (buf_append d2 (hc_in c))))"
    "onMessage handler e f i d2 (s1, h1) = (s2, h2)" "onMessage handler e f i (d1 @ d2) (s, h) = (s3, h3)"
  shows "hs_app h2 = hs_app h3 \<and> hs_requests h2 = hs_requests h3 \<and> hs_errors h2 = hs_errors h3 \<and>
    (\<exists>out u v. sent l f i out s u \<and> sent l f i out s v \<and>
       (if find_conn i h2 = None
        then find_conn i h3 = None \<and> ts_log s2 = ts_log u @ [Closed f] \<and> ts_log s3 = ts_log v @ [Closed f]
        else find_conn i h3 \<noteq> None \<and> s2 = u \<and> s3 = v))"
proof -
  have new: "conn_buffer_ok i h" "conn_view i h = (new_HttpParser, [])"
    using assms(2) by (simp_all add: conn_buffer_ok_def conn_view_def)
  obtain o1 st1 p1 r1 b1 where ss1: "serve_stream handler new_HttpParser d1 (hs_app h) = (o1, st1, p1, r1, b1)"
    by (cases "serve_stream handler new_HttpParser d1 (hs_app h)")
  have res1: "conn_result l f i (o1, st1, p1, r1, b1) (s, h) (s1, h1)"
    using onMessage_result [OF assms(1) new, of handler d1] ss1 assms(3) by simp
  then have st1: "st1 = Waiting" and c: "hc_parser c = p1" "buf_ok (hc_in c)" "contents (hc_in c) = r1"
    and w1: "sent l f i (concat o1) s s1" "hs_app h1 = b1" "shards_ok h1"
    using assms(4) by (auto simp: conn_result_def split: if_splits)
  have view1: "conn_buffer_ok i h1" "conn_view i h1 = (p1, r1)" using assms(4) c by (simp_all add: conn_buffer_ok_def conn_view_def)
  have sv1: "serving e l f i (s1, h1)" using assms(1) w1 by (auto simp: serving_def sent_def)
  have "fst (parse_stream p1 (r1 @ d2)) = fst (parse p1 (buf_append d2 (hc_in c)))"
    using parse_refines_aux [of "buf_append d2 (hc_in c)" p1] c by (simp add: inv_intros abs_simps) (metis fst_conv surj_pair view3.simps)
  then have fits: "\<not> too_large (fst (parse_stream p1 (r1 @ d2)))" using assms(5) c(1) by simp
  have "counter_ok new_HttpParser d1" by (simp add: counter_ok_def new_HttpParser_def)
  from serve_stream_split [OF ss1 [unfolded st1] this fits] obtain o2 st q1 q2 rest b2 where
    ss: "serve_stream handler p1 (r1 @ d2) b1 = (o2, st, q1, rest, b2)"
      "serve_stream handler new_HttpParser (d1 @ d2) (hs_app h) = (o1 @ o2, st, q2, rest, b2)" by blast
  have res2: "conn_result l f i (o2, st, q1, rest, b2) (s1, h1) (s2, h2)"
    using onMessage_result [OF sv1 view1, of handler d2] ss(1) w1(2) assms(6) by simp
  have res3: "conn_result l f i (o1 @ o2, st, q2, rest, b2) (s, h) (s3, h3)"
    using onMessage_result [OF assms(1) new, of handler "d1 @ d2"] ss(2) assms(7) by simp
  show ?thesis by (rule conn_results_join [OF res1 [unfolded st1] res2 res3])
qed

definition fresh_http :: "tcp \<times> nat http" where
  "fresh_http = ((fst sample_server)\<lparr>ts_sends := [Inr 5]\<rparr>, new_HttpServer 3)"

lemma fresh_serving: "serving http_env 0 7 1 fresh_http" "find_conn 1 (snd fresh_http) = None" "hs_app (snd fresh_http) = 3"
  "conn_buffer_ok 1 (snd fresh_http)" "conn_view 1 (snd fresh_http) = (new_HttpParser, [])"
  unfolding fresh_http_def
  by (rule sample_serving) (simp_all add: no_write_error_def find_conn_def new_HttpServer_def conn_buffer_ok_def conn_view_def)

lemma half_request: "serve_stream handler new_HttpParser ''GE'' b = ([], Waiting, new_HttpParser\<lparr>header_bytes := 2\<rparr>, ''GE'', b)"
  by (subst serve_stream.simps) (simp add: parse_stream_unfold line_stream_def split_line_def new_HttpParser_def kMaxHeaderBytes_def first_index_def)

theorem split_reads_same_answers_witness:
  "hs_app (snd (onMessage None http_env 7 1 ''T'' (onMessage None http_env 7 1 ''GE'' fresh_http))) =
     hs_app (snd (onMessage None http_env 7 1 ''GET'' fresh_http))"
proof -
  obtain s h where w: "fresh_http = (s, h)" by fastforce
  obtain s1 h1 where o1: "onMessage None http_env 7 1 ''GE'' (s, h) = (s1, h1)" by fastforce
  obtain s2 h2 where o2: "onMessage None http_env 7 1 ''T'' (s1, h1) = (s2, h2)" by fastforce
  obtain s3 h3 where o3: "onMessage None http_env 7 1 (''GE'' @ ''T'') (s, h) = (s3, h3)" by fastforce
  note sv = fresh_serving [unfolded w snd_conv]
  from onMessage_result [OF sv(1,4,5), of None "''GE''"] o1 half_request [of None "hs_app h"]
  have "conn_result 0 7 1 ([], Waiting, new_HttpParser\<lparr>header_bytes := 2\<rparr>, ''GE'', hs_app h) (s, h) (s1, h1)" by simp
  then obtain c where c: "find_conn 1 h1 = Some c" "hc_parser c = new_HttpParser\<lparr>header_bytes := 2\<rparr>" "buf_ok (hc_in c)" "contents (hc_in c) = ''GE''"
    by (auto simp: conn_result_def)
  have "parse_stream (new_HttpParser\<lparr>header_bytes := 2\<rparr>) ''GET'' = (NeedMore, new_HttpParser\<lparr>header_bytes := 3\<rparr>, ''GET'')"
    by (simp add: parse_stream_unfold line_stream_def split_line_def new_HttpParser_def kMaxHeaderBytes_def)
  then have "fst (parse (hc_parser c) (buf_append ''T'' (hc_in c))) = NeedMore"
    using parse_refines_aux [of "buf_append ''T'' (hc_in c)" "hc_parser c"] c
    by (cases "parse (hc_parser c) (buf_append ''T'' (hc_in c))") (simp add: inv_intros abs_simps)
  with split_reads_same_answers [OF sv(1,2) o1 c(1) _ o2 o3] o1 o2 o3 show ?thesis unfolding w by simp
qed

subsection \<open>Write errors and closing\<close>

lemma onMessage_new_request:
  assumes "shards_ok h" "find_conn i h = None" "wf_request r" "answer handler (parsed r) (hs_app h) = (resp, x)"
  obtains h' where "shards_ok h'" "find_conn i h' \<noteq> None" "hs_app h' = x"
    "onMessage handler e f i (text_of r) (s, h) =
       (let w = send e f (serialize resp) (s, h')
        in if find_conn i (snd w) = None then (fst w, (snd w)\<lparr>hs_dangling := True\<rparr>)
           else if \<not> rq_keep_alive (parsed r) \<or> \<not> rs_keep_alive resp then shutdown e f w
           else message_loop handler e f i (\<lparr>hc_in = hc_in (the (find_conn i h')), hc_parser = new_HttpParser\<rparr>) w)"
proof -
  let ?b = "buf_append (text_of r) (new_Buffer 1024)"
  let ?c = "\<lparr>hc_in = ?b, hc_parser = new_HttpParser\<rparr>"
  from parse_reads_request [of "rt_method r" "rt_target r" "rt_version r" "rt_headers r" "rt_body r" "[]" 1024] assms(3)
  obtain p b where p: "parse new_HttpParser ?b = (Complete, p, b)" "req p = parsed r" "reset p = new_HttpParser"
    by (auto simp: wf_request_def text_of_def parsed_def list_all_iff)
  let ?h1 = "put_conn i \<lparr>hc_in = b, hc_parser = p\<rparr> (put_conn i ?c (put_conn i new_HttpConn h))"
  let ?h = "?h1\<lparr>hs_requests := hs_requests ?h1 + 1, hs_app := x\<rparr>"
  have "onMessage handler e f i (text_of r) (s, h) = message_loop handler e f i ?c (s, put_conn i ?c (put_conn i new_HttpConn h))"
    using assms(2) by (simp add: onMessage_def findOrCreate_def new_HttpConn_def Let_def)
  moreover have "shards_ok ?h" "find_conn i ?h = Some \<lparr>hc_in = b, hc_parser = p\<rparr>" using assms(1) by (simp_all add: find_put_conn)
  ultimately show ?thesis
    using p assms(4) by (intro that [of ?h]) (simp_all add: message_loop.simps [of handler e f i ?c] Let_def)
qed

text \<open>
  C36: a write error while a response is sent. If the kernel refuses the response to a request (for
  instance because the client has gone away), \<open>closeConnInLoop\<close> drops the record of the connection inside
  \<open>send\<close>, and \<open>onMessage\<close> then reads the request and resets the parser through a pointer into the
  record that is gone.
\<close>

theorem write_error_dangles:
  assumes "tables_ok {} s" "open_conn (env_loop e) f i c s" "cn_out c = []" "env_on_connection e = onConnection"
    "ts_sends s = Inl er # xs" "er \<noteq> EAGAIN" "er \<noteq> EINTR" "shards_ok h" "find_conn i h = None" "wf_request r"
  shows "hs_dangling (snd (onMessage handler e f i (text_of r) (s, h)))"
proof -
  obtain resp x where a: "answer handler (parsed r) (hs_app h) = (resp, x)" by fastforce
  from onMessage_new_request [OF assms(8-10) a, of e f s] obtain h' where h': "shards_ok h'"
    and om: "onMessage handler e f i (text_of r) (s, h) =
       (let w = send e f (serialize resp) (s, h')
        in if find_conn i (snd w) = None then (fst w, (snd w)\<lparr>hs_dangling := True\<rparr>)
           else if \<not> rq_keep_alive (parsed r) \<or> \<not> rs_keep_alive resp then shutdown e f w
           else message_loop handler e f i (\<lparr>hc_in = hc_in (the (find_conn i h')), hc_parser = new_HttpParser\<rparr>) w)" by metis
  let ?s = "upd_conn i (\<lambda>c. c\<lparr>cn_last_active_ms := env_now e, cn_out := cn_out c @ serialize resp\<rparr>) s"
  let ?c = "c\<lparr>cn_last_active_ms := env_now e, cn_out := serialize resp\<rparr>"
  have c: "um_find (ts_store s) i = Some c" "um_find (ts_conns s) (cn_fd c) = Some i" "cn_fd c = f" "\<not> cn_writing c" "cn_owner c = env_loop e"
    using assms(2,3) by (auto simp: open_conn_def)
  have ok: "um_ok (ts_store s)" using assms(1) by (simp add: tables_ok_def table_ok_def)
  have id: "cn_id c = i" using table_conn [of s f i] assms(1,2) c by (auto simp: tables_ok_def open_conn_def)
  have c': "um_find (ts_store ?s) i = Some ?c" using ok c(1) assms(3) by (simp add: upd_conn_store)
  have "serialize resp \<noteq> []" by (simp add: serialize_def)
  then have "send e f (serialize resp) (s, h') = closeConnInLoop e i (?s\<lparr>ts_sends := xs\<rparr>, h')"
    using c c' assms(2,5-7)
    by (simp add: send_def open_conn_def run_in_loop_def owner_of_def exec_task_def appendAndFlush_def Let_def flushWrite.simps [of e i "(?s, h')"] pop_send_def)
  moreover have "snd (closeConnInLoop e i (?s\<lparr>ts_sends := xs\<rparr>, h')) = drop_conn i h'"
    using c c' id assms(4) by (simp add: closeConnInLoop_def Let_def onConnection_def)
  ultimately show ?thesis unfolding om using h' by (simp add: Let_def find_drop_conn)
qed

theorem write_error_dangles_witness:
  "hs_dangling (snd (onMessage (Some (app_handler 9)) http_env 7 1 (text_of healthz_request)
     ((fst sample_server)\<lparr>ts_sends := [Inl 32]\<rparr>, new_HttpServer (main_app 8080))))"
proof -
  have "tables_ok {} ((fst sample_server)\<lparr>ts_sends := [Inl 32]\<rparr>)"
    using good_reachable [OF record_message_handler sample_reachable] by (simp add: good_def tables_ok_def table_ok_def settled_def)
  moreover have "open_conn (env_loop http_env) 7 1 sample_conn ((fst sample_server)\<lparr>ts_sends := [Inl 32]\<rparr>)"
    using sample_open(1) by (simp add: open_conn_def http_env_def)
  ultimately show ?thesis
    using write_error_dangles [of _ http_env 7 1 sample_conn 32 "[]" "new_HttpServer (main_app 8080)" healthz_request "Some (app_handler 9)"]
      sample_open(2) healthz_wf(1)
    by (simp add: http_env_def EAGAIN_def EINTR_def find_conn_def new_HttpServer_def shards_ok_def)
qed

text \<open>
  Closing does not wait. When the last response of a connection does not fit into the socket
  (the kernel takes \<open>n\<close> bytes and then reports \<open>EAGAIN\<close>), the rest is buffered, but \<open>shutdown\<close> closes the
  descriptor at once: only the first \<open>n\<close> bytes are ever sent.
\<close>

theorem truncated_response:
  assumes "serving e l f i (s, h)" "open_conn l f i c s" "cn_out c = []" "ts_sends s = [Inr n]" "find_conn i h = None"
    "wf_request r" "\<not> rq_keep_alive (parsed r)" "answer handler (parsed r) (hs_app h) = (resp, x)" "n < length (serialize resp)"
  shows "ts_log (fst (onMessage handler e f i (text_of r) (s, h))) = ts_log s @ [Sent f (take n (serialize resp)), Closed f]"
proof -
  have sv: "tables_ok {} s" "env_loop e = l" "env_on_connection e = onConnection" "shards_ok h" and n: "0 < n"
    using assms(1,4) by (auto simp: serving_def no_write_error_def)
  from onMessage_new_request [OF sv(4) assms(5,6,8), of e f s] obtain h' where h': "shards_ok h'" "find_conn i h' \<noteq> None"
    and om: "onMessage handler e f i (text_of r) (s, h) =
       (let w = send e f (serialize resp) (s, h')
        in if find_conn i (snd w) = None then (fst w, (snd w)\<lparr>hs_dangling := True\<rparr>)
           else if \<not> rq_keep_alive (parsed r) \<or> \<not> rs_keep_alive resp then shutdown e f w
           else message_loop handler e f i (\<lparr>hc_in = hc_in (the (find_conn i h')), hc_parser = new_HttpParser\<rparr>) w)" by metis
  have sv': "serving e l f i (s, h')" using assms(1) h'(1) by (simp add: serving_def)
  from serving_send [OF sv', of "serialize resp"] obtain s1 where s1: "send e f (serialize resp) (s, h') = (s1, h')" "serving e l f i (s1, h')" by auto
  let ?s = "upd_conn i (\<lambda>c. c\<lparr>cn_last_active_ms := env_now e, cn_out := cn_out c @ serialize resp\<rparr>) s"
  let ?t = "log_effect (Sent f (take n (serialize resp))) (upd_conn i (\<lambda>c. c\<lparr>cn_out := drop n (cn_out c)\<rparr>) (?s\<lparr>ts_sends := []\<rparr>))"
  let ?c = "c\<lparr>cn_last_active_ms := env_now e, cn_out := serialize resp\<rparr>"
  have c: "um_find (ts_store s) i = Some c" "um_find (ts_conns s) f = Some i" "cn_fd c = f" "\<not> cn_writing c" "cn_owner c = l"
    using assms(2,3) by (auto simp: open_conn_def)
  have ok: "um_ok (ts_store s)" using sv(1) by (simp add: tables_ok_def table_ok_def)
  have c': "um_find (ts_store ?s) i = Some ?c" "um_ok (ts_store ?s)" using ok c(1) assms(3) by (simp_all add: upd_conn_store)
  have t: "um_find (ts_store ?t) i = Some (?c\<lparr>cn_out := drop n (serialize resp)\<rparr>)" using c' by (simp add: upd_conn_store)
  have "send e f (serialize resp) (s, h') = flushWrite e i (?s, h')"
    using c sv(2) by (simp add: send_def run_in_loop_def owner_of_def exec_task_def appendAndFlush_def)
  also have "\<dots> = flushWrite e i (?t, h')"
    using c' c(3) n assms(4,9) by (subst flushWrite.simps) (auto simp: pop_send_def)
  also have "ts_log (fst (flushWrite e i (?t, h'))) = ts_log s @ [Sent f (take n (serialize resp))]"
    using t assms(9) by (subst flushWrite.simps) (simp add: pop_send_def)
  finally have "ts_log s1 = ts_log s @ [Sent f (take n (serialize resp))]" using s1(1) by simp
  moreover obtain s2 where "shutdown e f (s1, h') = (s2, drop_conn i h')" "ts_log s2 = ts_log s1 @ [Closed f]"
    using serving_shutdown [OF s1(2)] by auto
  ultimately show ?thesis unfolding om using s1(1) h'(2) assms(7) by (auto simp: Let_def)
qed

definition closing_request :: request_text where
  "closing_request = \<lparr>rt_method = ''GET'', rt_target = ''/healthz'', rt_version = ''HTTP/1.0'', rt_headers = [], rt_body = []\<rparr>"

theorem truncated_response_witness:
  "\<exists>d. ts_log (fst (onMessage None http_env 7 1 (text_of closing_request) ((fst sample_server)\<lparr>ts_sends := [Inr 5]\<rparr>, new_HttpServer (3 :: nat)))) =
     ts_log (fst sample_server) @ [Sent 7 d, Closed 7] \<and> length d = 5"
proof -
  let ?s = "(fst sample_server)\<lparr>ts_sends := [Inr 5]\<rparr>"
  have "wf_request closing_request" "\<not> rq_keep_alive (parsed closing_request)"
    by (simp_all add: wf_request_def closing_request_def wf_token_def isspace_def wf_body_def lower_keys_def head_text_def header_text_def
        kMaxHeaderBytes_def kMaxBodyBytes_def parsed_def request_of_def)
  moreover obtain resp x where "answer None (parsed closing_request) (3 :: nat) = (resp, x)" by fastforce
  moreover have "5 < length (serialize resp)" by (simp add: serialize_def)
  moreover have "open_conn 0 7 1 sample_conn ?s" "ts_sends ?s = [Inr 5]" using sample_open(1) by (simp_all add: open_conn_def)
  ultimately show ?thesis
    using truncated_response [of http_env 0 7 1 ?s "new_HttpServer 3" sample_conn 5 closing_request None resp x]
      fresh_serving [unfolded fresh_http_def snd_conv] sample_open(2) by auto
qed

end
