(* ===== verification/MemoryPool.thy ===== *)
theory MemoryPool
  imports Prelude
begin

text \<open>
  \<open>src/MemoryPool.cc\<close>: fixed-size blocks carved out of chunks and kept on an intrusive free
  list. Addresses are naturals, \<open>0\<close> is the null pointer, and \<open>mp_next\<close> is the memory word at a
  block's address, which holds the link while the block is free and belongs to the client while
  it is in use. \<open>std::malloc\<close> is an argument: the address it returns for a size, \<open>0\<close> on failure.
  \<open>std::bad_alloc\<close> is the result \<open>None\<close>. Every public operation runs under the mutex.
\<close>

section \<open>State and operations\<close>

type_synonym addr = nat

record pool =
  mp_block_size :: nat
  mp_blocks_per_chunk :: nat
  mp_free_list :: addr
  mp_chunks :: "addr list"
  mp_total_blocks :: nat
  mp_next :: "addr \<Rightarrow> addr"

text \<open>\<open>sizeof(Block)\<close> and \<open>alignof(std::max_align_t)\<close> on the 64-bit target.\<close>

definition sizeof_Block :: nat where "sizeof_Block = 8"
definition alignof_max_align :: nat where "alignof_max_align = 16"

definition new_MemoryPool :: "nat \<Rightarrow> nat \<Rightarrow> pool" where
  "new_MemoryPool block_size blocks_per_chunk =
     \<lparr>mp_block_size =
        (if block_size < sizeof_Block then sizeof_Block
         else (block_size + alignof_max_align - 1) div alignof_max_align * alignof_max_align),
      mp_blocks_per_chunk = (if blocks_per_chunk = 0 then 1 else blocks_per_chunk),
      mp_free_list = 0, mp_chunks = [], mp_total_blocks = 0, mp_next = (\<lambda>_. 0)\<rparr>"

definition grow_loop :: "addr \<Rightarrow> nat \<Rightarrow> nat \<Rightarrow> (addr \<Rightarrow> addr) \<times> addr \<Rightarrow> (addr \<Rightarrow> addr) \<times> addr" where
  "grow_loop chunk block_size n =
     fold (\<lambda>i (next, free). (next(chunk + i * block_size := free), chunk + i * block_size)) [0..<n]"

definition grow :: "(nat \<Rightarrow> addr) \<Rightarrow> pool \<Rightarrow> pool option" where
  "grow malloc p =
     (let bytes = mp_block_size p * mp_blocks_per_chunk p mod 2 ^ 64;
          chunk = malloc bytes
      in if chunk = 0 then None
         else
           (let (next, free) = grow_loop chunk (mp_block_size p) (mp_blocks_per_chunk p) (mp_next p, mp_free_list p)
            in Some (p\<lparr>mp_chunks := mp_chunks p @ [chunk],
                 mp_total_blocks := mp_total_blocks p + mp_blocks_per_chunk p,
                 mp_next := next, mp_free_list := free\<rparr>)))"

definition pop_block :: "pool \<Rightarrow> addr \<times> pool" where
  "pop_block p = (mp_free_list p, p\<lparr>mp_free_list := mp_next p (mp_free_list p)\<rparr>)"

definition allocate :: "(nat \<Rightarrow> addr) \<Rightarrow> pool \<Rightarrow> (addr \<times> pool) option" where
  "allocate malloc p =
     (if mp_free_list p = 0 then map_option pop_block (grow malloc p) else Some (pop_block p))"

definition deallocate :: "addr \<Rightarrow> pool \<Rightarrow> pool" where
  "deallocate a p =
     (if a = 0 then p else p\<lparr>mp_next := (mp_next p)(a := mp_free_list p), mp_free_list := a\<rparr>)"

definition blockSize :: "pool \<Rightarrow> nat" where "blockSize p = mp_block_size p"
definition totalBlocks :: "pool \<Rightarrow> nat" where "totalBlocks p = mp_total_blocks p"
definition chunks :: "pool \<Rightarrow> nat" where "chunks p = length (mp_chunks p)"

text \<open>
  \<open>PoolAllocator<T>\<close>: one object comes from the pool, anything else from \<open>operator new\<close>, whose
  answer is an argument. The boolean says whether the pool served the request.
\<close>

definition pa_allocate :: "(nat \<Rightarrow> addr) \<Rightarrow> (nat \<Rightarrow> addr option) \<Rightarrow> nat \<Rightarrow> nat \<Rightarrow> pool option \<Rightarrow>
    (addr \<times> bool \<times> pool option) option" where
  "pa_allocate malloc op_new sizeof_T n pl =
     (case pl of
        Some p \<Rightarrow> if n = 1 then map_option (\<lambda>(a, p'). (a, True, Some p')) (allocate malloc p)
                  else map_option (\<lambda>a. (a, False, pl)) (op_new (n * sizeof_T mod 2 ^ 64))
      | None \<Rightarrow> map_option (\<lambda>a. (a, False, pl)) (op_new (n * sizeof_T mod 2 ^ 64)))"

definition pa_deallocate :: "addr \<Rightarrow> nat \<Rightarrow> pool option \<Rightarrow> bool \<times> pool option" where
  "pa_deallocate a n pl =
     (case pl of Some p \<Rightarrow> if n = 1 then (True, Some (deallocate a p)) else (False, pl) | None \<Rightarrow> (False, pl))"

section \<open>The free list as a chain\<close>

fun chain :: "(addr \<Rightarrow> addr) \<Rightarrow> addr \<Rightarrow> addr list \<Rightarrow> bool" where
  "chain nxt a [] \<longleftrightarrow> a = 0"
| "chain nxt a (x # xs) \<longleftrightarrow> a = x \<and> x \<noteq> 0 \<and> chain nxt (nxt x) xs"

lemma chain_frame [simp]: "b \<notin> set xs \<Longrightarrow> chain (nxt(b := v)) a xs = chain nxt a xs"
  by (induction xs arbitrary: a) auto

definition carve :: "addr \<Rightarrow> nat \<Rightarrow> nat \<Rightarrow> addr list" where
  "carve chunk bs n = rev (map (\<lambda>i. chunk + i * bs) [0..<n])"

lemma set_carve: "set (carve c bs n) = {c + i * bs | i. i < n}"
  by (auto simp: carve_def)

lemma distinct_carve: "0 < bs \<Longrightarrow> distinct (carve c bs n)"
  by (auto simp: carve_def distinct_map inj_on_def)

lemma grow_loop_chain:
  assumes "chain nxt free xs" "0 < bs" "c \<noteq> 0" "\<forall>i < n. c + i * bs \<notin> set xs"
  shows "chain (fst (grow_loop c bs n (nxt, free))) (snd (grow_loop c bs n (nxt, free))) (carve c bs n @ xs) \<and>
    (\<forall>a. a \<notin> set (carve c bs n) \<longrightarrow> fst (grow_loop c bs n (nxt, free)) a = nxt a)"
  using assms(4)
proof (induction n)
  case 0
  then show ?case using assms(1) by (simp add: grow_loop_def carve_def)
next
  case (Suc n)
  let ?g = "grow_loop c bs n (nxt, free)"
  have step: "grow_loop c bs (Suc n) (nxt, free) = ((fst ?g)(c + n * bs := snd ?g), c + n * bs)"
    by (simp add: grow_loop_def split: prod.split)
  have carve: "carve c bs (Suc n) = (c + n * bs) # carve c bs n" by (simp add: carve_def)
  have new: "c + n * bs \<notin> set (carve c bs n @ xs)"
    using Suc.prems assms(2) by (auto simp: set_carve)
  have IH: "chain (fst ?g) (snd ?g) (carve c bs n @ xs)" "\<forall>a. a \<notin> set (carve c bs n) \<longrightarrow> fst ?g a = nxt a"
    using Suc by simp_all
  have "chain ((fst ?g)(c + n * bs := snd ?g)) (snd ?g) (carve c bs n @ xs)"
    using IH(1) chain_frame [OF new] by blast
  then show ?case using IH(2) assms(3) by (simp add: step carve del: fun_upd_apply) simp
qed

section \<open>Invariant\<close>

text \<open>All block addresses, and that no two blocks overlap.\<close>

definition blocks :: "pool \<Rightarrow> addr set" where
  "blocks p = {c + i * mp_block_size p | c i. c \<in> set (mp_chunks p) \<and> i < mp_blocks_per_chunk p}"

definition chunk_bytes :: "pool \<Rightarrow> nat" where
  "chunk_bytes p = mp_block_size p * mp_blocks_per_chunk p"

definition apart :: "nat \<Rightarrow> addr \<Rightarrow> addr \<Rightarrow> bool" where
  "apart k a b \<longleftrightarrow> a + k \<le> b \<or> b + k \<le> a"

definition pool_shape :: "pool \<Rightarrow> bool" where
  "pool_shape p \<longleftrightarrow> sizeof_Block \<le> mp_block_size p \<and> 0 < mp_blocks_per_chunk p \<and> chunk_bytes p < 2 ^ 64 \<and>
     0 \<notin> set (mp_chunks p) \<and> sorted_wrt (apart (chunk_bytes p)) (mp_chunks p) \<and>
     mp_total_blocks p = mp_blocks_per_chunk p * length (mp_chunks p)"

definition free_chain :: "pool \<Rightarrow> addr set \<Rightarrow> addr list \<Rightarrow> bool" where
  "free_chain p live xs \<longleftrightarrow> chain (mp_next p) (mp_free_list p) xs \<and> distinct xs \<and>
     set xs \<union> live = blocks p \<and> set xs \<inter> live = {}"

definition pool_ok :: "pool \<Rightarrow> addr set \<Rightarrow> bool" where \<comment> \<open>the set: blocks in use\<close>
  "pool_ok p live \<longleftrightarrow> pool_shape p \<and> (\<exists>xs. free_chain p live xs)"

lemma pool_okE:
  assumes "pool_ok p live"
  obtains xs where "pool_shape p" "chain (mp_next p) (mp_free_list p) xs" "distinct xs"
    "set xs \<union> live = blocks p" "set xs \<inter> live = {}"
  using assms by (auto simp: pool_ok_def free_chain_def)

lemma pool_okI:
  "\<lbrakk>pool_shape p; chain (mp_next p) (mp_free_list p) xs; distinct xs; set xs \<union> live = blocks p; set xs \<inter> live = {}\<rbrakk> \<Longrightarrow>
   pool_ok p live"
  by (auto simp: pool_ok_def free_chain_def)

text \<open>What \<open>malloc\<close> guarantees when it does not fail: memory outside the chunks it returned before.\<close>

definition malloc_ok :: "(nat \<Rightarrow> addr) \<Rightarrow> pool \<Rightarrow> bool" where
  "malloc_ok malloc p \<longleftrightarrow> malloc (chunk_bytes p) \<noteq> 0 \<and>
     (\<forall>c \<in> set (mp_chunks p). apart (chunk_bytes p) c (malloc (chunk_bytes p)))"

lemma pool_ok_new:
  assumes "block_size * max 1 n + 16 * max 1 n < 2 ^ 64"
  shows "pool_ok (new_MemoryPool block_size n) {}"
proof -
  have "(block_size + 15) div 16 * 16 * m \<le> block_size * m + 16 * m" for m :: nat
  proof -
    have "(block_size + 15) div 16 * 16 \<le> block_size + 16" by simp
    then have "(block_size + 15) div 16 * 16 * m \<le> (block_size + 16) * m" by (rule mult_le_mono1)
    then show ?thesis by (simp add: algebra_simps)
  qed
  from this [of "max 1 n"] assms have "(block_size + 15) div 16 * 16 * max 1 n < 2 ^ 64" by linarith
  moreover have "8 * max 1 n < 2 ^ 64" using assms by simp
  moreover have "8 \<le> (block_size + 15) div 16 * 16" if "8 \<le> block_size" using that by simp
  ultimately show ?thesis
    by (auto simp: pool_ok_def pool_shape_def free_chain_def new_MemoryPool_def sizeof_Block_def alignof_max_align_def chunk_bytes_def
        blocks_def max_def add.commute [of 15] intro: exI [of _ "[]"] split: if_splits)
qed

lemma blocks_nonzero:
  assumes "pool_ok p live" "a \<in> blocks p"
  shows "a \<noteq> 0"
proof
  assume "a = 0"
  with assms show False by (auto simp: pool_ok_def pool_shape_def blocks_def)
qed

lemma chunk_apart_block:
  assumes "i < n" shows "i * bs + bs \<le> bs * (n :: nat)"
proof -
  have "Suc i * bs \<le> n * bs" using assms by (intro mult_le_mono1) simp
  then show ?thesis by (simp add: algebra_simps)
qed

lemma sorted_wrt_apart:
  "\<lbrakk>sorted_wrt (apart k) cs; c \<in> set cs; c' \<in> set cs; c \<noteq> c'\<rbrakk> \<Longrightarrow> apart k c c'"
  by (induction cs) (auto simp: apart_def)

lemma blocks_apart:
  assumes "pool_ok p live" "a \<in> blocks p" "b \<in> blocks p" "a \<noteq> b"
  shows "apart (mp_block_size p) a b"
proof -
  let ?bs = "mp_block_size p" and ?n = "mp_blocks_per_chunk p"
  obtain c i where a: "a = c + i * ?bs" "c \<in> set (mp_chunks p)" "i < ?n" using assms(2) by (auto simp: blocks_def)
  obtain d j where b: "b = d + j * ?bs" "d \<in> set (mp_chunks p)" "j < ?n" using assms(3) by (auto simp: blocks_def)
  note ends = chunk_apart_block [OF a(3), of ?bs] chunk_apart_block [OF b(3), of ?bs]
  show ?thesis
  proof (cases "c = d")
    case True
    with a b assms(4) have "i < j \<or> j < i" by (metis linorder_neqE_nat)
    then have "i * ?bs + ?bs \<le> j * ?bs \<or> j * ?bs + ?bs \<le> i * ?bs"
      using chunk_apart_block [of i j ?bs] chunk_apart_block [of j i ?bs] by (auto simp: mult.commute)
    with True a b show ?thesis by (auto simp: apart_def)
  next
    case False
    have "apart (chunk_bytes p) c d"
      using sorted_wrt_apart [OF _ a(2) b(2) False] assms(1) by (simp add: pool_ok_def pool_shape_def)
    with ends a b show ?thesis by (auto simp: apart_def chunk_bytes_def)
  qed
qed

lemma live_subset: "pool_ok p live \<Longrightarrow> live \<subseteq> blocks p"
  by (auto simp: pool_ok_def free_chain_def)

lemma shape_simps [simp]:
  "pool_shape (p\<lparr>mp_free_list := f\<rparr>) = pool_shape p" "pool_shape (p\<lparr>mp_next := h\<rparr>) = pool_shape p"
  "blocks (p\<lparr>mp_free_list := f\<rparr>) = blocks p" "blocks (p\<lparr>mp_next := h\<rparr>) = blocks p"
  by (simp_all add: pool_shape_def chunk_bytes_def blocks_def)

lemma pool_ok_pop:
  assumes "pool_ok p live" "mp_free_list p \<noteq> 0"
  shows "fst (pop_block p) \<notin> live \<and> pool_ok (snd (pop_block p)) (insert (fst (pop_block p)) live)"
proof -
  from assms(1) obtain xs where xs: "pool_shape p" "chain (mp_next p) (mp_free_list p) xs" "distinct xs"
    "set xs \<union> live = blocks p" "set xs \<inter> live = {}" by (rule pool_okE)
  then obtain ys where ys: "xs = mp_free_list p # ys" using assms(2) by (cases xs) auto
  have "pool_ok (snd (pop_block p)) (insert (fst (pop_block p)) live)"
    by (rule pool_okI [where xs = ys]) (use xs ys in \<open>auto simp: pop_block_def\<close>)
  then show ?thesis using xs(5) ys by (auto simp: pop_block_def)
qed

lemma pool_ok_grow:
  assumes "pool_ok p live" "malloc_ok malloc p"
  shows "\<exists>p'. grow malloc p = Some p' \<and> pool_ok p' live \<and> mp_free_list p' \<noteq> 0 \<and>
    mp_total_blocks p' = mp_total_blocks p + mp_blocks_per_chunk p"
proof -
  let ?bs = "mp_block_size p" and ?n = "mp_blocks_per_chunk p"
  let ?c = "malloc (chunk_bytes p)"
  from assms(1) obtain xs where xs: "pool_shape p" "chain (mp_next p) (mp_free_list p) xs" "distinct xs"
    "set xs \<union> live = blocks p" "set xs \<inter> live = {}" by (rule pool_okE)
  have bs: "0 < ?bs" "0 < ?n" "chunk_bytes p < 2 ^ 64" and c: "?c \<noteq> 0"
    using xs(1) assms(2) by (auto simp: pool_shape_def malloc_ok_def sizeof_Block_def)
  have fresh: "?c + i * ?bs \<notin> blocks p" if "i < ?n" for i
  proof
    assume "?c + i * ?bs \<in> blocks p"
    then obtain d j where d: "d \<in> set (mp_chunks p)" "j < ?n" "?c + i * ?bs = d + j * ?bs" by (auto simp: blocks_def)
    have "apart (chunk_bytes p) d ?c" using assms(2) d(1) by (simp add: malloc_ok_def)
    with d(3) chunk_apart_block [OF that, of ?bs] chunk_apart_block [OF d(2), of ?bs] bs(1)
    show False by (auto simp: apart_def chunk_bytes_def)
  qed
  obtain nxt free where g: "grow_loop ?c ?bs ?n (mp_next p, mp_free_list p) = (nxt, free)" by fastforce
  let ?p = "p\<lparr>mp_chunks := mp_chunks p @ [?c], mp_total_blocks := mp_total_blocks p + ?n, mp_next := nxt, mp_free_list := free\<rparr>"
  have grow: "grow malloc p = Some ?p" using bs(3) c g by (simp add: grow_def Let_def chunk_bytes_def)
  have ch: "chain nxt free (carve ?c ?bs ?n @ xs)"
    using grow_loop_chain [OF xs(2) bs(1) c, of ?n] fresh xs(4) g by auto
  have bl: "blocks ?p = set (carve ?c ?bs ?n) \<union> blocks p" by (auto simp: blocks_def set_carve)
  have dis: "set (carve ?c ?bs ?n) \<inter> blocks p = {}" using fresh by (auto simp: set_carve)
  have "pool_shape ?p"
    using xs(1) assms(2) c by (simp add: pool_shape_def chunk_bytes_def sorted_wrt_append malloc_ok_def)
  moreover have "distinct (carve ?c ?bs ?n @ xs)" using distinct_carve [OF bs(1)] xs(3,4) dis by auto
  moreover have "set (carve ?c ?bs ?n @ xs) \<union> live = blocks ?p" using xs(4) bl by auto
  moreover have "set (carve ?c ?bs ?n @ xs) \<inter> live = {}" using xs(4,5) dis by auto
  ultimately have "pool_ok ?p live" using ch by (intro pool_okI [of ?p "carve ?c ?bs ?n @ xs"]) simp_all
  moreover have "free \<noteq> 0" using ch bs(2) c by (cases "carve ?c ?bs ?n") (auto simp: carve_def)
  ultimately show ?thesis using grow by simp
qed

lemma pool_ok_allocate:
  assumes "pool_ok p live" "mp_free_list p = 0 \<longrightarrow> malloc_ok malloc p"
  shows "\<exists>a p'. allocate malloc p = Some (a, p') \<and> a \<notin> live \<and> pool_ok p' (insert a live) \<and> a \<in> blocks p'"
proof (cases "mp_free_list p = 0")
  case True
  then obtain q where q: "grow malloc p = Some q" "pool_ok q live" "mp_free_list q \<noteq> 0"
    using pool_ok_grow [OF assms(1)] assms(2) by blast
  from pool_ok_pop [OF q(2,3)] show ?thesis
    using True q(1) live_subset [of "snd (pop_block q)"] by (cases "pop_block q") (auto simp: allocate_def)
next
  case False
  from pool_ok_pop [OF assms(1) False] show ?thesis
    using False live_subset [of "snd (pop_block p)"] by (cases "pop_block p") (auto simp: allocate_def)
qed

lemma pool_ok_deallocate:
  assumes "pool_ok p live" "a \<in> live"
  shows "pool_ok (deallocate a p) (live - {a})"
proof -
  from assms(1) obtain xs where xs: "pool_shape p" "chain (mp_next p) (mp_free_list p) xs" "distinct xs"
    "set xs \<union> live = blocks p" "set xs \<inter> live = {}" by (rule pool_okE)
  have a: "a \<noteq> 0" "a \<notin> set xs" using blocks_nonzero [OF assms(1)] live_subset [OF assms(1)] assms(2) xs(5) by auto
  have "chain ((mp_next p)(a := mp_free_list p)) (mp_free_list p) xs" using xs(2) chain_frame [OF a(2)] by blast
  then show ?thesis
    using xs a assms(2) by (intro pool_okI [where xs = "a # xs"]) (auto simp: deallocate_def)
qed

text \<open>A client writes into a block it owns.\<close>

lemma pool_ok_client_write:
  assumes "pool_ok p live" "a \<in> live"
  shows "pool_ok (p\<lparr>mp_next := (mp_next p)(a := v)\<rparr>) live"
proof -
  from assms(1) obtain xs where xs: "pool_shape p" "chain (mp_next p) (mp_free_list p) xs" "distinct xs"
    "set xs \<union> live = blocks p" "set xs \<inter> live = {}" by (rule pool_okE)
  then have "chain ((mp_next p)(a := v)) (mp_free_list p) xs" using assms(2) chain_frame [of a xs] by blast
  then show ?thesis using xs by (intro pool_okI [where xs = xs]) simp_all
qed

section \<open>The interface of an allocator\<close>

text \<open>
  What a client of an allocator relies on. \<open>ok p live\<close> relates a state to the set of addresses
  in use; \<open>ready e p\<close> says that the environment can serve the request.
\<close>

datatype 'e alloc_op = Alloc 'e | Free nat

locale block_allocator =
  fixes alloc :: "'e \<Rightarrow> 'p \<Rightarrow> (addr \<times> 'p) option"
    and free :: "addr \<Rightarrow> 'p \<Rightarrow> 'p"
    and ok :: "'p \<Rightarrow> addr set \<Rightarrow> bool"
    and ready :: "'e \<Rightarrow> 'p \<Rightarrow> bool"
  assumes alloc_fresh: "\<lbrakk>ok p live; ready e p\<rbrakk> \<Longrightarrow> \<exists>a p'. alloc e p = Some (a, p') \<and> a \<notin> live \<and> ok p' (insert a live)"
    and free_ok: "\<lbrakk>ok p live; a \<in> live\<rbrakk> \<Longrightarrow> ok (free a p) (live - {a})"
begin

text \<open>
  A run: \<open>Free k\<close> gives back the \<open>k\<close>-th block the client holds. A request the environment cannot
  serve ends the run.
\<close>

fun client :: "'e alloc_op list \<Rightarrow> addr list \<Rightarrow> 'p \<Rightarrow> (addr list \<times> 'p) option" where
  "client [] held p = Some (held, p)"
| "client (Alloc e # ops) held p =
     (if ready e p then case alloc e p of None \<Rightarrow> None | Some (a, p') \<Rightarrow> client ops (held @ [a]) p' else Some (held, p))"
| "client (Free k # ops) held p =
     (if k < length held then client ops (take k held @ drop (Suc k) held) (free (held ! k) p) else Some (held, p))"

lemma remove_nth:
  assumes "k < length xs" "distinct xs"
  shows "distinct (take k xs @ drop (Suc k) xs)" "set (take k xs @ drop (Suc k) xs) = set xs - {xs ! k}"
proof -
  have xs: "xs = take k xs @ xs ! k # drop (Suc k) xs" using assms(1) by (rule id_take_nth_drop)
  have "distinct (take k xs @ xs ! k # drop (Suc k) xs)" using assms(2) xs by metis
  moreover have "set xs = set (take k xs @ xs ! k # drop (Suc k) xs)" using xs by metis
  ultimately show "distinct (take k xs @ drop (Suc k) xs)" "set (take k xs @ drop (Suc k) xs) = set xs - {xs ! k}"
    by auto
qed

lemma client_holds_distinct:
  "\<lbrakk>ok p (set held); distinct held\<rbrakk> \<Longrightarrow> \<exists>held' p'. client ops held p = Some (held', p') \<and> distinct held' \<and> ok p' (set held')"
proof (induction ops held p rule: client.induct)
  case (2 e ops held p)
  show ?case
  proof (cases "ready e p")
    case True
    then obtain a p' where "alloc e p = Some (a, p')" "a \<notin> set held" "ok p' (insert a (set held))"
      using alloc_fresh [OF "2.prems"(1)] by blast
    with "2.IH" [OF True] "2.prems"(2) True show ?thesis by simp
  qed (use 2 in simp)
next
  case (3 k ops held p)
  show ?case
  proof (cases "k < length held")
    case True
    note r = remove_nth [OF True "3.prems"(2)]
    have "ok (free (held ! k) p) (set (take k held @ drop (Suc k) held))"
      unfolding r(2) by (rule free_ok [OF "3.prems"(1)]) (use True in simp)
    with "3.IH" [OF True _ r(1)] True show ?thesis by simp
  qed (use 3 in simp)
qed simp

end

definition pool_ready :: "(nat \<Rightarrow> addr) \<Rightarrow> pool \<Rightarrow> bool" where
  "pool_ready malloc p \<longleftrightarrow> (mp_free_list p = 0 \<longrightarrow> malloc_ok malloc p)"

interpretation mp: block_allocator allocate deallocate pool_ok pool_ready
proof unfold_locales
  fix p live malloc assume "pool_ok p live" "pool_ready malloc p"
  from pool_ok_allocate [OF this [unfolded pool_ready_def]]
  show "\<exists>a p'. allocate malloc p = Some (a, p') \<and> a \<notin> live \<and> pool_ok p' (insert a live)" by auto
qed (rule pool_ok_deallocate)

section \<open>Properties\<close>

text \<open>
  \<open>allocate\<close> returns a block that is not in use and that overlaps no block in use, keeps the
  invariant, and fails only by \<open>bad_alloc\<close> when the free list is empty and \<open>malloc\<close> fails.
\<close>

theorem allocate_fresh:
  assumes "pool_ok p live" "mp_free_list p = 0 \<longrightarrow> malloc_ok malloc p"
  shows "\<exists>a p'. allocate malloc p = Some (a, p') \<and> a \<noteq> 0 \<and> a \<notin> live \<and> pool_ok p' (insert a live) \<and>
    (\<forall>b \<in> live. apart (mp_block_size p') a b)"
proof -
  obtain a p' where a: "allocate malloc p = Some (a, p')" "a \<notin> live" "pool_ok p' (insert a live)" "a \<in> blocks p'"
    using pool_ok_allocate [OF assms] by blast
  have "apart (mp_block_size p') a b" if "b \<in> live" for b
    using that a(2) live_subset [OF a(3)] by (intro blocks_apart [OF a(3,4)]) auto
  with a blocks_nonzero [OF a(3,4)] show ?thesis by blast
qed

definition two_blocks :: pool where
  "two_blocks = new_MemoryPool 32 2"

theorem allocate_fresh_witness:
  "\<exists>a p'. allocate (\<lambda>_. 4096) two_blocks = Some (a, p') \<and> a \<noteq> 0 \<and> a \<notin> {} \<and> pool_ok p' (insert a {}) \<and>
    (\<forall>b \<in> {}. apart (mp_block_size p') a b)"
  by (rule allocate_fresh)
    (simp_all add: two_blocks_def pool_ok_new malloc_ok_def, simp_all add: new_MemoryPool_def)

text \<open>
  C23: no block is handed out twice. Over any sequence of allocations and returns the addresses a
  client holds are pairwise different, and the pool stays consistent with them.
\<close>

theorem held_blocks_distinct:
  assumes "block_size * max 1 n + 16 * max 1 n < 2 ^ 64"
  shows "\<exists>held p. mp.client ops [] (new_MemoryPool block_size n) = Some (held, p) \<and> distinct held \<and> pool_ok p (set held)"
  by (rule mp.client_holds_distinct) (simp_all add: pool_ok_new [OF assms])

theorem held_blocks_distinct_witness:
  "\<exists>held p. mp.client [Alloc (\<lambda>_. 4096), Alloc (\<lambda>_. 0), Free 0, Alloc (\<lambda>_. 0)] [] (new_MemoryPool 32 2) = Some (held, p) \<and>
    distinct held \<and> pool_ok p (set held)"
  by (rule held_blocks_distinct) simp

text \<open>
  Blocks are reused last in, first out, without asking for memory: after \<open>deallocate a\<close> the
  next \<open>allocate\<close> returns \<open>a\<close> and the pool has the free list it had before, whatever \<open>malloc\<close> does.
\<close>

theorem dealloc_alloc:
  assumes "pool_ok p live" "a \<in> live"
  shows "\<exists>p'. allocate malloc (deallocate a p) = Some (a, p') \<and> mp_free_list p' = mp_free_list p \<and>
    chunks p' = chunks p \<and> totalBlocks p' = totalBlocks p \<and> pool_ok p' live"
proof -
  have a: "a \<noteq> 0" using blocks_nonzero [OF assms(1)] live_subset [OF assms(1)] assms(2) by blast
  let ?q = "deallocate a p"
  have q: "mp_free_list ?q = a" "mp_next ?q a = mp_free_list p" using a by (simp_all add: deallocate_def)
  have "pool_ok (snd (pop_block ?q)) (insert a (live - {a}))"
    using pool_ok_pop [OF pool_ok_deallocate [OF assms]] q a by (simp add: pop_block_def)
  then show ?thesis
    using q a assms(2) by (simp add: allocate_def pop_block_def insert_absorb) (simp add: deallocate_def chunks_def totalBlocks_def)
qed

lemma one_held: "pool_ok (snd (the (allocate (\<lambda>_. 4096) two_blocks))) {fst (the (allocate (\<lambda>_. 4096) two_blocks))}"
proof -
  have "pool_ok two_blocks {}" "malloc_ok (\<lambda>_. 4096) two_blocks"
    by (simp add: two_blocks_def pool_ok_new) (simp add: two_blocks_def new_MemoryPool_def malloc_ok_def)
  from pool_ok_allocate [of two_blocks "{}" "\<lambda>_. 4096"] this show ?thesis by auto
qed

theorem dealloc_alloc_witness:
  "\<exists>p'. allocate (\<lambda>_. 0) (deallocate (fst (the (allocate (\<lambda>_. 4096) two_blocks))) (snd (the (allocate (\<lambda>_. 4096) two_blocks)))) =
      Some (fst (the (allocate (\<lambda>_. 4096) two_blocks)), p') \<and>
    mp_free_list p' = mp_free_list (snd (the (allocate (\<lambda>_. 4096) two_blocks))) \<and>
    chunks p' = chunks (snd (the (allocate (\<lambda>_. 4096) two_blocks))) \<and>
    totalBlocks p' = totalBlocks (snd (the (allocate (\<lambda>_. 4096) two_blocks))) \<and>
    pool_ok p' {fst (the (allocate (\<lambda>_. 4096) two_blocks))}"
  by (rule dealloc_alloc [OF one_held]) simp

text \<open>
  The block size. It always holds a link, is at least what was asked for, and is a multiple of
  the maximal alignment exactly when at least the size of a pointer was asked for: smaller
  requests get blocks of eight bytes, which are not aligned as the header promises.
\<close>

theorem block_size_alignment:
  "sizeof_Block \<le> blockSize (new_MemoryPool b n) \<and> b \<le> blockSize (new_MemoryPool b n) \<and>
   (alignof_max_align dvd blockSize (new_MemoryPool b n) \<longleftrightarrow> sizeof_Block \<le> b)"
proof -
  have "b \<le> (b + 15) div 16 * 16" by simp
  moreover have "8 \<le> b \<longrightarrow> 8 \<le> (b + 15) div 16 * 16" by linarith
  ultimately show ?thesis
    by (simp add: blockSize_def new_MemoryPool_def sizeof_Block_def alignof_max_align_def add.commute [of 15])
qed

end
