(* ===== verification/ConnMemory.thy ===== *)
theory ConnMemory
  imports HttpServer_Correct MemoryPool
begin

text \<open>
  The memory of the connection objects of \<open>src/TcpServer.cc\<close>: \<open>addConnection\<close> takes a block from the \<open>MemoryPool\<close>,
  and the deleter of the \<open>shared_ptr\<close> runs the destructor and gives the block back when the last reference goes
  away. References are the table and the tasks in the queues of the loops; inside a handler there are also local
  ones (the argument of a callback, the vector of expired connections, the vector of tasks that a loop is
  running), which end with the handler. The handlers that create objects hold on to those they drop until they
  end, so a step is a handler, the allocations of the objects it created, and the deleters of those that nothing
  refers to any more. \<open>loops\<close> are all loops of the program. The answers of \<open>malloc\<close> are arguments; an allocation
  that fails ends the program (\<open>std::bad_alloc\<close> is not caught) and is no step.
\<close>

section \<open>State and operations\<close>

record conn_mem =
  cm_pool :: pool
  cm_addr :: "(u64, addr) umap"

definition new_conn_mem :: "nat \<Rightarrow> conn_mem" where
  "new_conn_mem sizeof_Conn = \<lparr>cm_pool = new_MemoryPool sizeof_Conn 512, cm_addr = []\<rparr>"

definition alloc_conn :: "(nat \<Rightarrow> addr) \<Rightarrow> u64 \<Rightarrow> conn_mem \<Rightarrow> conn_mem option" where
  "alloc_conn malloc i m =
     (case allocate malloc (cm_pool m) of
        None \<Rightarrow> None
      | Some (a, p) \<Rightarrow> Some (m\<lparr>cm_pool := p, cm_addr := um_put i a (cm_addr m)\<rparr>))"

text \<open>
  The deleter of the \<open>shared_ptr\<close>: the destructor of the object, of which \<open>~Channel\<close> takes the channel out of its
  poller, and the return of the block.
\<close>

definition delete_conn :: "u64 \<Rightarrow> tcp \<times> conn_mem \<Rightarrow> tcp \<times> conn_mem" where
  "delete_conn i x =
     (case um_find (cm_addr (snd x)) i of
        None \<Rightarrow> x
      | Some a \<Rightarrow>
          (chan_op disableAll i (fst x),
           (snd x)\<lparr>cm_pool := deallocate a (cm_pool (snd x)), cm_addr := um_erase i (cm_addr (snd x))\<rparr>))"

fun alloc_conns :: "(nat \<Rightarrow> addr) list \<Rightarrow> u64 list \<Rightarrow> conn_mem \<Rightarrow> conn_mem option" where
  "alloc_conns ms [] m = Some m"
| "alloc_conns [] (i # js) m = None"
| "alloc_conns (malloc # ms) (i # js) m = (case alloc_conn malloc i m of None \<Rightarrow> None | Some m \<Rightarrow> alloc_conns ms js m)"

text \<open>The objects that a handler created, and those that nothing refers to after it.\<close>

definition new_ids :: "tcp \<Rightarrow> tcp \<Rightarrow> u64 list" where
  "new_ids s s' = filter (\<lambda>i. um_find (ts_store s) i = None) (map fst (ts_store s'))"

definition delete_dead :: "nat list \<Rightarrow> tcp \<times> conn_mem \<Rightarrow> tcp \<times> conn_mem" where
  "delete_dead loops x = fold delete_conn (filter (\<lambda>i. \<not> lock loops i (fst x)) (map fst (cm_addr (snd x)))) x"

text \<open>What \<open>malloc\<close> promises: it fails, or the memory is outside the chunks it returned before.\<close>

definition malloc_honest :: "(nat \<Rightarrow> addr) \<Rightarrow> pool \<Rightarrow> bool" where
  "malloc_honest malloc p \<longleftrightarrow> malloc (chunk_bytes p) = 0 \<or> malloc_ok malloc p"

fun mallocs_honest :: "(nat \<Rightarrow> addr) list \<Rightarrow> u64 list \<Rightarrow> conn_mem \<Rightarrow> bool" where
  "mallocs_honest (malloc # ms) (i # js) m \<longleftrightarrow> malloc_honest malloc (cm_pool m) \<and>
     (case alloc_conn malloc i m of None \<Rightarrow> True | Some m \<Rightarrow> mallocs_honest ms js m)"
| "mallocs_honest _ _ m \<longleftrightarrow> True"

inductive mem_step :: "'a on_message \<Rightarrow> nat list \<Rightarrow> (tcp \<times> 'a) \<times> conn_mem \<Rightarrow> (tcp \<times> 'a) \<times> conn_mem \<Rightarrow> bool" for om loops where
  handler: "\<lbrakk>tcp_step om w w'; \<forall>l. l \<notin> set loops \<longrightarrow> ts_tasks (fst w') l = [];
    mallocs_honest ms (new_ids (fst w) (fst w')) m; alloc_conns ms (new_ids (fst w) (fst w')) m = Some m1;
    delete_dead loops (fst w', m1) = (s, m2)\<rbrakk> \<Longrightarrow>
   mem_step om loops (w, m) ((s, snd w'), m2)"

inductive mem_reachable :: "'a on_message \<Rightarrow> nat list \<Rightarrow> nat loop_pool \<Rightarrow> int \<Rightarrow> 'a \<Rightarrow> nat \<Rightarrow> (tcp \<times> 'a) \<times> conn_mem \<Rightarrow> bool"
  for om loops lp idle a sizeof_Conn where
  start: "mem_reachable om loops lp idle a sizeof_Conn ((new_TcpServer lp idle, a), new_conn_mem sizeof_Conn)"
| step: "mem_reachable om loops lp idle a sizeof_Conn x \<Longrightarrow> mem_step om loops x y \<Longrightarrow> mem_reachable om loops lp idle a sizeof_Conn y"

section \<open>References\<close>

definition table_refs :: "tcp \<Rightarrow> u64 set" where
  "table_refs s = set (map snd (ts_conns s))"

definition task_refs :: "task list \<Rightarrow> u64 set" where
  "task_refs ts = {i. Some i \<in> task_conn ` set ts}"

definition held :: "tcp \<Rightarrow> u64 set" where
  "held s = table_refs s \<union> (\<Union>l. task_refs (ts_tasks s l))"

definition ids :: "tcp \<Rightarrow> u64 set" where
  "ids s = dom (um_find (ts_store s))"

text \<open>The objects whose channels are in a poller, and that a poller has only channels that are marked as registered.\<close>

definition polled :: "tcp \<Rightarrow> u64 set" where
  "polled s = (\<Union>l. ran (um_find (ts_pollers s l)))"

definition marked :: "tcp \<Rightarrow> nat \<Rightarrow> fd \<Rightarrow> u64 \<Rightarrow> bool" where
  "marked s l f i \<longleftrightarrow> (\<exists>c. um_find (ts_store s) i = Some c \<and> cn_owner c = l \<and> ch_fd (cn_channel c) = f \<and> ch_in_poller (cn_channel c))"

definition pollers_ok :: "tcp \<Rightarrow> bool" where
  "pollers_ok s \<longleftrightarrow> (\<forall>l f i. um_find (ts_pollers s l) f = Some i \<longrightarrow> marked s l f i)"

definition roots :: "tcp \<Rightarrow> u64 set" where
  "roots s = held s \<union> polled s"

text \<open>A change after which only old objects, those in \<open>I\<close> and newly created ones are referred to.\<close>

definition clings :: "u64 set \<Rightarrow> tcp \<Rightarrow> tcp \<Rightarrow> bool" where
  "clings I s s' \<longleftrightarrow> roots s' \<subseteq> roots s \<union> I \<union> (ids s' - ids s) \<and> ids s \<subseteq> ids s' \<and> (pollers_ok s \<longrightarrow> pollers_ok s')"

lemma clings_refl [simp]: "clings I s s"
  by (auto simp: clings_def)

lemma clings_trans [trans]: "clings I s s1 \<Longrightarrow> clings I s1 s2 \<Longrightarrow> clings I s s2"
  unfolding clings_def by blast

lemma clings_mono: "clings I s s' \<Longrightarrow> I \<subseteq> J \<Longrightarrow> clings J s s'"
  unfolding clings_def by blast

lemma clings_absorb: "clings J s s' \<Longrightarrow> J \<subseteq> held s \<union> I \<Longrightarrow> clings I s s'"
  unfolding clings_def roots_def by blast

text \<open>Changes of other fields.\<close>

lemma clings_refs:
  assumes "ts_pollers s' = ts_pollers s" "ts_store s' = ts_store s" "held s' \<subseteq> held s \<union> I"
  shows "clings I s s'"
proof -
  have "polled s' = polled s" "ids s' = ids s" "pollers_ok s' = pollers_ok s"
    using assms(1,2) by (simp_all add: polled_def ids_def pollers_ok_def marked_def)
  then show ?thesis using assms(3) by (auto simp: clings_def roots_def)
qed

lemma clings_same:
  assumes "ts_conns s' = ts_conns s" "ts_tasks s' = ts_tasks s" "ts_pollers s' = ts_pollers s" "ts_store s' = ts_store s"
  shows "clings I s s'"
  using assms by (intro clings_refs) (auto simp: held_def table_refs_def)

text \<open>Changes of an object.\<close>

lemma clings_upd:
  assumes "\<And>c. um_find (ts_store s) i = Some c \<Longrightarrow> cn_owner (f c) = cn_owner c \<and> ch_fd (cn_channel (f c)) = ch_fd (cn_channel c) \<and>
    ch_in_poller (cn_channel (f c)) = ch_in_poller (cn_channel c)"
  shows "clings I s (upd_conn i f s)"
proof -
  have "marked (upd_conn i f s) = marked s"
    using assms by (auto simp: fun_eq_iff marked_def upd_conn_def update_conv' split: option.split)
  moreover have "ids (upd_conn i f s) = ids s" by (auto simp: ids_def upd_conn_def update_conv' split: option.split)
  ultimately show ?thesis by (simp add: clings_def roots_def held_def table_refs_def polled_def pollers_ok_def)
qed

text \<open>What the operations of the channel of object \<open>i\<close> may do to its poller.\<close>

definition tidy :: "u64 \<Rightarrow> (tcp_cb channel \<times> u64 poller \<Rightarrow> tcp_cb channel \<times> u64 poller) \<Rightarrow> bool" where
  "tidy i f \<longleftrightarrow> (\<forall>ch po ch' po'. f (ch, po) = (ch', po') \<longrightarrow> ch_fd ch' = ch_fd ch \<and>
     (po' = po \<and> ch_in_poller ch' = ch_in_poller ch \<or> ch_in_poller ch' \<and> po' = um_put (ch_fd ch) i po \<or> po' = um_erase (ch_fd ch) po))"

lemma tidy_update:
  assumes "\<And>ch. ch_fd (g ch) = ch_fd ch \<and> ch_in_poller (g ch) = ch_in_poller ch"
  shows "tidy i (\<lambda>cp. updateChannel ctl i (g (fst cp), snd cp))"
  unfolding tidy_def
proof (intro allI impI)
  fix ch po ch' po' assume u: "updateChannel ctl i (g (fst (ch, po)), snd (ch, po)) = (ch', po')"
  with updateChannel_cases [of ctl i "(g ch, po)"] show "ch_fd ch' = ch_fd ch \<and>
     (po' = po \<and> ch_in_poller ch' = ch_in_poller ch \<or> ch_in_poller ch' \<and> po' = um_put (ch_fd ch) i po \<or> po' = um_erase (ch_fd ch) po)"
    using assms [of ch] by (auto simp: register_def)
qed

lemma tidy_ops: "tidy i (enableReading ctl i)" "tidy i (enableWriting ctl i)" "tidy i (disableWriting ctl i)" "tidy i disableAll"
  unfolding enableReading_def enableWriting_def disableWriting_def
  by (intro tidy_update; simp)+ (auto simp: tidy_def disableAll_def removeChannel_def Let_def split: if_splits option.splits)

lemma chan_op_eq:
  assumes "um_find (ts_store s) i = Some c" "f (cn_channel c, ts_pollers s (cn_owner c)) = (ch, po)"
  shows "chan_op f i s = s\<lparr>ts_store := um_put i (c\<lparr>cn_channel := ch\<rparr>) (ts_store s), ts_pollers := (ts_pollers s)(cn_owner c := po)\<rparr>"
  using assms by (simp add: chan_op_def)

lemma tidy_entry:
  assumes "tidy i f" "um_find (ts_pollers (chan_op f i s) l) g = Some j"
  shows "j = i \<or> um_find (ts_pollers s l) g = Some j"
proof (cases "um_find (ts_store s) i")
  case (Some c)
  obtain ch po where f: "f (cn_channel c, ts_pollers s (cn_owner c)) = (ch, po)" by fastforce
  show ?thesis
    using assms(2) assms(1) [unfolded tidy_def, rule_format, OF f] unfolding chan_op_eq [of s i c f, OF Some f]
    by (auto simp: update_conv' delete_conv' split: if_splits)
qed (use assms(2) in \<open>simp add: chan_op_def\<close>)

lemma tidy_pollers_ok:
  assumes "tidy i f" "pollers_ok s"
  shows "pollers_ok (chan_op f i s)"
proof (cases "um_find (ts_store s) i")
  case (Some c)
  obtain ch po where f: "f (cn_channel c, ts_pollers s (cn_owner c)) = (ch, po)" by fastforce
  note t = assms(1) [unfolded tidy_def, rule_format, OF f]
  show ?thesis
    using assms(2) t Some unfolding chan_op_eq [of s i c f, OF Some f] pollers_ok_def marked_def
    by (fastforce simp: update_conv' delete_conv' split: if_splits)
qed (use assms(2) in \<open>simp add: chan_op_def\<close>)

lemma ids_chan [simp]: "ids (chan_op f i s) = ids s"
  by (auto simp: ids_def chan_op_def update_conv' split: option.split prod.split)

lemma held_chan [simp]: "held (chan_op f i s) = held s"
  by (simp add: held_def table_refs_def)

lemma clings_chan:
  assumes "tidy i f" "i \<in> I"
  shows "clings I s (chan_op f i s)"
proof -
  have "polled (chan_op f i s) \<subseteq> insert i (polled s)" unfolding polled_def ran_def using tidy_entry [OF assms(1), of s] by blast
  then show ?thesis using tidy_pollers_ok [OF assms(1), of s] assms(2) by (auto simp: clings_def roots_def)
qed

text \<open>Taking a channel out of its poller.\<close>

lemma disable_entry:
  assumes "um_find (ts_pollers (chan_op disableAll i s) l) g = Some j"
  shows "um_find (ts_pollers s l) g = Some j"
  using assms
  by (auto simp: chan_op_def disableAll_def removeChannel_def Let_def delete_conv' split: option.splits if_splits prod.splits)

lemma disable_gone:
  assumes "pollers_ok s" "um_find (ts_pollers (chan_op disableAll i s) l) g = Some j"
  shows "j \<noteq> i"
proof
  assume "j = i"
  with disable_entry [OF assms(2)] have e: "um_find (ts_pollers s l) g = Some i" by simp
  with assms(1) obtain c where
    "um_find (ts_store s) i = Some c" "cn_owner c = l" "ch_fd (cn_channel c) = g" "ch_in_poller (cn_channel c)"
    unfolding pollers_ok_def marked_def by blast
  with e assms(2) show False
    by (simp add: chan_op_def disableAll_def removeChannel_def Let_def delete_conv')
qed

lemma polled_disable: "pollers_ok s \<Longrightarrow> polled (chan_op disableAll i s) \<subseteq> polled s - {i}" "polled (chan_op disableAll i s) \<subseteq> polled s"
  unfolding polled_def ran_def using disable_entry [of i s] disable_gone [of s i] by blast+

lemma clings_disable: "clings I s (chan_op disableAll i s)"
  using polled_disable(2) [of i s] tidy_pollers_ok [OF tidy_ops(4), of s i] by (auto simp: clings_def roots_def)

section \<open>The handlers of a connection\<close>

lemma clings_erase: "clings I s (s\<lparr>ts_conns := um_erase f (ts_conns s)\<rparr>)"
  by (rule clings_refs) (auto simp: held_def table_refs_def AList.delete_eq)

lemma clings_close: "clings I (fst w) (fst (closeConnInLoop e i w))"
proof (cases "um_find (ts_store (fst w)) i")
  case (Some c)
  let ?s = "(fst w)\<lparr>ts_conns := um_erase (cn_fd c) (ts_conns (fst w))\<rparr>"
  have "clings I (chan_op disableAll i ?s) (log_effect (Closed (cn_fd c)) (chan_op disableAll i ?s))" by (rule clings_same) simp_all
  from clings_trans [OF clings_erase clings_trans [OF clings_disable this]] Some show ?thesis
    by (simp add: closeConnInLoop_def Let_def)
qed (simp add: closeConnInLoop_def)

lemma clings_pop: "pop_send s = (x, s') \<Longrightarrow> clings I s s'"
  by (rule clings_same) (auto simp: pop_send_def split: list.splits)

lemma clings_writing:
  assumes "tidy i f" "i \<in> I"
  shows "clings I s (chan_op f i (upd_conn i (\<lambda>c. c\<lparr>cn_writing := b\<rparr>) s))"
  by (rule clings_trans [OF clings_upd clings_chan [OF assms]]) simp

lemma clings_flush_run: "v = flushWrite e i w \<Longrightarrow> i \<in> I \<Longrightarrow> clings I (fst w) (fst v)"
proof (induction w v rule: flushWrite_rule)
  case (again s a c s')
  then show ?case
    using clings_pop [OF again(3)] clings_trans [OF clings_pop [OF again(3)] clings_writing [OF tidy_ops(2)]] by simp
next
  case (retry s a c s' v)
  with clings_trans [OF clings_pop [OF retry(2)]] show ?case by simp
next
  case (failed s a c x s')
  with clings_trans [OF clings_pop [OF failed(3)] clings_close [of I "(s', a)" e i, simplified]] show ?case by simp
next
  case (more s a c n s' v)
  have "clings I s' (after_send n c i s')"
    by (rule clings_trans [OF clings_upd clings_same]) simp_all
  from clings_trans [OF clings_pop [OF more(3)] clings_trans [OF this]] more(5,6) show ?case by simp
qed (simp_all add: clings_writing tidy_ops)

lemmas clings_flush = clings_flush_run [OF refl]

lemma clings_append:
  assumes "i \<in> I"
  shows "clings I (fst w) (fst (appendAndFlush e i d w))"
proof -
  let ?s = "upd_conn i (\<lambda>c. c\<lparr>cn_last_active_ms := env_now e, cn_out := cn_out c @ d\<rparr>) (fst w)"
  have s: "clings I (fst w) ?s" by (rule clings_upd) simp
  from clings_trans [OF s clings_flush [where w = "(?s, snd w)", unfolded fst_conv, OF assms]] s show ?thesis
    by (simp add: appendAndFlush_def Let_def split: option.split)
qed

lemma task_refs_simps [simp]: "task_refs [] = {}" "task_refs (ts @ us) = task_refs ts \<union> task_refs us"
  by (auto simp: task_refs_def)

lemma clings_queue:
  assumes "task_refs [t] \<subseteq> held s \<union> I"
  shows "clings I s (s\<lparr>ts_tasks := (ts_tasks s)(l := ts_tasks s l @ [t])\<rparr>)"
  using assms by (intro clings_refs) (auto simp: held_def table_refs_def split: if_splits)

lemma clings_run_in_loop:
  assumes "task_conn t = Some i" "i \<in> held (fst w) \<union> I"
  shows "clings I (fst w) (fst (run_in_loop e l t w))"
proof (cases "env_loop e = l")
  case True
  have "clings (insert i I) (fst w) (fst (exec_task e t w))"
    using assms(1) by (cases t) (auto simp: exec_task_def intro: clings_append clings_close)
  from clings_absorb [OF this] assms(2) True show ?thesis by (auto simp: run_in_loop_def)
next
  case False
  then show ?thesis using assms clings_queue [of t "fst w" I l] by (auto simp: run_in_loop_def task_refs_def)
qed

lemma table_held: "um_find (ts_conns s) f = Some i \<Longrightarrow> i \<in> held s"
  by (force simp: held_def table_refs_def dest: map_of_SomeD)

lemma clings_send: "clings I (fst w) (fst (send e f d w))"
  by (auto simp: send_def split: option.split intro!: clings_run_in_loop dest: table_held)

lemma clings_shutdown: "clings I (fst w) (fst (shutdown e f w))"
  by (auto simp: shutdown_def split: option.split intro!: clings_run_in_loop dest: table_held)

lemma clings_closeConn: "i \<in> held (fst w) \<union> I \<Longrightarrow> clings I (fst w) (fst (closeConn e i w))"
  by (auto simp: closeConn_def clings_close intro: clings_run_in_loop)

lemma clings_fold:
  assumes "\<And>x w. x \<in> set xs \<Longrightarrow> clings I (fst w) (fst (f x w))"
  shows "clings I (fst w) (fst (fold f xs w))"
  using assms
proof (induction xs arbitrary: w)
  case (Cons x xs)
  from clings_trans [OF Cons.prems [of x w] Cons.IH [of "f x w"]] Cons.prems show ?case by simp
qed simp

lemma clings_sweep: "clings {} (fst w) (fst (sweepIdle e w))"
proof -
  let ?I = "set (expired (env_now e) (fst w))"
  have "clings ?I (fst w) (fst (sweepIdle e w))"
    unfolding sweepIdle_def
  proof (simp, intro impI clings_fold, clarify)
    fix i and s :: tcp and a :: 'a assume i: "i \<in> ?I"
    let ?s = "s\<lparr>ts_closed_idle := ts_closed_idle s + 1\<rparr>"
    have "clings ?I s ?s" by (rule clings_same) simp_all
    with clings_closeConn [of i "(?s, a)" ?I e] i
    show "clings ?I (fst (s, a)) (fst (closeConn e i (?s, a)))" by (auto intro: clings_trans)
  qed
  moreover have "?I \<subseteq> held (fst w) \<union> {}" by (auto simp: expired_def held_def table_refs_def)
  ultimately show ?thesis by (rule clings_absorb)
qed

lemma snd_put: "b \<in> snd ` set (um_put k v m) \<Longrightarrow> b = v \<or> b \<in> snd ` set m"
  by (induction m) (auto split: if_splits)

lemma clings_add:
  assumes "i \<notin> ids (fst w)"
  shows "clings I (fst w) (fst (addConnection e f i l w))"
proof -
  let ?s = "fst w"
  define s1 where "s1 c = ?s\<lparr>ts_store := um_put i c (ts_store ?s)\<rparr>" for c
  have ids: "ids (s1 c) = insert i (ids ?s)" for c by (auto simp: s1_def ids_def update_conv' split: if_splits)
  have "marked ?s k g j \<Longrightarrow> marked (s1 c) k g j" for c k g j
    using assms by (auto simp: marked_def s1_def ids_def update_conv')
  then have one: "clings I ?s (s1 c)" for c
    using ids by (auto simp: clings_def roots_def held_def table_refs_def polled_def pollers_ok_def s1_def)
  have two: "clings (insert i I) (s1 c) (chan_op (enableReading (env_ctl e) i) i (s1 c))" for c by (rule clings_chan [OF tidy_ops(1)]) simp
  have three: "clings (insert i I) s (s\<lparr>ts_conns := um_put f i (ts_conns s), ts_conn_count := n\<rparr>)" for s n
    by (rule clings_refs) (auto simp: held_def table_refs_def dest!: snd_put [OF imageI [where f = snd]])
  have "clings (insert i I) ?s ((chan_op (enableReading (env_ctl e) i) i (s1 c))
      \<lparr>ts_conns := um_put f i (ts_conns (chan_op (enableReading (env_ctl e) i) i (s1 c))), ts_conn_count := n\<rparr>)" for c n
    by (rule clings_trans [OF clings_mono [OF one subset_insertI] clings_trans [OF two three]])
  moreover obtain c where c: "fst (addConnection e f i l w) = (chan_op (enableReading (env_ctl e) i) i (s1 c))
      \<lparr>ts_conns := um_put f i (ts_conns (chan_op (enableReading (env_ctl e) i) i (s1 c))),
       ts_conn_count := ts_conn_count (chan_op (enableReading (env_ctl e) i) i (s1 c)) + 1\<rparr>"
    by (simp add: addConnection_def Let_def s1_def)
  ultimately have "clings (insert i I) ?s (fst (addConnection e f i l w))" by simp
  moreover have "ids (s\<lparr>ts_conns := x, ts_conn_count := n\<rparr>) = ids s" for s x n by (simp add: ids_def)
  then have "ids (fst (addConnection e f i l w)) = insert i (ids ?s)" by (simp add: c ids)
  ultimately show ?thesis using assms by (auto simp: clings_def)
qed

section \<open>The message callback\<close>

text \<open>A message callback refers to no connection object but those it finds in the table.\<close>

locale ref_handler = message_handler +
  assumes om_refs: "clings {} (fst w) (fst (om e f i d w))"
begin

lemma refs_readable: "clings {} (fst w) (fst (handleReadable e om i rs w))"
proof (induction rs arbitrary: w)
  case (Cons r rs)
  show ?case
  proof (cases "um_find (ts_store (fst w)) i")
    case (Some c)
    obtain n saved buf where r: "readFd r (cn_in c) = (n, saved, buf)" by (cases "readFd r (cn_in c)")
    let ?s = "(upd_conn i (\<lambda>c. c\<lparr>cn_in := buf, cn_last_active_ms := env_now e,
        cn_recv_bytes := cn_recv_bytes c + of_int n\<rparr>) (fst w))"
    let ?s1 = "?s\<lparr>ts_recv_bytes := ts_recv_bytes ?s + of_int n\<rparr>"
    let ?w = "om e (cn_fd c) (cn_id c) (peek_string buf (nat n)) (?s1, snd w)"
    let ?s2 = "upd_conn i (\<lambda>c. c\<lparr>cn_in := retrieve (nat n) (cn_in c)\<rparr>) (fst ?w)"
    let ?v = "handleReadable e om i rs (?s2, snd ?w)"
    have c1: "clings {} (fst w) ?s1" by (rule clings_trans [OF clings_upd clings_same]) simp_all
    have c2: "clings {} ?s1 (fst ?w)" using om_refs [of "(?s1, snd w)"] by (simp only: fst_conv)
    have c3: "clings {} ?s2 (fst ?v)" using Cons.IH [of "(?s2, snd ?w)"] by (simp only: fst_conv)
    have "clings {} (fst w) (fst ?v)" by (rule clings_trans [OF clings_trans [OF c1 c2] clings_trans [OF clings_upd c3]]) simp
    moreover have "clings {} (fst w) (fst (closeConnInLoop e i (upd_conn i (\<lambda>c. c\<lparr>cn_in := buf\<rparr>) (fst w), snd w)))"
      by (rule clings_trans [OF clings_upd clings_close [where w = "(_, snd w)", unfolded fst_conv]]) simp
    ultimately show ?thesis using Cons.IH [of w] clings_close [of "{}" w e i] Some r by (simp add: Let_def)
  qed simp
qed simp

lemma refs_run_cb: "clings {} (fst w) (fst (run_cb e om loops rs cb w))"
proof -
  have "i \<in> held (fst w)" if "lock loops i (fst w)" for i
    using that by (fastforce simp: lock_def held_def table_refs_def task_refs_def)
  then show ?thesis
    using clings_absorb [OF clings_flush [OF insertI1], of _ "{}" w "{}" e]
    by (cases cb) (simp_all add: run_cb_def refs_readable clings_closeConn)
qed

lemma refs_event: "clings {} (fst w) (fst (conn_event e om loops i ev rs w))"
proof (cases "um_find (ts_store (fst w)) i")
  case (Some c)
  obtain cbs ch where h: "handleEvent ev (cn_channel c) = (cbs, ch)" by fastforce
  let ?s = "upd_conn i (\<lambda>c. c\<lparr>cn_channel := ch\<rparr>) (fst w)"
  have "clings {} ?s (fst (fold (run_cb e om loops rs) cbs (?s, snd w)))"
    using clings_fold [where w = "(?s, snd w)" and f = "run_cb e om loops rs", OF refs_run_cb] by simp
  moreover have "clings {} (fst w) ?s" using h by (intro clings_upd) (auto simp: handleEvent_def Let_def Some)
  ultimately show ?thesis using Some h clings_trans [of "{}" "fst w" ?s] by (simp add: conn_event_def)
qed (simp add: conn_event_def)

end

interpretation http_refs: ref_handler "onMessage handler" for handler
  by unfold_locales (rule onMessage_calls, blast intro: clings_trans, simp_all add: clings_send clings_shutdown)

section \<open>Tasks and steps\<close>

lemma clings_exec:
  assumes "good (t # ts) (fst w)" "task_refs [t] \<subseteq> I"
  shows "clings I (fst w) (fst (exec_task e t w))"
proof (cases t)
  case (AddConn f i l)
  with assms(1) have "i \<notin> ids (fst w)" by (auto simp: good_def ids_ok_def fresh_id_def ids_def)
  with AddConn show ?thesis by (simp add: exec_task_def clings_add)
next
  case (AppendFlush i d)
  with assms(2) have "i \<in> I" by (simp add: task_refs_def)
  with AppendFlush show ?thesis by (simp add: exec_task_def clings_append)
qed (simp add: exec_task_def clings_close)

lemma clings_run_tasks:
  assumes "good [] (fst w)"
  shows "clings {} (fst w) (fst (run_tasks e w))"
proof -
  let ?ts = "ts_tasks (fst w) (env_loop e)"
  let ?s = "(fst w)\<lparr>ts_tasks := (ts_tasks (fst w))(env_loop e := [])\<rparr>"
  have "good ?ts ?s"
    using assms by (auto simp: good_def tables_ok_def table_ok_def settled_def quiet_def ids_ok_def fresh_id_def)
  moreover have "good us (fst v) \<Longrightarrow> task_refs us \<subseteq> I \<Longrightarrow> clings I (fst v) (fst (fold (exec_task e) us v))" for us I and v :: "tcp \<times> 'a"
  proof (induction us arbitrary: v)
    case (Cons u us)
    have "task_refs [u] \<subseteq> I" "task_refs us \<subseteq> I" using Cons.prems(2) by (auto simp: task_refs_def)
    with clings_trans [OF clings_exec [OF Cons.prems(1)] Cons.IH [OF good_exec [OF Cons.prems(1)]]] show ?case by simp
  qed simp
  from this [of ?ts "(?s, snd w)"] calculation have "clings (task_refs ?ts) ?s (fst (run_tasks e w))"
    by (simp add: run_tasks_def Let_def)
  moreover have "roots ?s \<union> task_refs ?ts = roots (fst w)"
    by (auto simp: roots_def held_def table_refs_def polled_def split: if_splits)
  moreover have "ids ?s = ids (fst w)" "pollers_ok ?s = pollers_ok (fst w)" by (simp_all add: ids_def pollers_ok_def marked_def)
  ultimately show ?thesis unfolding clings_def by simp
qed

lemma clings_accept:
  "good [] (fst w) \<Longrightarrow> unat (ts_next_conn_id (fst w)) + length as < 2 ^ 64 \<Longrightarrow> clings {} (fst w) (fst (handleAccept e as w))"
proof (induction e as w rule: handleAccept.induct)
  case (2 e er as w)
  then show ?case by simp
next
  case (3 e f as w)
  let ?i = "ts_next_conn_id (fst w)"
  obtain l lp where n: "nextLoop (ts_pool (fst w)) = (l, lp)" by fastforce
  let ?s = "(fst w)\<lparr>ts_pool := lp, ts_next_conn_id := ?i + 1\<rparr>"
  let ?w = "run_in_loop e l (AddConn f ?i l) (?s, snd w)"
  have g: "good [AddConn f ?i l] ?s" using "3.prems" by (intro good_next_id) auto
  have g1: "good [] (fst ?w)" "ts_next_conn_id (fst ?w) = ?i + 1"
    using good_add [where w = "(?s, snd w)", unfolded fst_conv, OF g] good_queue_add [OF g]
    by (simp_all add: run_in_loop_def exec_task_def addConnection_def Let_def)
  have "unat (?i + 1) = unat ?i + 1" using unat_plus_1 [OF unat_not_minus_1 [of ?i]] "3.prems"(2) by simp
  with "3.IH" [OF n [symmetric] refl refl refl] "3.prems" g1
  have rest: "clings {} (fst ?w) (fst (handleAccept e as ?w))" by simp
  have "clings {} (fst w) ?s" by (rule clings_same) (simp_all add: ids_def)
  moreover have "clings {} ?s (fst ?w)"
    using clings_exec [of "AddConn f ?i l" "[]" "(?s, snd w)" "{}" e] g
      clings_queue [of "AddConn f ?i l" ?s "{}" l] by (simp add: run_in_loop_def task_refs_def)
  ultimately show ?case using clings_trans [OF clings_trans rest] by (simp add: n Let_def)
qed simp

lemma clings_step:
  assumes "ref_handler om" "tcp_step om w w'" "good [] (fst w)"
  shows "clings {} (fst w) (fst w')"
  using assms(2)
proof cases
  case (accept as e)
  with assms(3) show ?thesis by (simp add: clings_accept)
next
  case (event e loops i ev rs)
  then show ?thesis by (simp add: ref_handler.refs_event [OF assms(1)])
next
  case (tasks e)
  with assms(3) show ?thesis by (simp add: clings_run_tasks)
next
  case (kernel s a xs)
  then show ?thesis by (auto intro: clings_same)
qed (simp_all add: clings_sweep clings_send clings_shutdown)

section \<open>The memory of the objects\<close>

text \<open>
  The table of blocks describes the pool: one block per object in \<open>H\<close>, no block for two objects, and the pool knows
  exactly these blocks as handed out.
\<close>

definition mem_ok :: "u64 set \<Rightarrow> conn_mem \<Rightarrow> bool" where
  "mem_ok H m \<longleftrightarrow> um_ok (cm_addr m) \<and> distinct (map snd (cm_addr m)) \<and> set (map fst (cm_addr m)) = H \<and>
     pool_ok (cm_pool m) (set (map snd (cm_addr m)))"

lemma put_new: "k \<notin> set (map fst m) \<Longrightarrow> um_put k v m = m @ [(k, v)]"
  by (induction m) auto

lemma allocate_honest:
  assumes "pool_ok p live" "malloc_honest malloc p" "allocate malloc p = Some r"
  shows "pool_ready malloc p"
proof -
  have "chunk_bytes p < 2 ^ 64" using assms(1) by (simp add: pool_ok_def pool_shape_def)
  then have "malloc (chunk_bytes p) \<noteq> 0" if "mp_free_list p = 0"
    using assms(3) that by (auto simp: allocate_def grow_def Let_def chunk_bytes_def split: if_splits)
  with assms(2) show ?thesis by (auto simp: pool_ready_def malloc_honest_def)
qed

lemma mem_ok_alloc:
  assumes "mem_ok H m" "i \<notin> H" "malloc_honest malloc (cm_pool m)" "alloc_conn malloc i m = Some m'"
  shows "mem_ok (insert i H) m'"
proof -
  from assms(4) obtain a p where a: "allocate malloc (cm_pool m) = Some (a, p)"
    and m': "m' = m\<lparr>cm_pool := p, cm_addr := um_put i a (cm_addr m)\<rparr>"
    by (auto simp: alloc_conn_def split: option.splits)
  have ok: "pool_ok (cm_pool m) (set (map snd (cm_addr m)))" using assms(1) by (simp add: mem_ok_def)
  from mp.alloc_fresh [OF ok allocate_honest [OF ok assms(3) a]] a
  have "a \<notin> set (map snd (cm_addr m))" "pool_ok p (insert a (set (map snd (cm_addr m))))" by auto
  then show ?thesis using assms(1,2) put_new [of i "cm_addr m" a] by (auto simp: mem_ok_def m')
qed

lemma mem_ok_alloc_conns:
  "\<lbrakk>mem_ok H m; distinct js; set js \<inter> H = {}; mallocs_honest ms js m; alloc_conns ms js m = Some m'\<rbrakk> \<Longrightarrow>
   mem_ok (H \<union> set js) m'"
proof (induction ms js m arbitrary: H rule: alloc_conns.induct)
  case (3 malloc ms i js m)
  from "3.prems"(5) obtain m1 where m1: "alloc_conn malloc i m = Some m1" "alloc_conns ms js m1 = Some m'"
    by (auto split: option.splits)
  have "mem_ok (insert i H) m1" using "3.prems" m1 by (intro mem_ok_alloc [OF "3.prems"(1) _ _ m1(1)]) auto
  with "3.IH" [OF m1(1), of "insert i H"] "3.prems" m1 show ?case by auto
qed auto

lemma set_erase_block:
  assumes "um_ok m" "distinct (map snd m)" "um_find m i = Some a"
  shows "set (map snd (um_erase i m)) = set (map snd m) - {a}"
proof -
  have a: "(i, a) \<in> set m" using assms(3) by (rule map_of_SomeD)
  have "b = a" if "(i, b) \<in> set m" for b
    using map_of_is_SomeI [OF assms(1) that] assms(3) by simp
  then have "set (um_erase i m) = set m - {(i, a)}" by (auto simp: AList.delete_eq)
  then show ?thesis
    using inj_on_image_set_diff [of snd "set m" "set m" "{(i, a)}"] assms(2) a by (simp add: distinct_map)
qed

lemma mem_ok_delete:
  assumes "mem_ok H m" "i \<in> H"
  shows "mem_ok (H - {i}) (snd (delete_conn i (s, m)))" "fst (delete_conn i (s, m)) = chan_op disableAll i s"
proof -
  from assms have "i \<in> set (map fst (cm_addr m))" by (simp add: mem_ok_def)
  then obtain a where a: "um_find (cm_addr m) i = Some a" by (metis map_of_eq_None_iff not_None_eq set_map)
  then have "a \<in> set (map snd (cm_addr m))" by (force dest: map_of_SomeD)
  moreover have m: "um_ok (cm_addr m)" "distinct (map snd (cm_addr m))" "set (map fst (cm_addr m)) = H"
    "pool_ok (cm_pool m) (set (map snd (cm_addr m)))" using assms(1) by (simp_all add: mem_ok_def)
  ultimately have "pool_ok (deallocate a (cm_pool m)) (set (map snd (cm_addr m)) - {a})" by (intro mp.free_ok)
  moreover have "distinct (map snd (um_erase i (cm_addr m)))" using m(2) by (simp add: AList.delete_eq distinct_map_filter)
  ultimately show "mem_ok (H - {i}) (snd (delete_conn i (s, m)))"
    using set_erase_block [OF m(1,2) a] m(1,3) a
    by (simp add: mem_ok_def delete_conn_def delete_keys distinct_removeAll)
  show "fst (delete_conn i (s, m)) = chan_op disableAll i s" using a by (simp add: delete_conn_def)
qed

lemma mem_ok_deletes:
  "\<lbrakk>mem_ok H m; distinct js; set js \<subseteq> H\<rbrakk> \<Longrightarrow>
   mem_ok (H - set js) (snd (fold delete_conn js (s, m))) \<and> fst (fold delete_conn js (s, m)) = fold (chan_op disableAll) js s"
proof (induction js arbitrary: H s m)
  case (Cons j js)
  obtain s1 m1 where d: "delete_conn j (s, m) = (s1, m1)" by fastforce
  have "mem_ok (H - {j}) m1" "s1 = chan_op disableAll j s" using mem_ok_delete [of H m j s] Cons.prems d by simp_all
  moreover have "H - {j} - set js = H - set (j # js)" by auto
  ultimately show ?case using Cons.IH [of "H - {j}" m1 s1] Cons.prems d by auto
qed simp

text \<open>What the destructors do to the server: nothing but taking the channels out of the pollers.\<close>

lemma destructors:
  "good [] s \<Longrightarrow> pollers_ok s \<Longrightarrow>
   (let s' = fold (chan_op disableAll) js s
    in good [] s' \<and> pollers_ok s' \<and> held s' = held s \<and> ids s' = ids s \<and> (\<forall>i. lock loops i s' = lock loops i s) \<and>
       polled s' \<subseteq> polled s - set js)"
proof (induction js arbitrary: s)
  case (Cons j js)
  let ?s = "chan_op disableAll j s"
  have "good [] ?s" by (rule good_keeps [OF keeps_chan Cons.prems(1)])
  moreover have "pollers_ok ?s" by (rule tidy_pollers_ok [OF tidy_ops(4) Cons.prems(2)])
  moreover have "held ?s = held s" "ids ?s = ids s" "\<And>i. lock loops i ?s = lock loops i s"
    by (simp_all add: held_def table_refs_def lock_def)
  moreover have "polled ?s \<subseteq> polled s - {j}"
    by (rule polled_disable(1) [OF Cons.prems(2)])
  ultimately show ?case using Cons.IH [of ?s] by (auto simp: Let_def)
qed simp

lemma mem_ok_new:
  assumes "sizeof_Conn * 512 + 8192 < 2 ^ 64"
  shows "mem_ok {} (new_conn_mem sizeof_Conn)"
  using pool_ok_new [of sizeof_Conn 512] assms by (simp add: mem_ok_def new_conn_mem_def)

lemma new_ids_new:
  assumes "table_ok s'"
  shows "distinct (new_ids s s')" "set (new_ids s s') = ids s' - ids s"
  using assms by (auto simp: new_ids_def table_ok_def ids_def dom_map_of_conv_image_fst map_of_eq_None_iff)

text \<open>The invariant: blocks belong to the objects something refers to, these exist, and no poller has another one.\<close>

definition mem_inv :: "tcp \<Rightarrow> conn_mem \<Rightarrow> bool" where
  "mem_inv s m \<longleftrightarrow> good [] s \<and> mem_ok (held s) m \<and> held s \<subseteq> ids s \<and> pollers_ok s \<and> polled s \<subseteq> held s"

lemma mem_inv_step:
  assumes om: "ref_handler om" and step: "mem_step om loops (w, m) (v, m')" and inv: "mem_inv (fst w) m"
  shows "mem_inv (fst v) m' \<and> (\<forall>i. lock loops i (fst v) \<longleftrightarrow> i \<in> held (fst v))"
proof -
  from step obtain w' ms m1 where st: "tcp_step om w w'" and q: "\<forall>l. l \<notin> set loops \<longrightarrow> ts_tasks (fst w') l = []"
    and al: "mallocs_honest ms (new_ids (fst w) (fst w')) m" "alloc_conns ms (new_ids (fst w) (fst w')) m = Some m1"
    and d: "delete_dead loops (fst w', m1) = (fst v, m')" by (auto elim: mem_step.cases)
  let ?s = "fst w" and ?s' = "fst w'"
  let ?H = "held ?s \<union> (ids ?s' - ids ?s)"
  have g: "good [] ?s" "good [] ?s'" and old: "mem_ok (held ?s) m" "held ?s \<subseteq> ids ?s" "pollers_ok ?s" "polled ?s \<subseteq> held ?s"
    using inv good_step [OF ref_handler.axioms(1) [OF om] st] by (auto simp: mem_inv_def)
  have c: "held ?s' \<subseteq> ?H" "polled ?s' \<subseteq> ?H" "ids ?s \<subseteq> ids ?s'" "pollers_ok ?s'"
    using clings_step [OF om st g(1)] old(3,4) by (auto simp: clings_def roots_def)
  have lock: "lock loops i ?s' \<longleftrightarrow> i \<in> held ?s'" for i
    using q by (force simp: lock_def held_def table_refs_def task_refs_def)
  have "table_ok ?s'" using g(2) by (simp add: good_def tables_ok_def)
  note new = new_ids_new [OF this, of ?s]
  have m1: "mem_ok ?H m1" using mem_ok_alloc_conns [OF old(1) new(1) _ al] new(2) old(2) by auto
  let ?dead = "filter (\<lambda>i. \<not> lock loops i ?s') (map fst (cm_addr m1))"
  have dead: "distinct ?dead" "set ?dead = ?H - held ?s'" using m1 lock by (auto simp: mem_ok_def)
  have "mem_ok (?H - set ?dead) m' \<and> fst v = fold (chan_op disableAll) ?dead ?s'"
    using mem_ok_deletes [OF m1 dead(1), of ?s'] dead(2) d by (auto simp: delete_dead_def)
  moreover have "?H - set ?dead = held ?s'" using dead(2) c(1) by auto
  ultimately show ?thesis
    using destructors [OF g(2) c(4), of ?dead loops] c old(2) lock dead(2) by (auto simp: mem_inv_def Let_def)
qed

lemma mem_reachable_inv:
  assumes om: "ref_handler om" and size: "sizeof_Conn * 512 + 8192 < 2 ^ 64"
  shows "mem_reachable om loops lp idle a sizeof_Conn x \<Longrightarrow>
    mem_inv (fst (fst x)) (snd x) \<and> (\<forall>i. lock loops i (fst (fst x)) \<longleftrightarrow> i \<in> held (fst (fst x)))"
proof (induction rule: mem_reachable.induct)
  case start
  have "held (new_TcpServer lp idle) = {}" "polled (new_TcpServer lp idle) = {}" "pollers_ok (new_TcpServer lp idle)"
    by (simp_all add: held_def table_refs_def polled_def pollers_ok_def new_TcpServer_def)
  then show ?case using mem_ok_new [OF size] good_start [of lp idle] by (simp add: mem_inv_def lock_def new_TcpServer_def)
next
  case (step x y)
  then show ?case using mem_inv_step [OF om, of loops "fst x" "snd x" "fst y" "snd y"] by simp
qed

section \<open>Properties\<close>

text \<open>
  C8: memory of the connections. In every reachable state of the server, with whatever answers of \<open>malloc\<close>: a
  connection object has a block of the pool exactly when something still refers to it (the table, or a
  task that waits in a queue), so no object is used after its block was given back and no block leaks; no poller
  keeps the channel of an object whose block was given back; the blocks of different objects do not overlap; and
  the pool counts as handed out exactly these blocks.
\<close>

theorem conn_memory_safe:
  assumes "mem_reachable (onMessage handler) loops lp idle h sizeof_Conn ((s, h'), m)" "sizeof_Conn * 512 + 8192 < 2 ^ 64"
  shows "(\<forall>i. um_find (cm_addr m) i \<noteq> None \<longleftrightarrow> lock loops i s) \<and>
    (\<forall>l f i. um_find (ts_pollers s l) f = Some i \<longrightarrow> um_find (cm_addr m) i \<noteq> None) \<and>
    (\<forall>i j a b. um_find (cm_addr m) i = Some a \<longrightarrow> um_find (cm_addr m) j = Some b \<longrightarrow> i \<noteq> j \<longrightarrow>
       apart (blockSize (cm_pool m)) a b) \<and>
    pool_ok (cm_pool m) (set (map snd (cm_addr m)))"
proof (intro conjI allI impI)
  from mem_reachable_inv [OF http_refs.ref_handler_axioms assms(2,1)]
  have m: "mem_ok (held s) m" and lock: "\<And>i. lock loops i s \<longleftrightarrow> i \<in> held s" and p: "polled s \<subseteq> held s"
    by (simp_all add: mem_inv_def)
  then show ok: "pool_ok (cm_pool m) (set (map snd (cm_addr m)))" by (simp add: mem_ok_def)
  show "um_find (cm_addr m) i \<noteq> None \<longleftrightarrow> lock loops i s" for i
    using m by (auto simp: lock mem_ok_def map_of_eq_None_iff)
  show "um_find (cm_addr m) i \<noteq> None" if "um_find (ts_pollers s l) f = Some i" for l f i
    using m p that by (auto simp: mem_ok_def map_of_eq_None_iff polled_def ran_def)
  fix i j a b assume ij: "um_find (cm_addr m) i = Some a" "um_find (cm_addr m) j = Some b" "i \<noteq> j"
  then have ab: "(i, a) \<in> set (cm_addr m)" "(j, b) \<in> set (cm_addr m)" by (auto dest: map_of_SomeD)
  moreover have "inj_on snd (set (cm_addr m))" using m by (simp add: mem_ok_def distinct_map)
  ultimately have "a \<noteq> b" using ij(3) inj_onD [of snd "set (cm_addr m)" "(i, a)" "(j, b)"] by auto
  moreover have "a \<in> blocks (cm_pool m)" "b \<in> blocks (cm_pool m)" using live_subset [OF ok] ab by force+
  ultimately show "apart (blockSize (cm_pool m)) a b" using blocks_apart [OF ok] by (simp add: blockSize_def)
qed

definition first_conn :: "tcp \<times> nat http" where
  "first_conn = handleAccept http_env [Inr 7] (new_TcpServer (new_EventLoopThreadPool 0) 30, new_HttpServer 3)"

definition first_mem :: "tcp \<times> conn_mem" where
  "first_mem = delete_dead [0] (fst first_conn, the (alloc_conn (\<lambda>_. 4096) 1 (new_conn_mem 320)))"

lemma first_new: "new_ids (new_TcpServer (new_EventLoopThreadPool 0) 30) (fst first_conn) = [1]" "ts_tasks (fst first_conn) l = []"
  by (simp_all add: sample_defs first_conn_def http_env_def new_ids_def)

lemma first_reachable:
  "mem_reachable (onMessage None) [0] (new_EventLoopThreadPool 0) 30 (new_HttpServer 3) 320 ((fst first_mem, snd first_conn), snd first_mem)"
proof -
  let ?s = "new_TcpServer (new_EventLoopThreadPool 0) 30" and ?malloc = "\<lambda>_. 4096 :: addr"
  have new: "malloc_ok ?malloc (cm_pool (new_conn_mem 320))"
    by (simp add: malloc_ok_def new_conn_mem_def new_MemoryPool_def)
  then have "\<exists>m. alloc_conn ?malloc 1 (new_conn_mem 320) = Some m"
    using pool_ok_allocate [of "cm_pool (new_conn_mem 320)" "{}" ?malloc] mem_ok_new [of 320]
    by (auto simp: alloc_conn_def mem_ok_def)
  moreover have "tcp_step (onMessage None) (?s, new_HttpServer 3) first_conn"
    unfolding first_conn_def by (rule tcp_step.accept) (simp add: new_TcpServer_def)
  ultimately have "mem_step (onMessage None) [0] ((?s, new_HttpServer 3), new_conn_mem 320) ((fst first_mem, snd first_conn), snd first_mem)"
    using new mem_step.handler [where om = "onMessage None" and w = "(?s, new_HttpServer 3)" and w' = first_conn and loops = "[0]"
        and ms = "[?malloc]" and m = "new_conn_mem 320" and s = "fst first_mem" and ?m2.0 = "snd first_mem"]
    by (auto simp: first_new malloc_honest_def first_mem_def)
  from mem_reachable.step [OF mem_reachable.start this] show ?thesis by simp
qed

lemma first_table: "lock [0] 1 (fst first_mem)"
proof -
  have "ts_conns (fst (fold delete_conn js x)) = ts_conns (fst x)" for js x
    by (induction js arbitrary: x) (simp_all add: delete_conn_def split: option.split)
  then have "ts_conns (fst first_mem) = ts_conns (fst first_conn)" by (simp add: first_mem_def delete_dead_def)
  moreover have "1 \<in> set (map snd (ts_conns (fst first_conn)))" by (simp add: sample_defs first_conn_def http_env_def)
  ultimately show ?thesis by (simp add: lock_def)
qed

theorem conn_memory_safe_witness:
  "\<exists>a. um_find (cm_addr (snd first_mem)) 1 = Some a \<and> pool_ok (cm_pool (snd first_mem)) (set (map snd (cm_addr (snd first_mem)))) \<and>
    (\<forall>l f i. um_find (ts_pollers (fst first_mem) l) f = Some i \<longrightarrow> um_find (cm_addr (snd first_mem)) i \<noteq> None)"
  using conn_memory_safe [OF first_reachable] first_table by auto

end
