(* ===== verification/TcpServer_Reuse.thy ===== *)
theory TcpServer_Reuse
  imports TcpServer_Correct
begin

text \<open>
  Descriptors are reused by the kernel while tasks for their former connection may still wait in
  the queue of another loop: two reachable runs of the server in which such a task acts on the wrong
  connection.
\<close>

section \<open>Reused descriptors\<close>

text \<open>
  Two I/O loops. Connection 1 (descriptor 7) belongs to loop 1. Another thread queues a task for it
  there; before loop 1 comes to its queue it reads the end of the stream and closes the
  connection; the kernel gives descriptor 7 to the next client, connection 2, which loop 2 serves.
\<close>

definition two_loops :: "nat loop_pool" where
  "two_loops = pool_start (\<lambda>name. if name = ''io-0'' then 1 else 2) ''io'' (setThreadNum 2 (new_EventLoopThreadPool 0))"

definition first_client :: "tcp \<times> string list" where
  "first_client = run_tasks (sample_env 1 5) (handleAccept (sample_env 0 5) [Inr 7] (new_TcpServer two_loops 30, []))"

definition second_client :: "tcp \<times> string list \<Rightarrow> tcp \<times> string list" where
  "second_client w = run_tasks (sample_env 2 30005) (handleAccept (sample_env 0 30005) [Inr 7]
     (conn_event (sample_env 1 30005) record_message [1, 2] 1 EPOLLIN [\<lambda>iov. Inr []] w))"

lemma tcp_reachable_tasks: "tcp_reachable om lp idle a w \<Longrightarrow> tcp_reachable om lp idle a (run_tasks e w)"
  by (rule tcp_reachable.step [OF _ tcp_step.tasks])

lemma second_client_reachable:
  assumes "tcp_reachable record_message lp idle a w"
    "ts_next_conn_id (fst (conn_event (sample_env 1 30005) record_message [1, 2] 1 EPOLLIN [\<lambda>iov. Inr []] w)) = 2"
  shows "tcp_reachable record_message lp idle a (second_client w)"
  unfolding second_client_def using assms
  by (intro tcp_reachable_tasks tcp_reachable.step [OF tcp_reachable.step [OF assms(1) tcp_step.event] tcp_step.accept]) simp

lemma first_client_reachable: "tcp_reachable record_message two_loops 30 [] first_client"
  unfolding first_client_def
  by (intro tcp_reachable_tasks tcp_reachable.step [OF tcp_reachable.start tcp_step.accept]) (simp add: new_TcpServer_def)

definition stale_close :: "tcp \<times> string list" where
  "stale_close = second_client (sweepIdle (sample_env 0 30005) first_client)"

text \<open>
  C35: a late close hits the wrong connection. \<open>closeConnInLoop\<close> looks the table up by descriptor and
  does not compare the object: in a reachable state connection 2 is open, loop 1 runs its queue, in
  which only the idle sweep's close of connection 1 waits, and afterwards the entry of
  connection 2 is gone and its descriptor closed, while its channel is still in the poller of loop 2
  and the application has been told twice that connection 1 is gone and never that 2 is.
\<close>

theorem stale_close_hits_reused_fd:
  "tcp_reachable record_message two_loops 30 [] stale_close \<and>
   um_find (ts_conns (fst stale_close)) 7 = Some 2 \<and> ts_tasks (fst stale_close) 1 = [CloseTask 1] \<and>
   ts_conns (fst (run_tasks (sample_env 1 30006) stale_close)) = [] \<and>
   ts_log (fst (run_tasks (sample_env 1 30006) stale_close)) = [Closed 7, Closed 7] \<and>
   um_find (ts_pollers (fst (run_tasks (sample_env 1 30006) stale_close)) 2) 7 = Some 2"
proof (intro conjI)
  show "tcp_reachable record_message two_loops 30 [] stale_close"
    unfolding stale_close_def
    by (rule second_client_reachable [OF tcp_reachable.step [OF first_client_reachable tcp_step.sweep]]) code_simp
qed code_simp+

definition stale_send :: "tcp \<times> string list" where
  "stale_send = second_client (send (sample_env 0 30005) 7 ''secret'' first_client)"

text \<open>
  Late data reaches the wrong client. In the same way data that another thread sends to connection
  1 is written to the socket of connection 2 when loop 1 runs its queue.
\<close>

theorem stale_send_reaches_other_client:
  "tcp_reachable record_message two_loops 30 [] stale_send \<and>
   um_find (ts_conns (fst stale_send)) 7 = Some 2 \<and> ts_tasks (fst stale_send) 1 = [AppendFlush 1 ''secret''] \<and>
   ts_log (fst (run_tasks (sample_env 1 30006) ((fst stale_send)\<lparr>ts_sends := [Inr 6]\<rparr>, snd stale_send))) = [Closed 7, Sent 7 ''secret'']"
proof (intro conjI)
  show "tcp_reachable record_message two_loops 30 [] stale_send"
    unfolding stale_send_def
    by (rule second_client_reachable [OF tcp_reachable.step [OF first_client_reachable tcp_step.api_send]]) code_simp
qed code_simp+

end
