(* ===== verification/TimerWheel.thy ===== *)
theory TimerWheel
  imports Prelude
begin

text \<open>
  \<open>src/TimerWheel.cc\<close>: timers counted in ticks. Callbacks are values of a type \<open>'cb\<close> and
  \<open>run\<close> says what calling one does to the wheel and to the rest of the world \<open>'s\<close>, so a
  callback may itself add or cancel timers. \<open>int\<close> arithmetic is written out where it can go
  wrong: \<open>addTimer\<close> has no result when its division is undefined.
\<close>

section \<open>State and operations\<close>

record 'cb timer_entry =
  te_id :: u64
  te_remaining :: int
  te_cb :: 'cb

record 'cb timer_wheel =
  tw_tick_ms :: nat
  tw_wheel_size :: nat
  tw_next_id :: u64
  tw_entries :: "'cb timer_entry list"

definition new_TimerWheel :: "nat \<Rightarrow> nat \<Rightarrow> 'cb timer_wheel" where
  "new_TimerWheel tick_ms wheel_size =
     \<lparr>tw_tick_ms = (if tick_ms = 0 then 100 else tick_ms), tw_wheel_size = max wheel_size 1,
      tw_next_id = 1, tw_entries = []\<rparr>"

text \<open>\<open>static_cast<int>\<close> of a \<open>size_t\<close>.\<close>

definition to_int32 :: "nat \<Rightarrow> int" where
  "to_int32 n = (int n + 2 ^ 31) mod 2 ^ 32 - 2 ^ 31"

definition ticks_for :: "nat \<Rightarrow> int \<Rightarrow> int option" where
  "ticks_for tick_ms timeout_ms =
     (let d = to_int32 tick_ms in
      if d = 0 \<or> (d = -1 \<and> timeout_ms = - (2 ^ 31)) then None else Some (max 1 (timeout_ms sdiv d)))"

definition addTimer :: "int \<Rightarrow> 'cb \<Rightarrow> 'cb timer_wheel \<Rightarrow> (u64 \<times> 'cb timer_wheel) option" where
  "addTimer timeout_ms cb w =
     map_option (\<lambda>ticks.
       (tw_next_id w, w\<lparr>tw_next_id := tw_next_id w + 1,
          tw_entries := tw_entries w @ [\<lparr>te_id = tw_next_id w, te_remaining = ticks, te_cb = cb\<rparr>]\<rparr>))
       (ticks_for (tw_tick_ms w) timeout_ms)"

definition cancelTimer :: "u64 \<Rightarrow> 'cb timer_wheel \<Rightarrow> 'cb timer_wheel" where
  "cancelTimer i w = w\<lparr>tw_entries := filter (\<lambda>e. te_id e \<noteq> i) (tw_entries w)\<rparr>"

fun tick_loop :: "'cb timer_entry list \<Rightarrow> 'cb timer_entry list \<Rightarrow> 'cb timer_entry list \<Rightarrow>
    'cb timer_entry list \<times> 'cb timer_entry list" where
  "tick_loop [] fired keep = (fired, keep)"
| "tick_loop (e # es) fired keep =
     (let e = e\<lparr>te_remaining := te_remaining e - 1\<rparr> in
      if te_remaining e \<le> 0 then tick_loop es (fired @ [e]) keep
      else tick_loop es fired (keep @ [e]))"

definition tick :: "('cb \<Rightarrow> 'cb timer_wheel \<times> 's \<Rightarrow> 'cb timer_wheel \<times> 's) \<Rightarrow>
    'cb timer_wheel \<times> 's \<Rightarrow> 'cb timer_wheel \<times> 's" where
  "tick run ws =
     (let (fired, keep) = tick_loop (tw_entries (fst ws)) [] []
      in fold (\<lambda>e. run (te_cb e)) fired ((fst ws)\<lparr>tw_entries := keep\<rparr>, snd ws))"

section \<open>Lemmas\<close>

definition fired_now :: "'cb timer_wheel \<Rightarrow> 'cb timer_entry list" where
  "fired_now w = fst (tick_loop (tw_entries w) [] [])"

lemma tick_loop_filter:
  "tick_loop es fired keep =
    (fired @ map (te_remaining_update (\<lambda>r. r - 1)) (filter (\<lambda>e. te_remaining e \<le> 1) es),
     keep @ map (te_remaining_update (\<lambda>r. r - 1)) (filter (\<lambda>e. te_remaining e > 1) es))"
  by (induction es fired keep rule: tick_loop.induct) (auto simp: Let_def)

definition wheel_ok :: "'cb timer_wheel \<Rightarrow> bool" where
  "wheel_ok w \<longleftrightarrow> distinct (map te_id (tw_entries w)) \<and>
     (\<forall>e \<in> set (tw_entries w). te_id e < tw_next_id w \<and> 1 \<le> te_remaining e)"

lemma wheel_ok_new: "wheel_ok (new_TimerWheel t n)"
  by (simp add: wheel_ok_def new_TimerWheel_def)

lemma wheel_ok_cancel: "wheel_ok w \<Longrightarrow> wheel_ok (cancelTimer i w)"
  by (auto simp: wheel_ok_def cancelTimer_def distinct_map intro: inj_on_subset)

lemma wheel_ok_add:
  assumes "wheel_ok w" "tw_next_id w \<noteq> -1" "addTimer t cb w = Some (i, w')"
  shows "wheel_ok w'"
proof -
  have "x < tw_next_id w + 1" if "x < tw_next_id w" for x
    using that plus_1_gt [OF assms(2)] by (rule less_trans)
  moreover have "ticks_for a b = Some c \<Longrightarrow> 1 \<le> c" for a b c
    by (auto simp: ticks_for_def Let_def split: if_splits)
  moreover have "tw_next_id w \<notin> set (map te_id (tw_entries w))"
    using assms(1) by (auto simp: wheel_ok_def)
  ultimately show ?thesis
    using assms plus_1_gt [OF assms(2)] by (auto simp: wheel_ok_def addTimer_def simp del: set_map)
qed

text \<open>What the callbacks of a run may do: add timers, with new ids.\<close>

definition only_adds :: "'cb timer_wheel \<Rightarrow> 'cb timer_wheel \<Rightarrow> bool" where
  "only_adds w w' \<longleftrightarrow> wheel_ok w' \<and> tw_next_id w \<le> tw_next_id w' \<and>
     (\<exists>new. tw_entries w' = tw_entries w @ new \<and> (\<forall>x \<in> set new. tw_next_id w \<le> te_id x))"

lemma only_adds_refl: "wheel_ok w \<Longrightarrow> only_adds w w"
  by (simp add: only_adds_def)

lemma only_adds_trans: "\<lbrakk>only_adds w w'; only_adds w' w''\<rbrakk> \<Longrightarrow> only_adds w w''"
  unfolding only_adds_def by (fastforce intro: order_trans)

lemma only_adds_addTimer:
  assumes "wheel_ok w" "tw_next_id w \<noteq> -1" "addTimer t cb w = Some (i, w')"
  shows "only_adds w w'"
  using wheel_ok_add [OF assms] plus_1_gt [OF assms(2)] assms(3)
  by (auto simp: only_adds_def addTimer_def)

definition callbacks_add :: "('cb \<Rightarrow> 'cb timer_wheel \<times> 's \<Rightarrow> 'cb timer_wheel \<times> 's) \<Rightarrow> bool" where
  "callbacks_add run \<longleftrightarrow> (\<forall>cb w s. wheel_ok w \<longrightarrow> only_adds w (fst (run cb (w, s))))"

lemma fold_only_adds:
  "\<lbrakk>callbacks_add run; wheel_ok (fst ws)\<rbrakk> \<Longrightarrow>
   only_adds (fst ws) (fst (fold (\<lambda>e. run (te_cb e)) es ws))"
proof (induction es arbitrary: ws)
  case Nil
  then show ?case by (simp add: only_adds_refl)
next
  case (Cons e es)
  have step: "only_adds (fst ws) (fst (run (te_cb e) ws))"
    using Cons.prems unfolding callbacks_add_def by (metis prod.collapse)
  then have "wheel_ok (fst (run (te_cb e) ws))" by (simp add: only_adds_def)
  from only_adds_trans [OF step Cons.IH [OF Cons.prems(1) this]] show ?case by simp
qed

text \<open>One tick on the entries: the survivors count down, then the callbacks add theirs.\<close>

lemma tick_entries:
  assumes "callbacks_add run" "wheel_ok (fst ws)"
  shows "wheel_ok (fst (tick run ws)) \<and> tw_next_id (fst ws) \<le> tw_next_id (fst (tick run ws)) \<and>
    (\<exists>new. tw_entries (fst (tick run ws)) =
       map (te_remaining_update (\<lambda>r. r - 1)) (filter (\<lambda>e. te_remaining e > 1) (tw_entries (fst ws))) @ new \<and>
       (\<forall>x \<in> set new. tw_next_id (fst ws) \<le> te_id x))"
proof -
  let ?keep = "map (te_remaining_update (\<lambda>r. r - 1)) (filter (\<lambda>e. te_remaining e > 1) (tw_entries (fst ws)))"
  let ?w = "(fst ws)\<lparr>tw_entries := ?keep\<rparr>"
  have "wheel_ok ?w"
    using assms(2) by (auto simp: wheel_ok_def comp_def distinct_map intro: inj_on_subset)
  with fold_only_adds [OF assms(1), where ws = "(?w, snd ws)" and es = "fired_now (fst ws)"]
  have "only_adds ?w (fst (tick run ws))"
    by (simp add: tick_def fired_now_def tick_loop_filter)
  then show ?thesis by (auto simp: only_adds_def)
qed

definition ticks :: "('cb \<Rightarrow> 'cb timer_wheel \<times> 's \<Rightarrow> 'cb timer_wheel \<times> 's) \<Rightarrow> nat \<Rightarrow>
    'cb timer_wheel \<times> 's \<Rightarrow> 'cb timer_wheel \<times> 's" where
  "ticks run n = tick run ^^ n"

text \<open>
  The entries after \<open>k\<close> ticks: the timers that had more than \<open>k\<close> ticks left, counted down and in their order, and
  after them those that callbacks added.
\<close>

definition after_ticks :: "nat \<Rightarrow> 'cb timer_wheel \<Rightarrow> 'cb timer_entry list" where
  "after_ticks k w = map (te_remaining_update (\<lambda>r. r - int k)) (filter (\<lambda>e. te_remaining e > int k) (tw_entries w))"

lemma after_ticks_Suc:
  "map (te_remaining_update (\<lambda>r. r - 1)) (filter (\<lambda>e. te_remaining e > 1) (after_ticks k w)) = after_ticks (Suc k) w"
proof -
  have "map (te_remaining_update (\<lambda>r. r - 1)) (filter (\<lambda>e. te_remaining e > 1)
      (map (te_remaining_update (\<lambda>r. r - int k)) (filter (\<lambda>e. te_remaining e > int k) es))) =
    map (te_remaining_update (\<lambda>r. r - int (Suc k))) (filter (\<lambda>e. te_remaining e > int (Suc k)) es)" for es :: "'a timer_entry list"
    by (induction es) (auto simp: algebra_simps)
  then show ?thesis by (simp add: after_ticks_def)
qed

lemma ticks_entries:
  assumes "callbacks_add run" "wheel_ok (fst ws)"
  shows "wheel_ok (fst (ticks run k ws)) \<and> tw_next_id (fst ws) \<le> tw_next_id (fst (ticks run k ws)) \<and>
    (\<exists>new. tw_entries (fst (ticks run k ws)) = after_ticks k (fst ws) @ new \<and> (\<forall>x \<in> set new. tw_next_id (fst ws) \<le> te_id x))"
proof (induction k)
  case 0
  have "filter (\<lambda>e. 0 < te_remaining e) (tw_entries (fst ws)) = tw_entries (fst ws)"
    using assms(2) by (fastforce simp: wheel_ok_def filter_id_conv)
  moreover have "map (te_remaining_update (\<lambda>r. r)) es = es" for es :: "'a timer_entry list" by (induction es) simp_all
  ultimately show ?case using assms(2) by (simp add: ticks_def after_ticks_def)
next
  case (Suc k)
  let ?v = "ticks run k ws" and ?dec = "te_remaining_update (\<lambda>r. r - 1)"
  from Suc obtain new where ok: "wheel_ok (fst ?v)" "tw_next_id (fst ws) \<le> tw_next_id (fst ?v)"
    and v: "tw_entries (fst ?v) = after_ticks k (fst ws) @ new" "\<forall>x \<in> set new. tw_next_id (fst ws) \<le> te_id x" by blast
  from tick_entries [OF assms(1) ok(1)] obtain new' where t: "wheel_ok (fst (tick run ?v))" "tw_next_id (fst ?v) \<le> tw_next_id (fst (tick run ?v))"
    "tw_entries (fst (tick run ?v)) = map ?dec (filter (\<lambda>e. te_remaining e > 1) (tw_entries (fst ?v))) @ new'"
    "\<forall>x \<in> set new'. tw_next_id (fst ?v) \<le> te_id x" by blast
  have "\<exists>new. tw_entries (fst (tick run ?v)) = after_ticks (Suc k) (fst ws) @ new \<and> (\<forall>x \<in> set new. tw_next_id (fst ws) \<le> te_id x)"
    using t(4) v(2) order_trans [OF ok(2)]
    by (intro exI [of _ "map ?dec (filter (\<lambda>e. te_remaining e > 1) new) @ new'"]) (auto simp: t(3) v(1) after_ticks_Suc)
  then show ?case using t(1,2) ok(2) by (simp add: ticks_def)
qed

text \<open>The same callbacks, with a list of the calls made so far beside the rest of the world.\<close>

definition watched :: "('cb \<Rightarrow> 'cb timer_wheel \<times> 's \<Rightarrow> 'cb timer_wheel \<times> 's) \<Rightarrow>
    'cb \<Rightarrow> 'cb timer_wheel \<times> ('s \<times> 'cb list) \<Rightarrow> 'cb timer_wheel \<times> ('s \<times> 'cb list)" where
  "watched run cb ws =
     (case run cb (fst ws, fst (snd ws)) of (w, s) \<Rightarrow> (w, (s, snd (snd ws) @ [cb])))"

abbreviation calls :: "'cb timer_wheel \<times> ('s \<times> 'cb list) \<Rightarrow> 'cb list" where
  "calls ws \<equiv> snd (snd ws)"

lemma watched_adds: "callbacks_add run \<Longrightarrow> callbacks_add (watched run)"
  by (auto simp: callbacks_add_def watched_def split: prod.split) (metis fst_conv)

lemma tick_calls: "calls (tick (watched run) ws) = calls ws @ map te_cb (fired_now (fst ws))"
proof -
  have "calls (fold (\<lambda>e. watched run (te_cb e)) es ws) = calls ws @ map te_cb es" for es :: "'a timer_entry list" and ws
    by (induction es arbitrary: ws) (simp_all add: watched_def split: prod.split)
  then show ?thesis by (simp add: tick_def fired_now_def split: prod.split)
qed

section \<open>Properties\<close>


text \<open>A cancelled timer is gone: after \<open>cancelTimer id\<close> no tick leaves an entry of that id.\<close>

lemma cancelled_never_fires:
  assumes "callbacks_add run" "wheel_ok w" "i < tw_next_id w"
  shows "i \<notin> te_id ` set (tw_entries (fst (ticks run k (cancelTimer i w, s))))"
proof -
  obtain new where "tw_entries (fst (ticks run k (cancelTimer i w, s))) = after_ticks k (cancelTimer i w) @ new"
    "\<forall>x \<in> set new. tw_next_id w \<le> te_id x"
    using ticks_entries [OF assms(1), of "(cancelTimer i w, s)" k] wheel_ok_cancel [OF assms(2), of i] by (auto simp: cancelTimer_def)
  with assms(3) show ?thesis by (auto simp: after_ticks_def cancelTimer_def)
qed

text \<open>
  What \<open>addTimer\<close> promises, for a tick length that an \<open>int\<close> can hold: a new id, one new
  entry, and a number of ticks that rounds the timeout down, so that the timer is due before the
  timeout by less than one tick (and after one tick at the earliest).
\<close>

theorem addTimer_ticks:
  assumes "0 < tw_tick_ms w" "int (tw_tick_ms w) < 2 ^ 31" "0 \<le> timeout_ms"
  shows "\<exists>n. addTimer timeout_ms cb w =
      Some (tw_next_id w, w\<lparr>tw_next_id := tw_next_id w + 1,
        tw_entries := tw_entries w @ [\<lparr>te_id = tw_next_id w, te_remaining = n, te_cb = cb\<rparr>]\<rparr>) \<and>
    1 \<le> n \<and> n * int (tw_tick_ms w) \<le> max timeout_ms (int (tw_tick_ms w)) \<and> timeout_ms < (n + 1) * int (tw_tick_ms w)"
proof -
  let ?t = "int (tw_tick_ms w)"
  have d: "to_int32 (tw_tick_ms w) = ?t" using assms(1,2) by (simp add: to_int32_def mod_pos_pos_trivial)
  have q: "timeout_ms sdiv ?t = timeout_ms div ?t"
    using assms(1,3) by (auto simp: signed_divide_int_def sgn_if)
  have "timeout_ms div ?t * ?t \<le> timeout_ms" "timeout_ms < (timeout_ms div ?t + 1) * ?t"
    using assms(1) div_mult_mod_eq [of timeout_ms ?t] pos_mod_bound [of ?t timeout_ms] pos_mod_sign [of ?t timeout_ms]
    by (simp_all only: distrib_right) linarith+
  moreover have "timeout_ms div ?t = 0" if "timeout_ms < ?t" using that assms(3) by simp
  moreover have "1 \<le> timeout_ms div ?t" if "\<not> timeout_ms < ?t"
    using that assms(1) pos_imp_zdiv_pos_iff [of ?t timeout_ms] by linarith
  ultimately have "max 1 (timeout_ms div ?t) * ?t \<le> max timeout_ms ?t" "timeout_ms < (max 1 (timeout_ms div ?t) + 1) * ?t"
    by (cases "timeout_ms < ?t"; simp)+
  then show ?thesis
    using assms(1) by (intro exI [of _ "max 1 (timeout_ms div ?t)"]) (simp add: addTimer_def ticks_for_def d q)
qed

section \<open>Witnesses\<close>

definition logging :: "nat \<Rightarrow> nat timer_wheel \<times> nat list \<Rightarrow> nat timer_wheel \<times> nat list" where
  "logging cb ws = (fst ws, snd ws @ [cb])"

lemma logging_adds: "callbacks_add logging"
  by (simp add: callbacks_add_def logging_def only_adds_refl)

definition three_timers :: "nat timer_wheel" where
  "three_timers = (new_TimerWheel 100 60)\<lparr>tw_next_id := 4, tw_entries :=
     [\<lparr>te_id = 1, te_remaining = 2, te_cb = 7\<rparr>, \<lparr>te_id = 2, te_remaining = 1, te_cb = 8\<rparr>,
      \<lparr>te_id = 3, te_remaining = 2, te_cb = 9\<rparr>]\<rparr>"

lemma three_timers_ok: "wheel_ok three_timers"
  by (simp add: three_timers_def wheel_ok_def)

lemma no_late_calls: "calls (ticks (watched logging) k (three_timers, ([], []))) = (if k = 0 then [] else if k = 1 then [8] else [8, 7, 9])" if "k < 3"
proof -
  have "k = 0 \<or> k = 1 \<or> k = 2" using that by auto
  then show ?thesis
    by (auto simp: ticks_def tick_def watched_def logging_def three_timers_def numeral_2_eq_2)
qed


theorem addTimer_ticks_witness:
  "\<exists>n. addTimer 250 7 three_timers =
      Some (tw_next_id three_timers, three_timers\<lparr>tw_next_id := tw_next_id three_timers + 1,
        tw_entries := tw_entries three_timers @ [\<lparr>te_id = tw_next_id three_timers, te_remaining = n, te_cb = 7\<rparr>]\<rparr>) \<and>
    1 \<le> n \<and> n * int (tw_tick_ms three_timers) \<le> max 250 (int (tw_tick_ms three_timers)) \<and>
    250 < (n + 1) * int (tw_tick_ms three_timers)"
  by (rule addTimer_ticks) (simp_all add: three_timers_def new_TimerWheel_def)

end
