(* ===== verification/ThreadPool.thy ===== *)
theory ThreadPool
  imports Prelude "HOL-Library.Multiset"
begin

text \<open>
  \<open>src/ThreadPool.cc\<close>: a task queue served by worker threads, with a mutex and a condition
  variable. Each function below is one region that runs under the mutex (or one notification),
  and \<open>tp_internal\<close> interleaves them: a worker that finds nothing to do sleeps and has to be
  woken by a notification (or spuriously), so that lost wake-ups would show. The three lists
  \<open>tp_accepted\<close>, \<open>tp_started\<close> and \<open>tp_finished\<close> record the history.
\<close>

section \<open>State and operations\<close>

datatype 'a worker = Ready | Asleep | Running 'a | Exited

record 'a thread_pool =
  tp_workers :: "'a worker list"
  tp_tasks :: "'a list"
  tp_stop :: bool
  tp_notifies :: nat \<comment> \<open>calls of \<open>notify_one\<close> not yet delivered\<close>
  tp_notify_all :: bool \<comment> \<open>a call of \<open>notify_all\<close> not yet delivered\<close>
  tp_accepted :: "'a list"
  tp_started :: "'a list"
  tp_finished :: "'a list"

definition new_ThreadPool :: "nat \<Rightarrow> 'a thread_pool" where
  "new_ThreadPool threads =
     \<lparr>tp_workers = replicate (if threads = 0 then 1 else threads) Ready, tp_tasks = [], tp_stop = False,
      tp_notifies = 0, tp_notify_all = False, tp_accepted = [], tp_started = [], tp_finished = []\<rparr>"

definition submit :: "'a \<Rightarrow> 'a thread_pool \<Rightarrow> 'a thread_pool" where
  "submit t p =
     (if tp_stop p then p
      else p\<lparr>tp_tasks := tp_tasks p @ [t], tp_notifies := tp_notifies p + 1, tp_accepted := tp_accepted p @ [t]\<rparr>)"

text \<open>The locked region of \<open>workerLoop\<close>: wait, leave, or take the first task.\<close>

definition worker_check :: "nat \<Rightarrow> 'a thread_pool \<Rightarrow> 'a thread_pool" where
  "worker_check i p =
     (if \<not> (tp_stop p \<or> tp_tasks p \<noteq> []) then p\<lparr>tp_workers := (tp_workers p)[i := Asleep]\<rparr>
      else if tp_stop p \<and> tp_tasks p = [] then p\<lparr>tp_workers := (tp_workers p)[i := Exited]\<rparr>
      else p\<lparr>tp_workers := (tp_workers p)[i := Running (hd (tp_tasks p))], tp_tasks := tl (tp_tasks p),
             tp_started := tp_started p @ [hd (tp_tasks p)]\<rparr>)"

definition worker_done :: "nat \<Rightarrow> 'a \<Rightarrow> 'a thread_pool \<Rightarrow> 'a thread_pool" where
  "worker_done i t p = p\<lparr>tp_workers := (tp_workers p)[i := Ready], tp_finished := tp_finished p @ [t]\<rparr>"

definition begin_stop :: "'a thread_pool \<Rightarrow> 'a thread_pool" where \<comment> \<open>\<open>~ThreadPool\<close> up to the joins\<close>
  "begin_stop p = p\<lparr>tp_stop := True, tp_notify_all := True\<rparr>"

definition joined :: "'a thread_pool \<Rightarrow> bool" where \<comment> \<open>the joins of \<open>~ThreadPool\<close> have returned\<close>
  "joined p \<longleftrightarrow> list_all (\<lambda>w. w = Exited) (tp_workers p)"

definition pool_size :: "'a thread_pool \<Rightarrow> nat" where
  "pool_size p = length (tp_workers p)"

text \<open>Delivery of notifications by the condition variable.\<close>

fun wake :: "'a worker \<Rightarrow> 'a worker" where
  "wake Asleep = Ready"
| "wake w = w"

inductive tp_internal :: "'a thread_pool \<Rightarrow> 'a thread_pool \<Rightarrow> bool" where
  check: "\<lbrakk>i < length (tp_workers p); tp_workers p ! i = Ready\<rbrakk> \<Longrightarrow> tp_internal p (worker_check i p)"
| finish: "\<lbrakk>i < length (tp_workers p); tp_workers p ! i = Running t\<rbrakk> \<Longrightarrow> tp_internal p (worker_done i t p)"
| deliver: "\<lbrakk>0 < tp_notifies p; i < length (tp_workers p); tp_workers p ! i = Asleep\<rbrakk> \<Longrightarrow>
    tp_internal p (p\<lparr>tp_workers := (tp_workers p)[i := Ready], tp_notifies := tp_notifies p - 1\<rparr>)"
| unheard: "\<lbrakk>0 < tp_notifies p; Asleep \<notin> set (tp_workers p)\<rbrakk> \<Longrightarrow> tp_internal p (p\<lparr>tp_notifies := tp_notifies p - 1\<rparr>)"
| deliver_all: "tp_notify_all p \<Longrightarrow>
    tp_internal p (p\<lparr>tp_workers := map wake (tp_workers p), tp_notify_all := False\<rparr>)"

inductive tp_step :: "'a thread_pool \<Rightarrow> 'a thread_pool \<Rightarrow> bool" where
  internal: "tp_internal p q \<Longrightarrow> tp_step p q"
| submitted: "tp_step p (submit t p)"
| spurious: "\<lbrakk>i < length (tp_workers p); tp_workers p ! i = Asleep\<rbrakk> \<Longrightarrow>
    tp_step p (p\<lparr>tp_workers := (tp_workers p)[i := Ready]\<rparr>)"
| stopping: "\<not> tp_stop p \<Longrightarrow> tp_step p (begin_stop p)"

inductive tp_reachable :: "nat \<Rightarrow> 'a thread_pool \<Rightarrow> bool" for n where
  start: "tp_reachable n (new_ThreadPool n)"
| step: "\<lbrakk>tp_reachable n p; tp_step p q\<rbrakk> \<Longrightarrow> tp_reachable n q"

inductive_cases tp_stepE: "tp_step p q"
inductive_cases tp_internalE: "tp_internal p q"

section \<open>Invariant\<close>

definition running :: "'a worker list \<Rightarrow> 'a multiset" where
  "running ws = mset (concat (map (\<lambda>w. case w of Running t \<Rightarrow> [t] | _ \<Rightarrow> []) ws))"

definition tp_ok :: "'a thread_pool \<Rightarrow> bool" where
  "tp_ok p \<longleftrightarrow> tp_workers p \<noteq> [] \<and> tp_accepted p = tp_started p @ tp_tasks p \<and>
     mset (tp_started p) = running (tp_workers p) + mset (tp_finished p) \<and>
     (Exited \<in> set (tp_workers p) \<longrightarrow> tp_stop p \<and> tp_tasks p = []) \<and>
     (tp_stop p \<longrightarrow> tp_notify_all p \<or> Asleep \<notin> set (tp_workers p)) \<and>
     (tp_tasks p \<noteq> [] \<longrightarrow> 0 < tp_notifies p \<or> \<not> set (tp_workers p) \<subseteq> {Asleep, Exited})"

lemma running_update:
  assumes "i < length ws"
  shows "running (ws[i := w]) + running [ws ! i] = running ws + running [w]"
proof -
  have "ws = take i ws @ ws ! i # drop (Suc i) ws" using assms by (rule id_take_nth_drop)
  moreover have "running (xs @ v # ys) = running xs + running [v] + running ys" for xs v and ys :: "'a worker list"
    by (simp add: running_def)
  ultimately have "running ws = running (take i ws) + running [ws ! i] + running (drop (Suc i) ws)"
    "running (ws[i := w]) = running (take i ws) + running [w] + running (drop (Suc i) ws)"
    using assms upd_conv_take_nth_drop [OF assms, of w] by metis+
  then show ?thesis by simp
qed

lemma running_simps [simp]:
  "running [Ready] = {#}" "running [Asleep] = {#}" "running [Exited] = {#}" "running [Running t] = {#t#}"
  "running (map wake ws) = running ws"
proof -
  show "running (map wake ws) = running ws"
    by (induction ws) (auto simp: running_def split: worker.split elim: wake.elims)
qed (simp_all add: running_def)

lemma in_update: "x \<in> set (ws[i := w]) \<Longrightarrow> x = w \<or> x \<in> set ws"
  using set_update_subset_insert [of ws i w] by auto

lemma update_active: "\<lbrakk>i < length ws; w \<notin> {Asleep, Exited}\<rbrakk> \<Longrightarrow> \<not> set (ws[i := w]) \<subseteq> {Asleep, Exited}"
  using set_update_memI [of i ws w] by blast

lemma not_in_update: "x \<notin> set ws \<Longrightarrow> x \<noteq> w \<Longrightarrow> x \<notin> set (ws[i := w])"
  using in_update [of x ws i w] by blast

lemma wake_set: "Asleep \<notin> set (map wake ws)" "Exited \<in> set (map wake ws) \<longleftrightarrow> Exited \<in> set ws"
proof -
  have "wake w \<noteq> Asleep" "wake w = Exited \<longleftrightarrow> w = Exited" for w :: "'a worker" by (cases w; simp)+
  then show "Asleep \<notin> set (map wake ws)" "Exited \<in> set (map wake ws) \<longleftrightarrow> Exited \<in> set ws"
    by (auto simp: image_iff) metis+
qed

lemma tp_ok_check:
  assumes "tp_ok p" "i < length (tp_workers p)" "tp_workers p ! i = Ready"
  shows "tp_ok (worker_check i p)"
proof -
  note run = running_update [OF assms(2)]
  have keep: "Exited \<in> set ((tp_workers p)[i := w]) \<Longrightarrow> w \<noteq> Exited \<Longrightarrow> Exited \<in> set (tp_workers p)" for w
    using in_update by fastforce
  consider (sleep) "\<not> tp_stop p" "tp_tasks p = []" | (exit) "tp_stop p" "tp_tasks p = []" | (take) "tp_tasks p \<noteq> []"
    by blast
  then show ?thesis
  proof cases
    case sleep
    with assms run [of Asleep] keep [of Asleep] show ?thesis by (auto simp: tp_ok_def worker_check_def)
  next
    case exit
    with assms run [of Exited] show ?thesis
      by (auto simp: tp_ok_def worker_check_def dest: in_update)
  next
    case take
    let ?w = "Running (hd (tp_tasks p))"
    have "Exited \<notin> set (tp_workers p)" using assms(1) take by (auto simp: tp_ok_def)
    then have "Exited \<notin> set ((tp_workers p)[i := ?w])" by (rule not_in_update) simp
    with take assms run [of ?w] update_active [OF assms(2), of ?w] show ?thesis
      by (auto simp: tp_ok_def worker_check_def dest: in_update)
  qed
qed

lemma tp_ok_to_Ready:
  assumes "tp_ok p" "i < length (tp_workers p)" "tp_workers p ! i = Asleep"
  shows "tp_ok (p\<lparr>tp_workers := (tp_workers p)[i := Ready]\<rparr>)"
    "tp_ok (p\<lparr>tp_workers := (tp_workers p)[i := Ready], tp_notifies := n\<rparr>)"
  using assms running_update [OF assms(2), of Ready] update_active [OF assms(2), of Ready]
  by (auto simp: tp_ok_def dest: in_update)

lemma tp_ok_internal:
  assumes "tp_internal p q" "tp_ok p"
  shows "tp_ok q"
  using assms
proof (induction rule: tp_internal.induct)
  case (finish i p t)
  then show ?case
    using running_update [OF finish(1), of Ready] update_active [OF finish(1), of Ready]
    by (auto simp: tp_ok_def worker_done_def dest: in_update)
next
  case (unheard p)
  have "\<not> set (tp_workers p) \<subseteq> {Asleep, Exited}" if "tp_tasks p \<noteq> []"
  proof
    assume "set (tp_workers p) \<subseteq> {Asleep, Exited}"
    with unheard that show False by (cases "tp_workers p") (auto simp: tp_ok_def)
  qed
  with unheard show ?case by (auto simp: tp_ok_def)
next
  case (deliver_all p)
  have "\<not> set (map wake (tp_workers p)) \<subseteq> {Asleep, Exited}" if "tp_tasks p \<noteq> []"
  proof
    assume a: "set (map wake (tp_workers p)) \<subseteq> {Asleep, Exited}"
    have "hd (map wake (tp_workers p)) \<in> set (map wake (tp_workers p))"
      using deliver_all by (intro hd_in_set) (simp add: tp_ok_def)
    with a wake_set [of "tp_workers p"] have "Exited \<in> set (tp_workers p)" by (metis insertE singletonD subsetD)
    with deliver_all that show False by (auto simp: tp_ok_def)
  qed
  with deliver_all wake_set [of "tp_workers p"] show ?case by (simp add: tp_ok_def del: set_map)
qed (simp_all add: tp_ok_check tp_ok_to_Ready)

lemma tp_ok_reachable: "tp_reachable n p \<Longrightarrow> tp_ok p"
proof (induction rule: tp_reachable.induct)
  case start
  then show ?case by (auto simp: tp_ok_def new_ThreadPool_def running_def)
next
  case (step p q)
  from step(2,3) show ?case
    by (cases rule: tp_step.cases)
      (auto simp: tp_ok_internal tp_ok_to_Ready, auto simp: tp_ok_def submit_def begin_stop_def)
qed

section \<open>The queue is drained\<close>

fun weight :: "'a worker \<Rightarrow> nat" where
  "weight Ready = 1"
| "weight Asleep = 2"
| "weight (Running t) = 2"
| "weight Exited = 0"

definition work_left :: "'a thread_pool \<Rightarrow> nat" where
  "work_left p = 2 * length (tp_tasks p) + sum_list (map weight (tp_workers p)) + tp_notifies p +
     (if tp_notify_all p then 1 else 0)"

lemma weight_update:
  assumes "i < length ws"
  shows "sum_list (map weight (ws[i := w])) + weight (ws ! i) = sum_list (map weight ws) + weight w"
proof -
  have "ws = take i ws @ ws ! i # drop (Suc i) ws" using assms by (rule id_take_nth_drop)
  then have "sum_list (map weight ws) = sum_list (map weight (take i ws)) + weight (ws ! i) + sum_list (map weight (drop (Suc i) ws))"
    by (metis add.assoc list.simps(9) map_append sum_list.Cons sum_list.append)
  then show ?thesis by (simp add: upd_conv_take_nth_drop [OF assms])
qed

lemma weight_wake: "sum_list (map weight (map wake ws)) \<le> sum_list (map weight ws)"
proof -
  have "weight (wake w) \<le> weight w" for w :: "'a worker" by (cases w) simp_all
  then show ?thesis by (induction ws) (auto intro: add_mono)
qed

lemma internal_decreases:
  assumes "tp_internal p q" "tp_stop p \<or> tp_tasks p \<noteq> []"
  shows "work_left q < work_left p"
  using assms
proof (induction rule: tp_internal.induct)
  case (check i p)
  note w = weight_update [OF check(1)]
  show ?case
  proof (cases "tp_tasks p")
    case Nil
    with check w [of Exited] show ?thesis by (simp add: worker_check_def work_left_def)
  next
    case (Cons t ts)
    with check w [of "Running t"] show ?thesis by (simp add: worker_check_def work_left_def)
  qed
next
  case (finish i p t)
  with weight_update [OF finish(1), of Ready] show ?case by (simp add: worker_done_def work_left_def)
next
  case (deliver p i)
  with weight_update [OF deliver(2), of Ready] show ?case by (simp add: work_left_def)
next
  case (deliver_all p)
  with weight_wake [of "tp_workers p"] show ?case by (simp add: work_left_def)
qed (simp add: work_left_def)

lemma internal_enabled:
  assumes "tp_ok p" "tp_stop p \<or> tp_tasks p \<noteq> []" "\<not> joined p"
  shows "\<exists>q. tp_internal p q"
proof -
  have "Ready \<in> set (tp_workers p) \<or> (\<exists>t. Running t \<in> set (tp_workers p)) \<or> tp_notify_all p \<or>
      (0 < tp_notifies p \<and> Asleep \<in> set (tp_workers p))"
  proof (rule ccontr)
    assume n: "\<not> ?thesis"
    have "w \<in> {Asleep, Exited}" if "w \<in> set (tp_workers p)" for w
      using n that by (cases w) auto
    then have none: "set (tp_workers p) \<subseteq> {Asleep, Exited}" "\<not> tp_notify_all p"
      "\<not> (0 < tp_notifies p \<and> Asleep \<in> set (tp_workers p))"
      using n by auto
    from assms(3) none(1) have "Asleep \<in> set (tp_workers p)" by (auto simp: joined_def list_all_iff)
    with none assms(1,2) show False by (auto simp: tp_ok_def)
  qed
  then show ?thesis
    using tp_internal.check [of _ p] tp_internal.finish [of _ p] tp_internal.deliver [of p] tp_internal.deliver_all [of p]
    unfolding in_set_conv_nth by blast
qed

text \<open>Every interleaving of the workers reaches a state with the property.\<close>

inductive inevitable :: "('a thread_pool \<Rightarrow> bool) \<Rightarrow> 'a thread_pool \<Rightarrow> bool" for P where
  now: "P p \<Longrightarrow> inevitable P p"
| later: "\<lbrakk>\<exists>q. tp_internal p q; \<forall>q. tp_internal p q \<longrightarrow> inevitable P q\<rbrakk> \<Longrightarrow> inevitable P p"

lemma internal_stop: "tp_internal p q \<Longrightarrow> tp_stop q = tp_stop p \<and> tp_accepted q = tp_accepted p"
  by (induction rule: tp_internal.induct) (auto simp: worker_check_def worker_done_def)

lemma drains:
  "tp_ok p \<Longrightarrow> inevitable (\<lambda>q. tp_ok q \<and> tp_tasks q = [] \<and> tp_accepted q = acc \<and> (st \<longrightarrow> joined q)) p"
  if "tp_accepted p = acc" "tp_stop p = st" for p :: "'a thread_pool"
  using that
proof (induction "work_left p" arbitrary: p rule: less_induct)
  case less
  show ?case
  proof (cases "tp_tasks p = [] \<and> (st \<longrightarrow> joined p)")
    case True
    with less show ?thesis by (intro inevitable.now) simp
  next
    case False
    then have busy: "tp_stop p \<or> tp_tasks p \<noteq> []" using less.prems by blast
    have "\<not> joined p"
    proof
      assume "joined p"
      moreover have "tp_workers p \<noteq> []" using less.prems(1) by (simp add: tp_ok_def)
      ultimately have "Exited \<in> set (tp_workers p)" by (cases "tp_workers p") (auto simp: joined_def)
      with less.prems(1) False \<open>joined p\<close> show False by (auto simp: tp_ok_def)
    qed
    show ?thesis
    proof (rule inevitable.later)
      show "\<exists>q. tp_internal p q" by (rule internal_enabled [OF less.prems(1) busy \<open>\<not> joined p\<close>])
      show "\<forall>q. tp_internal p q \<longrightarrow> inevitable (\<lambda>q. tp_ok q \<and> tp_tasks q = [] \<and> tp_accepted q = acc \<and> (st \<longrightarrow> joined q)) q"
      proof (intro allI impI)
        fix q assume q: "tp_internal p q"
        show "inevitable (\<lambda>q. tp_ok q \<and> tp_tasks q = [] \<and> tp_accepted q = acc \<and> (st \<longrightarrow> joined q)) q"
          by (rule less.hyps [OF internal_decreases [OF q busy] tp_ok_internal [OF q less.prems(1)]])
            (use internal_stop [OF q] less.prems in simp_all)
      qed
    qed
  qed
qed

lemma joined_all_finished:
  assumes "tp_ok p" "joined p"
  shows "tp_tasks p = [] \<and> mset (tp_finished p) = mset (tp_accepted p)"
proof -
  have all: "set (tp_workers p) \<subseteq> {Exited}" "tp_workers p \<noteq> []"
    using assms by (auto simp: joined_def list_all_iff tp_ok_def)
  then have "Exited \<in> set (tp_workers p)" by (cases "tp_workers p") auto
  moreover have "running ws = {#}" if "set ws \<subseteq> {Exited}" for ws :: "'a worker list"
    using that by (induction ws) (auto simp: running_def)
  ultimately show ?thesis using assms(1) all by (simp add: tp_ok_def)
qed

section \<open>Properties\<close>

text \<open>
  C31: every accepted task is started once and in the order of submission. In every reachable
  state the accepted tasks are the started ones followed by the queue, and as a multiset they
  are queued, running on a worker, or finished.
\<close>

theorem tasks_fifo_once:
  assumes "tp_reachable n p"
  shows "tp_accepted p = tp_started p @ tp_tasks p \<and>
    mset (tp_accepted p) = mset (tp_tasks p) + running (tp_workers p) + mset (tp_finished p)"
  using tp_ok_reachable [OF assms] by (simp add: tp_ok_def)

definition one_task :: "nat thread_pool" where
  "one_task = submit 5 (new_ThreadPool 2)"

lemma one_task_reachable: "tp_reachable 2 one_task"
  unfolding one_task_def by (rule tp_reachable.step [OF tp_reachable.start tp_step.submitted])

lemma one_task_stopping: "tp_reachable 2 (begin_stop one_task)"
  by (rule tp_reachable.step [OF one_task_reachable tp_step.stopping])
    (simp add: one_task_def submit_def new_ThreadPool_def)

theorem tasks_fifo_once_witness:
  "tp_accepted one_task = tp_started one_task @ tp_tasks one_task \<and>
   mset (tp_accepted one_task) = mset (tp_tasks one_task) + running (tp_workers one_task) + mset (tp_finished one_task)"
  by (rule tasks_fifo_once [OF one_task_reachable])

text \<open>
  C11: no wake-up is lost and the pool stops cleanly. From every reachable state every
  interleaving of the workers empties the queue, and once the destructor has begun it also
  reaches the state where all workers have left, with every accepted task finished.
\<close>

theorem pool_drains:
  assumes "tp_reachable n p"
  shows "inevitable (\<lambda>q. tp_tasks q = [] \<and> tp_accepted q = tp_accepted p \<and>
    (tp_stop p \<longrightarrow> joined q \<and> mset (tp_finished q) = mset (tp_accepted p))) p"
proof -
  have mono: "inevitable Q p" if "inevitable P p" "\<And>q. P q \<Longrightarrow> Q q" for P Q and p :: "'a thread_pool"
    using that by (induction rule: inevitable.induct) (auto intro: inevitable.intros)
  show ?thesis
    by (rule mono [OF drains [OF refl refl tp_ok_reachable [OF assms]]]) (auto dest: joined_all_finished)
qed

theorem pool_drains_witness:
  "inevitable (\<lambda>q. tp_tasks q = [] \<and> tp_accepted q = tp_accepted (begin_stop one_task) \<and>
    (tp_stop (begin_stop one_task) \<longrightarrow> joined q \<and> mset (tp_finished q) = mset (tp_accepted (begin_stop one_task))))
    (begin_stop one_task)"
  by (rule pool_drains [OF one_task_stopping])

text \<open>
  Stopping. A task submitted after the stop is dropped without a trace, and whenever all
  workers have been joined the queue is empty and the finished tasks are exactly the accepted.
\<close>

theorem stopped_pool:
  assumes "tp_reachable n p"
  shows "(tp_stop p \<longrightarrow> submit t p = p) \<and>
    (joined p \<longrightarrow> tp_stop p \<and> tp_tasks p = [] \<and> mset (tp_finished p) = mset (tp_accepted p))"
proof -
  note ok = tp_ok_reachable [OF assms]
  have "tp_stop p" if "joined p"
    using that ok by (cases "tp_workers p") (auto simp: joined_def tp_ok_def)
  then show ?thesis using joined_all_finished [OF ok] by (auto simp: submit_def)
qed

theorem stopped_pool_witness:
  "(tp_stop (begin_stop one_task) \<longrightarrow> submit 7 (begin_stop one_task) = begin_stop one_task) \<and>
    (joined (begin_stop one_task) \<longrightarrow> tp_stop (begin_stop one_task) \<and> tp_tasks (begin_stop one_task) = [] \<and>
      mset (tp_finished (begin_stop one_task)) = mset (tp_accepted (begin_stop one_task)))"
  by (rule stopped_pool [OF one_task_stopping])

end
