(* ===== verification/Doubles.thy ===== *)
theory Doubles
  imports Prelude "HOL-Library.Log_Nat"
begin

text \<open>
  The type \<open>double\<close> as the load generator uses it: a value is the rational number it denotes, and every
  operation is the exact one followed by rounding to 53 significant bits, to the nearest, ties to the even
  one. The numbers are counts of nanoseconds and of requests and their quotients; they are far from the
  limits of the exponent, which is not bounded here. The one number that comes from outside is the duration
  of the command line, which \<open>strtod\<close> may also read as an infinity, as NaN or as minus zero: \<open>dnum\<close> has these,
  with the comparisons of C++, all of which are false for NaN. Second part: what \<open>printf\<close> writes for \<open>%.kf\<close>.
\<close>

section \<open>Rounding\<close>

definition round_even :: "rat \<Rightarrow> int" where
  "round_even x =
     (let f = \<lfloor>x\<rfloor>; d = x - of_int f
      in if d < 1/2 then f else if d > 1/2 then f + 1 else if even f then f else f + 1)"

text \<open>The exponent of the leading bit.\<close>

definition expo :: "rat \<Rightarrow> int" where
  "expo x =
     (let (a, b) = quotient_of \<bar>x\<bar>; k = bitlen a - bitlen b
      in if 2 powi k \<le> \<bar>x\<bar> then k else k - 1)"

definition dbl :: "rat \<Rightarrow> rat" where
  "dbl x = (let u = 2 powi (expo x - 52) in of_int (round_even (x / u)) * u)"

section \<open>Values from outside\<close>

text \<open>The flag of an infinity and of NaN is the sign.\<close>

datatype dnum = Fin rat | MinusZero | Infty bool | NaN bool

fun below :: "dnum \<Rightarrow> rat \<Rightarrow> bool" where
  "below (Fin x) c = (x < c)"
| "below MinusZero c = (0 < c)"
| "below (Infty neg) c = neg"
| "below (NaN neg) c = False"

fun above :: "dnum \<Rightarrow> rat \<Rightarrow> bool" where
  "above (Fin x) c = (c < x)"
| "above MinusZero c = (c < 0)"
| "above (Infty neg) c = (\<not> neg)"
| "above (NaN neg) c = False"

fun is_NaN :: "dnum \<Rightarrow> bool" where
  "is_NaN (NaN neg) = True"
| "is_NaN d = False"

definition at_most :: "dnum \<Rightarrow> rat \<Rightarrow> bool" where
  "at_most d c \<longleftrightarrow> \<not> is_NaN d \<and> \<not> above d c"

text \<open>The number of a finite value; used of positive durations only.\<close>

fun number :: "dnum \<Rightarrow> rat" where
  "number (Fin x) = x"
| "number d = 0"

section \<open>Printing\<close>

fun pad_digits :: "nat \<Rightarrow> nat \<Rightarrow> string" where
  "pad_digits 0 n = []"
| "pad_digits (Suc k) n = pad_digits k (n div 10) @ [char_of (48 + n mod 10)]"

definition fmt_fixed :: "nat \<Rightarrow> rat \<Rightarrow> string" where
  "fmt_fixed k x =
     (let n = nat (round_even (\<bar>x\<bar> * 10 ^ k))
      in (if x < 0 then ''-'' else []) @ show_nat (n div 10 ^ k) @ (if k = 0 then [] else ''.'' @ pad_digits k n))"

fun fmt_dnum :: "nat \<Rightarrow> dnum \<Rightarrow> string" where
  "fmt_dnum k (Fin x) = fmt_fixed k x"
| "fmt_dnum k MinusZero = ''-'' @ fmt_fixed k 0"
| "fmt_dnum k (Infty neg) = (if neg then ''-inf'' else ''inf'')"
| "fmt_dnum k (NaN neg) = (if neg then ''-nan'' else ''nan'')"

section \<open>Lemmas\<close>

lemma round_even_err: "\<bar>of_int (round_even x) - x\<bar> \<le> 1/2"
  unfolding round_even_def Let_def using of_int_floor_le [of x] floor_correct [of x] by (auto simp: abs_le_iff)

lemma round_even_int [simp]: "round_even (of_int k) = k"
  by (simp add: round_even_def)

lemma round_even_mono: "x \<le> y \<Longrightarrow> round_even x \<le> round_even y"
proof (cases "\<lfloor>x\<rfloor> = \<lfloor>y\<rfloor>")
  case False
  assume "x \<le> y"
  with False have "\<lfloor>x\<rfloor> + 1 \<le> \<lfloor>y\<rfloor>" using floor_mono [of x y] by simp
  moreover have "round_even x \<le> \<lfloor>x\<rfloor> + 1" "\<lfloor>y\<rfloor> \<le> round_even y" by (simp_all add: round_even_def Let_def)
  ultimately show ?thesis by linarith
qed (auto simp: round_even_def Let_def)

lemma quotient_bounds:
  fixes m n p q :: rat
  assumes "0 < m" "0 < n" "p / 2 \<le> m" "m < p" "q / 2 \<le> n" "n < q"
  shows "m / n < 2 * (p / q)" "p / q / 2 < m / n"
proof -
  have "m * q < p * q" "p * q \<le> p * (2 * n)" using assms by (simp_all add: mult_left_mono)
  then have "m * q < 2 * p * n" by linarith
  with assms show "m / n < 2 * (p / q)" by (simp add: divide_less_eq less_divide_eq mult.commute mult.left_commute)
  have "p * n \<le> 2 * m * n" "2 * m * n < 2 * m * q" using assms by (simp_all add: mult_right_mono)
  then have "p * n < m * (q * 2)" by linarith
  with assms show "p / q / 2 < m / n" by (simp add: divide_less_eq less_divide_eq mult.commute mult.left_commute)
qed

lemma expo_bounds:
  assumes "x \<noteq> 0"
  shows "2 powi expo x \<le> \<bar>x\<bar> \<and> \<bar>x\<bar> < 2 powi (expo x + 1)"
proof -
  obtain a b where q: "quotient_of \<bar>x\<bar> = (a, b)" by fastforce
  have b: "b > 0" using quotient_of_denom_pos [OF q] .
  have x: "\<bar>x\<bar> = of_int a / of_int b" using quotient_of_div [OF q] .
  with assms b have a: "a > 0" by (metis abs_le_zero_iff divide_nonpos_pos not_le of_int_0_less_iff of_int_le_0_iff)
  let ?p = "\<lambda>n. 2 powi (bitlen n) :: rat"
  have bits: "?p n / 2 \<le> of_int n \<and> of_int n < ?p n" if "n > 0" for n
  proof -
    have len: "0 < bitlen n" using bitlen_eq_zero_iff [of n] bitlen_nonneg [of n] that by linarith
    have "of_int (2 ^ nat (bitlen n - 1)) \<le> (of_int n :: rat)" "of_int n < (of_int (2 ^ nat (bitlen n)) :: rat)"
      using bitlen_bounds [OF that] by (simp_all only: of_int_le_iff of_int_less_iff)
    moreover have "(2 :: rat) ^ nat (bitlen n) = 2 * 2 ^ nat (bitlen n - 1)" using len by (simp add: nat_diff_distrib flip: power_Suc)
    ultimately show ?thesis using len by (simp add: power_int_def)
  qed
  let ?k = "bitlen a - bitlen b"
  have k: "2 powi ?k = ?p a / ?p b" by (simp add: power_int_diff)
  have "\<bar>x\<bar> < 2 * 2 powi ?k" "2 powi ?k / 2 < \<bar>x\<bar>"
    unfolding k x using quotient_bounds [of "of_int a" "of_int b" "?p a" "?p b"] bits [OF a] bits [OF b] a b by simp_all
  then show ?thesis by (auto simp: expo_def q Let_def power_int_add power_int_diff mult.commute)
qed

lemma dbl_0 [simp]: "dbl 0 = 0"
  using round_even_int [of 0] by (simp add: dbl_def)

lemma unit_pos: "(0 :: rat) < 2 powi k"
  by simp

lemma unit_le: "x \<noteq> 0 \<Longrightarrow> 2 powi (expo x - 52) \<le> \<bar>x\<bar> / 2 ^ 52"
  using expo_bounds [of x] by (simp add: power_int_diff divide_right_mono)

text \<open>The relative error of an operation.\<close>

lemma dbl_err: "\<bar>dbl x - x\<bar> \<le> \<bar>x\<bar> / 2 ^ 53"
proof (cases "x = 0")
  case False
  let ?u = "2 powi (expo x - 52) :: rat"
  have "dbl x - x = (of_int (round_even (x / ?u)) - x / ?u) * ?u" by (simp add: dbl_def Let_def left_diff_distrib)
  then have "\<bar>dbl x - x\<bar> = \<bar>of_int (round_even (x / ?u)) - x / ?u\<bar> * ?u" by (simp add: abs_mult)
  also have "\<dots> \<le> 1/2 * ?u" by (rule mult_right_mono [OF round_even_err]) simp
  also have "\<dots> \<le> \<bar>x\<bar> / 2 ^ 53" using unit_le [OF False] by simp
  finally show ?thesis .
qed simp

text \<open>Small integers are exact.\<close>

lemma dbl_int:
  assumes "\<bar>k\<bar> < 2 ^ 53"
  shows "dbl (of_int k) = of_int k"
proof (cases "k = 0")
  case False
  let ?e = "expo (of_int k)"
  have "2 powi ?e \<le> (of_int \<bar>k\<bar> :: rat)" using expo_bounds [of "of_int k"] False by simp
  also have "\<dots> < of_int (2 ^ 53)" using assms by (simp only: of_int_less_iff)
  also have "\<dots> = 2 powi 53" by simp
  finally have "?e < 53" using power_int_le_imp_less_exp [of "2 :: rat" ?e 53] by simp
  have "of_int k / 2 powi (?e - 52) = (of_int (k * 2 ^ nat (52 - ?e)) :: rat)"
    using \<open>?e < 53\<close> by (simp add: power_int_def field_simps nat_diff_distrib)
  then have "round_even (of_int k / 2 powi (?e - 52)) = k * 2 ^ nat (52 - ?e)" by (simp only: round_even_int)
  then show ?thesis using \<open>?e < 53\<close> by (simp add: dbl_def power_int_def field_simps)
qed simp

text \<open>Rounding is monotone: within a binade by \<open>round_even_mono\<close>, and the binades do not overlap.\<close>

lemma dbl_pos_bounds:
  assumes "x > 0"
  shows "2 powi expo x \<le> dbl x \<and> dbl x \<le> 2 powi (expo x + 1)"
proof -
  let ?u = "2 powi (expo x - 52) :: rat"
  have u: "2 powi expo x = of_int (2 ^ 52) * ?u" "2 powi (expo x + 1) = of_int (2 ^ 53) * ?u"
    by (simp_all add: power_int_diff power_int_add)
  have "2 powi expo x \<le> x" "x \<le> 2 powi (expo x + 1)" using expo_bounds [of x] assms by simp_all
  then have "of_int (2 ^ 52) \<le> x / ?u" "x / ?u \<le> of_int (2 ^ 53)"
    unfolding u by (simp_all only: pos_le_divide_eq [OF unit_pos] pos_divide_le_eq [OF unit_pos])
  from this [THEN round_even_mono] have "2 ^ 52 \<le> round_even (x / ?u)" "round_even (x / ?u) \<le> 2 ^ 53"
    by (simp_all only: round_even_int)
  then have "of_int (2 ^ 52) \<le> (of_int (round_even (x / ?u)) :: rat)" "of_int (round_even (x / ?u)) \<le> (of_int (2 ^ 53) :: rat)"
    by (simp_all only: of_int_le_iff)
  then show ?thesis unfolding u dbl_def Let_def by (simp only: mult_right_mono order_less_imp_le [OF unit_pos])
qed

lemma dbl_nonneg: "0 \<le> x \<Longrightarrow> 0 \<le> dbl x"
  using dbl_pos_bounds [of x] order_less_le_trans [OF unit_pos, of "expo x" "dbl x"] by (cases "x = 0") auto

lemma expo_mono: "0 < x \<Longrightarrow> x \<le> y \<Longrightarrow> expo x \<le> expo y"
proof (rule ccontr)
  assume "0 < x" "x \<le> y" "\<not> expo x \<le> expo y"
  then have "2 powi (expo y + 1) \<le> (2 powi expo x :: rat)" by (intro power_int_increasing) simp_all
  with expo_bounds [of x] expo_bounds [of y] \<open>0 < x\<close> \<open>x \<le> y\<close> show False by auto
qed

lemma dbl_mono:
  assumes "0 \<le> x" "x \<le> y"
  shows "dbl x \<le> dbl y"
proof (cases "x = 0")
  case True
  with assms dbl_nonneg show ?thesis by simp
next
  case False
  with assms have pos: "0 < x" "0 < y" by simp_all
  show ?thesis
  proof (cases "expo x = expo y")
    case True
    have "x / 2 powi (expo y - 52) \<le> y / 2 powi (expo y - 52)" using assms(2) by (simp add: divide_right_mono)
    from round_even_mono [OF this] True show ?thesis by (simp add: dbl_def Let_def mult_right_mono)
  next
    case False
    with expo_mono [OF pos(1) assms(2)] have "2 powi (expo x + 1) \<le> (2 powi expo y :: rat)" by (intro power_int_increasing) simp_all
    with dbl_pos_bounds [OF pos(1)] dbl_pos_bounds [OF pos(2)] show ?thesis by linarith
  qed
qed

lemma dbl_nat: "n < 2 ^ 53 \<Longrightarrow> dbl (of_nat n) = of_nat n"
  using dbl_int [of "int n"] by simp

lemma dbl_above: "0 \<le> x \<Longrightarrow> dbl x \<le> x * (1 + 1 / 2 ^ 53)"
proof -
  assume "0 \<le> x"
  then have "dbl x - x \<le> x / 2 ^ 53" using dbl_err [of x] abs_ge_self [of "dbl x - x"] by linarith
  then show ?thesis by (simp add: algebra_simps)
qed

lemma dbl_at_least: "n < 2 ^ 53 \<Longrightarrow> of_nat n \<le> x \<Longrightarrow> of_nat n \<le> dbl x"
  using dbl_mono [of "of_nat n" x] dbl_nat [of n] by simp

text \<open>
  A rank computed in floating point: \<open>n * q / 100\<close> for a percentage \<open>q\<close> that is the rounded quotient of \<open>a\<close> and \<open>b\<close>
  lies on the same side of every integer as the exact value.
\<close>

lemma rank_rounded:
  fixes n a b m :: nat and q :: rat
  assumes n: "n \<le> 4000000" and ab: "a \<le> 100 * b" "0 < b" "b \<le> 10"
    and q: "of_nat a / of_nat b \<le> q" "q \<le> of_nat a / of_nat b * (1 + 1 / 2 ^ 53)"
    and m: "m = n * a div (100 * b)"
  shows "of_nat m \<le> dbl (dbl (dbl (of_nat n) * q) / 100)" "dbl (dbl (dbl (of_nat n) * q) / 100) < of_nat m + 1"
proof -
  define x :: rat where "x = of_nat (n * a) / of_nat (100 * b)"
  let ?e = "1 + 1 / 2 ^ 53 :: rat"
  have nn: "dbl (of_nat n) = of_nat n" using n by (intro dbl_nat) simp
  have "n * a \<le> n * (100 * b)" using ab(1) by simp
  then have "m \<le> n" unfolding m using div_le_mono [of "n * a" "n * (100 * b)" "100 * b"] ab(2) by simp
  then have m53: "m * 100 < 2 ^ 53" using n by simp
  have mx: "of_nat m \<le> x" unfolding m x_def using ab(2) by (simp add: le_divide_eq flip: of_nat_mult of_nat_le_iff)
  have xq: "100 * x \<le> of_nat n * q" "of_nat n * q \<le> 100 * x * ?e"
    using q ab(2) mult_left_mono [OF q(1), of "of_nat n"] mult_left_mono [OF q(2), of "of_nat n"] by (simp_all add: x_def field_simps)
  have "of_nat (m * 100) \<le> of_nat n * q" using mx xq(1) by simp
  from dbl_at_least [OF m53 this] have z: "of_nat m \<le> dbl (of_nat n * q) / 100" by simp
  show "of_nat m \<le> dbl (dbl (dbl (of_nat n) * q) / 100)"
    unfolding nn by (rule dbl_at_least [OF _ z]) (use m53 in simp)
  have nq: "0 \<le> of_nat n * q" using xq(1) by (rule order_trans [rotated]) (simp add: x_def)
  have "dbl (dbl (of_nat n * q) / 100) \<le> dbl (of_nat n * q) / 100 * ?e" by (rule dbl_above) (use dbl_nonneg [OF nq] in simp)
  also have "\<dots> \<le> of_nat n * q * ?e / 100 * ?e" using dbl_above [OF nq] by (intro mult_right_mono divide_right_mono) simp_all
  also have "\<dots> \<le> 100 * x * ?e * ?e / 100 * ?e" using xq(2) by (intro mult_right_mono divide_right_mono) simp_all
  also have "\<dots> = x * (?e * ?e * ?e)" by simp
  also have "\<dots> \<le> x * (1 + 1 / 2 ^ 50)" by (rule mult_left_mono) (simp_all add: x_def)
  also have "\<dots> < of_nat m + 1"
  proof -
    have "n * a < (m + 1) * (100 * b)" unfolding m using ab(2) by (metis Suc_eq_plus1 dividend_less_div_times mult.commute nat_0_less_mult_iff zero_less_numeral mult_Suc add.commute)
    then have "n * a + 1 \<le> (m + 1) * (100 * b)" by simp
    then have "of_nat (n * a + 1) \<le> (of_nat ((m + 1) * (100 * b)) :: rat)" by (simp only: of_nat_le_iff)
    then have "x + 1 / of_nat (100 * b) \<le> of_nat m + 1" using ab(2) by (simp add: x_def field_simps)
    moreover have "(1 :: rat) / 1000 \<le> 1 / of_nat (100 * b)" using ab(2,3) by (simp add: field_simps)
    moreover have "x \<le> of_nat n"
      using \<open>n * a \<le> n * (100 * b)\<close> ab(2) by (simp add: x_def divide_le_eq flip: of_nat_mult)
    then have "x \<le> 4000000" using n by (metis of_nat_le_iff of_nat_numeral order_trans)
    ultimately show ?thesis by (simp add: algebra_simps)
  qed
  finally show "dbl (dbl (dbl (of_nat n) * q) / 100) < of_nat m + 1" unfolding nn .
qed

lemma dbl_u64:
  assumes "n < 2 ^ 64"
  shows "0 \<le> dbl (of_nat n)" "dbl (of_nat n) \<le> of_nat (2 ^ 65)"
proof -
  have "of_nat n \<le> (of_nat (2 ^ 64) :: rat)" using assms by (simp only: of_nat_le_iff)
  then show "dbl (of_nat n) \<le> of_nat (2 ^ 65)" using dbl_above [of "of_nat n"] by simp
qed (simp add: dbl_nonneg)

text \<open>The length of what is printed.\<close>

lemma pad_digits_length [simp]: "length (pad_digits k n) = k"
  by (induction k n rule: pad_digits.induct) simp_all

lemma fixed_whole:
  assumes "0 \<le> x" "x \<le> of_nat m"
  shows "nat (round_even (\<bar>x\<bar> * 10 ^ k)) div 10 ^ k \<le> m"
proof -
  have "\<bar>x\<bar> * 10 ^ k \<le> of_int (int m * 10 ^ k)" using assms by (simp add: mult_right_mono)
  from round_even_mono [OF this] have "nat (round_even (\<bar>x\<bar> * 10 ^ k)) \<le> m * 10 ^ k" by (simp only: round_even_int nat_le_iff) simp
  from div_le_mono [OF this, of "10 ^ k"] show ?thesis by simp
qed

end
