(* ===== verification/Startup.thy ===== *)
theory Startup
  imports HttpServer_Correct Doubles
begin

text \<open>
  How the program starts and ends: \<open>src/main.cc\<close>, \<open>HttpServer::start\<close>, \<open>TcpServer::start\<close> and
  \<open>TcpServer::~TcpServer\<close>, and the log of \<open>include/mini_net/Logger.h\<close>. The answers of \<open>socket\<close>, \<open>bind\<close> and
  \<open>listen\<close> are arguments. Loops have numbers, 0 is the base loop; the number of a loop that a
  thread starts comes from its name.
\<close>

section \<open>Log\<close>

datatype log_level = Debug | Info | Warn | ErrorLevel

fun level_num :: "log_level \<Rightarrow> nat" where
  "level_num Debug = 0" | "level_num Info = 1" | "level_num Warn = 2" | "level_num ErrorLevel = 3"

text \<open>The comparison of levels is that of their numbers.\<close>

instantiation log_level :: linorder
begin

definition less_eq_log_level :: "log_level \<Rightarrow> log_level \<Rightarrow> bool" where
  "less_eq_log_level a b \<longleftrightarrow> level_num a \<le> level_num b"

definition less_log_level :: "log_level \<Rightarrow> log_level \<Rightarrow> bool" where
  "less_log_level a b \<longleftrightarrow> level_num a < level_num b"

instance
proof
  fix a b :: log_level
  show "a \<le> b \<Longrightarrow> b \<le> a \<Longrightarrow> a = b" unfolding less_eq_log_level_def by (cases a; cases b) simp_all
qed (auto simp: less_eq_log_level_def less_log_level_def)

end

fun levelName :: "log_level \<Rightarrow> string" where
  "levelName Debug = ''DEBUG''" | "levelName Info = ''INFO''" | "levelName Warn = ''WARN''" | "levelName ErrorLevel = ''ERROR''"

text \<open>\<open>body\<close> is the formatted message and \<open>ts\<close> the time as text; the buffers have 512 and 32 bytes.\<close>

definition logMessage :: "log_level \<Rightarrow> string \<Rightarrow> nat \<Rightarrow> string \<Rightarrow> string \<Rightarrow> string" where
  "logMessage lv file line ts body =
     ''['' @ ts @ ''] ['' @ levelName lv @ ''] '' @ file @ '':'' @ show_nat line @ ''  '' @ snprintf 512 body @ [LF]"

text \<open>The macro \<open>MN_LOG\<close>: what is written to the standard error output.\<close>

definition mn_log :: "log_level \<Rightarrow> log_level \<Rightarrow> string \<Rightarrow> nat \<Rightarrow> string \<Rightarrow> string \<Rightarrow> string" where
  "mn_log threshold lv file line ts body =
     (if lv \<ge> threshold then logMessage lv file line ts body else [])"

section \<open>The transport server\<close>

datatype base_cb = HandleAccept | SweepIdle | ReportStats

record socket_answers =
  sa_socket :: "fd option"
  sa_bind :: bool
  sa_listen :: bool

record server =
  sv_port :: "16 word"
  sv_thread_num :: int
  sv_listen_fd :: fd
  sv_accept_channel :: "base_cb channel option"
  sv_idle_timer_id :: int
  sv_stats_timer_id :: int
  sv_tcp :: tcp
  sv_base :: "base_cb event_loop"
  sv_base_poller :: "base_cb poller"

definition new_server :: "base_cb event_loop \<Rightarrow> base_cb poller \<Rightarrow> 16 word \<Rightarrow> int \<Rightarrow> int \<Rightarrow> server" where
  "new_server el po port threads idle = \<lparr>sv_port = port, sv_thread_num = threads, sv_listen_fd = -1, sv_accept_channel = None,
     sv_idle_timer_id = -1, sv_stats_timer_id = -1, sv_tcp = new_TcpServer (new_EventLoopThreadPool 0) idle,
     sv_base = el, sv_base_poller = po\<rparr>"

text \<open>\<open>TcpServer::start\<close>; \<open>now\<close> is the clock in nanoseconds, \<open>loop_of\<close> the loop of a thread with a name.\<close>

definition tcp_start :: "socket_answers \<Rightarrow> epoll_ctl \<Rightarrow> int \<Rightarrow> (string \<Rightarrow> nat) \<Rightarrow> server \<Rightarrow> server" where
  "tcp_start sa ctl now loop_of sv =
     (case sa_socket sa of
        None \<Rightarrow> sv\<lparr>sv_listen_fd := -1\<rparr>
      | Some f \<Rightarrow>
          (let sv = sv\<lparr>sv_listen_fd := f\<rparr>
           in if \<not> sa_bind sa then sv
              else if \<not> sa_listen sa then sv
              else
                (let pool = pool_start loop_of ''io'' (setThreadNum (sv_thread_num sv) (new_EventLoopThreadPool 0));
                     (ch, po) = enableReading ctl HandleAccept ((new_Channel f)\<lparr>ch_read_cb := Some HandleAccept\<rparr>, sv_base_poller sv);
                     (t1, el) = runEvery now 1000 (Some SweepIdle) (sv_base sv);
                     (t2, el) = runEvery now 5000 (Some ReportStats) el
                 in sv\<lparr>sv_tcp := (sv_tcp sv)\<lparr>ts_pool := pool\<rparr>, sv_accept_channel := Some ch, sv_base_poller := po,
                       sv_base := el, sv_idle_timer_id := t1, sv_stats_timer_id := t2\<rparr>)))"

text \<open>
  The destructor. \<open>~Channel\<close> of a connection calls \<open>disableAll\<close>, which calls the loop of the
  connection if the channel is registered. The loops of the pool have ended with their threads by then, and a
  call of such a loop is undefined: the result is \<open>None\<close>.
\<close>

definition destroy_conn :: "u64 \<Rightarrow> server \<Rightarrow> server option" where
  "destroy_conn i sv =
     (case um_find (ts_store (sv_tcp sv)) i of
        None \<Rightarrow> Some sv
      | Some c \<Rightarrow>
          if ch_in_poller (cn_channel c) \<and> cn_owner c \<noteq> 0 then None
          else Some (sv\<lparr>sv_tcp := chan_op disableAll i (sv_tcp sv)\<rparr>))"

primrec destroy_conns :: "u64 list \<Rightarrow> server \<Rightarrow> server option" where
  "destroy_conns [] sv = Some sv"
| "destroy_conns (i # is) sv = (case destroy_conn i sv of None \<Rightarrow> None | Some sv \<Rightarrow> destroy_conns is sv)"

definition cancel_if_set :: "int \<Rightarrow> 'cb event_loop \<Rightarrow> 'cb event_loop" where
  "cancel_if_set t el = (if t \<ge> 0 then el_cancelTimer t el else el)"

definition destroy_begin :: "server \<Rightarrow> server" where
  "destroy_begin sv =
     (let sv = sv\<lparr>sv_base := cancel_if_set (sv_stats_timer_id sv) (cancel_if_set (sv_idle_timer_id sv) (sv_base sv))\<rparr>;
          s = sv_tcp sv
      in sv\<lparr>sv_tcp := s\<lparr>ts_pool := pool_stop (ts_pool s), ts_log := ts_log s @ map Closed (map fst (ts_conns s))\<rparr>\<rparr>)"

text \<open>The table is cleared, the listening descriptor is closed, and the member \<open>accept_channel_\<close> is destroyed.\<close>

definition destroy_end :: "server \<Rightarrow> server" where
  "destroy_end sv =
     (let s = (sv_tcp sv)\<lparr>ts_conns := []\<rparr>;
          s = (if sv_listen_fd sv \<ge> 0 then log_effect (Closed (sv_listen_fd sv)) s else s);
          sv = sv\<lparr>sv_tcp := s\<rparr>
      in case sv_accept_channel sv of
           None \<Rightarrow> sv
         | Some ch \<Rightarrow> sv\<lparr>sv_accept_channel := None, sv_base_poller := snd (disableAll (ch, sv_base_poller sv))\<rparr>)"

definition tcp_destroy :: "server \<Rightarrow> server option" where
  "tcp_destroy sv = map_option destroy_end (destroy_conns (map snd (ts_conns (sv_tcp sv))) (destroy_begin sv))"

text \<open>
  \<open>reportStats\<close>, which the timer calls: the numbers of open and of all connections, the received megabytes and the
  idle connections that were closed.
\<close>

definition stats_text :: "tcp \<Rightarrow> string" where
  "stats_text s =
     bytes [0xE7, 0xBB, 0x9F, 0xE8, 0xAE, 0xA1, 0xEF, 0xBC, 0x9A, 0xE5, 0x9C, 0xA8, 0xE7, 0xBA, 0xBF] @ '' '' @ show_nat (aliveConnections s) @
     bytes [0xEF, 0xBC, 0x8C, 0xE7, 0xB4, 0xAF, 0xE8, 0xAE, 0xA1, 0xE8, 0xBF, 0x9E, 0xE6, 0x8E, 0xA5] @ '' '' @ show_nat (unat (ts_conn_count s)) @
     bytes [0xEF, 0xBC, 0x8C, 0xE7, 0xB4, 0xAF, 0xE8, 0xAE, 0xA1, 0xE6, 0x8E, 0xA5, 0xE6, 0x94, 0xB6] @ '' '' @ fmt_fixed 2 (dbl (dbl (dbl (of_nat (unat (ts_recv_bytes s))) / 1024) / 1024)) @
     '' MB'' @ bytes [0xEF, 0xBC, 0x8C, 0xE7, 0xA9, 0xBA, 0xE9, 0x97, 0xB2, 0xE6, 0xB8, 0x85, 0xE7, 0x90, 0x86] @ '' '' @ show_nat (unat (ts_closed_idle s))"

definition reportStats :: "log_level \<Rightarrow> string \<Rightarrow> string \<Rightarrow> tcp \<Rightarrow> string" where
  "reportStats threshold file ts s = mn_log threshold Info file 301 ts (stats_text s)"

section \<open>The program\<close>

text \<open>\<open>std::stoi\<close> throws where the result is \<open>None\<close>: no digits, or a number that is no \<open>int\<close>.\<close>

definition stoi :: "string \<Rightarrow> int option" where
  "stoi s = (case strtol10 s of None \<Rightarrow> None | Some v \<Rightarrow> if int32 v then Some v else None)"

definition arg_or :: "string list \<Rightarrow> nat \<Rightarrow> int \<Rightarrow> int option" where
  "arg_or args k d = (if length args > k then stoi (args ! k) else Some d)"

text \<open>The arguments with the name of the program first: port, idle limit in seconds, number of threads.\<close>

definition main_args :: "string list \<Rightarrow> (16 word \<times> int \<times> int) option" where
  "main_args args =
     (case arg_or args 1 8080 of
        None \<Rightarrow> None
      | Some p \<Rightarrow>
          (case arg_or args 2 30 of
             None \<Rightarrow> None
           | Some idle \<Rightarrow> (case arg_or args 3 4 of None \<Rightarrow> None | Some threads \<Rightarrow> Some (word_of_int p, idle, threads))))"

text \<open>\<open>HttpServer::start\<close> hands its settings to a new transport server and starts it.\<close>

definition http_start :: "socket_answers \<Rightarrow> epoll_ctl \<Rightarrow> int \<Rightarrow> (string \<Rightarrow> nat) \<Rightarrow> base_cb event_loop \<Rightarrow> base_cb poller \<Rightarrow>
    16 word \<Rightarrow> int \<Rightarrow> int \<Rightarrow> server" where
  "http_start sa ctl now loop_of el po port threads idle = tcp_start sa ctl now loop_of (new_server el po port threads idle)"

text \<open>
  What the metrics source of the application returns: the metrics of the server, to which the
  provider appends those of the application. The server is the one at the time of the call.
\<close>

definition metrics_source :: "int \<Rightarrow> tcp \<Rightarrow> app http \<Rightarrow> service \<Rightarrow> string" where
  "metrics_source uptime s h svc = buildMetrics uptime (Some s) (Some (\<lambda>out. appendMetrics out svc)) h"

text \<open>
  \<open>main\<close> up to \<open>loop.loop()\<close>: the state of the application and the HTTP server, and the started transport.
  \<open>po\<close> is the table of the base loop, which has its wake-up channel, and \<open>src\<close> the metrics source.
\<close>

definition main_start :: "string list \<Rightarrow> socket_answers \<Rightarrow> epoll_ctl \<Rightarrow> int \<Rightarrow> (string \<Rightarrow> nat) \<Rightarrow> fd \<Rightarrow> base_cb poller \<Rightarrow>
    (service \<Rightarrow> string) \<Rightarrow> (app http \<times> server) option" where
  "main_start args sa ctl now loop_of efd po src =
     (case main_args args of
        None \<Rightarrow> None
      | Some (port, idle, threads) \<Rightarrow>
          Some (new_HttpServer (setMetricsSource src (main_app (unat port))),
                http_start sa ctl now loop_of (new_EventLoop efd) po port threads idle))"

section \<open>Lemmas\<close>

lemma erase_timer_fresh: "\<forall>t \<in> set ts. tt_id t \<noteq> i \<Longrightarrow> erase_timer i (ts @ us) = ts @ erase_timer i us"
  by (induction ts) auto

lemma log_level_filter: "mn_log th lv file line ts body = [] \<longleftrightarrow> lv < th"
  by (auto simp: mn_log_def logMessage_def not_le [symmetric])

text \<open>The statistics line is never cut by the buffer of the log.\<close>

lemma stats_text_length:
  assumes "aliveConnections s < 2 ^ 64"
  shows "length (stats_text s) < 512"
proof -
  let ?x = "dbl (dbl (dbl (of_nat (unat (ts_recv_bytes s))) / 1024) / 1024)"
  have bytes: "length (bytes xs) = length xs" for xs by (simp add: bytes_def)
  have n: "length (show_nat k) \<le> 20" if "k \<le> 2 ^ 65" for k using that by (intro show_nat_length) simp_all
  have lt: "unat w < 2 ^ 64" for w :: u64 using unsigned_less [of w] by simp
  then have u: "unat w \<le> 2 ^ 65" for w :: u64 using order_less_trans [OF lt, of "2 ^ 65" w] by simp
  have d: "0 \<le> dbl (y / 1024)" "dbl (y / 1024) \<le> y" if "0 \<le> y" for y
    using that dbl_nonneg [of "y / 1024"] dbl_above [of "y / 1024"] by simp_all
  note r = dbl_u64 [OF lt, of "ts_recv_bytes s"]
  have "0 \<le> ?x" "?x \<le> of_nat (2 ^ 65)" using d(1) [OF d(1) [OF r(1)]] d(2) [OF d(1) [OF r(1)]] d(2) [OF r(1)] r(2) by linarith+
  then have "length (fmt_fixed 2 ?x) \<le> 24" using n [OF fixed_whole [of ?x "2 ^ 65" 2]] by (simp add: fmt_fixed_def Let_def)
  moreover have "length (show_nat (aliveConnections s)) \<le> 20" using assms by (intro n) simp
  ultimately show ?thesis using n [OF u, of "ts_conn_count s"] n [OF u, of "ts_closed_idle s"] by (simp add: stats_text_def bytes)
qed

text \<open>Connections whose loop is gone when their channel is destroyed.\<close>

definition orphan :: "tcp \<Rightarrow> u64 \<Rightarrow> bool" where
  "orphan s i \<longleftrightarrow> (case um_find (ts_store s) i of None \<Rightarrow> False | Some c \<Rightarrow> ch_in_poller (cn_channel c) \<and> cn_owner c \<noteq> 0)"

lemma destroy_conn_fields:
  assumes "destroy_conn i sv = Some sv'"
  shows "sv_listen_fd sv' = sv_listen_fd sv" "sv_accept_channel sv' = sv_accept_channel sv" "sv_base sv' = sv_base sv"
    "sv_base_poller sv' = sv_base_poller sv" "ts_log (sv_tcp sv') = ts_log (sv_tcp sv)" "ts_pool (sv_tcp sv') = ts_pool (sv_tcp sv)"
    "orphan (sv_tcp sv') j = orphan (sv_tcp sv) j"
  using assms
  by (auto simp: destroy_conn_def orphan_def chan_op_def Let_def update_conv' disableAll_def removeChannel_def
      split: option.splits prod.splits if_splits)

lemma destroy_conn_None: "destroy_conn i sv = None \<longleftrightarrow> orphan (sv_tcp sv) i"
  by (auto simp: destroy_conn_def orphan_def split: option.split)

lemma destroy_conns_fields:
  "destroy_conns is sv = Some sv' \<Longrightarrow> sv_listen_fd sv' = sv_listen_fd sv \<and> sv_accept_channel sv' = sv_accept_channel sv \<and> sv_base sv' = sv_base sv \<and>
     sv_base_poller sv' = sv_base_poller sv \<and> ts_log (sv_tcp sv') = ts_log (sv_tcp sv) \<and> ts_pool (sv_tcp sv') = ts_pool (sv_tcp sv)"
proof (induction "is" arbitrary: sv)
  case (Cons i "is")
  then obtain sv1 where "destroy_conn i sv = Some sv1" "destroy_conns is sv1 = Some sv'" by (auto split: option.splits)
  with Cons.IH [of sv1] destroy_conn_fields [of i sv sv1] show ?case by simp
qed simp

lemma destroy_conns_None: "destroy_conns is sv = None \<longleftrightarrow> (\<exists>i \<in> set is. orphan (sv_tcp sv) i)"
proof (induction "is" arbitrary: sv)
  case (Cons i "is")
  show ?case
  proof (cases "destroy_conn i sv")
    case None
    then show ?thesis using destroy_conn_None [of i sv] by simp
  next
    case (Some sv1)
    then have "\<not> orphan (sv_tcp sv) i" using destroy_conn_None [of i sv] by simp
    with Cons.IH [of sv1] destroy_conn_fields(7) [OF Some] Some show ?thesis by simp
  qed
qed simp

lemma tcp_destroy_None: "tcp_destroy sv = None \<longleftrightarrow> (\<exists>i \<in> snd ` set (ts_conns (sv_tcp sv)). orphan (sv_tcp sv) i)"
proof -
  have "orphan (sv_tcp (destroy_begin sv)) i = orphan (sv_tcp sv) i" for i by (simp add: destroy_begin_def Let_def orphan_def)
  then show ?thesis by (simp add: tcp_destroy_def destroy_conns_None)
qed

lemma tcp_destroy_eq:
  assumes "tcp_destroy sv = Some sv'"
  shows "ts_conns (sv_tcp sv') = []"
    "ts_log (sv_tcp sv') = ts_log (sv_tcp sv) @ map Closed (map fst (ts_conns (sv_tcp sv))) @ (if sv_listen_fd sv \<ge> 0 then [Closed (sv_listen_fd sv)] else [])"
    "sv_base sv' = cancel_if_set (sv_stats_timer_id sv) (cancel_if_set (sv_idle_timer_id sv) (sv_base sv))"
    "sv_base_poller sv' = (case sv_accept_channel sv of None \<Rightarrow> sv_base_poller sv | Some ch \<Rightarrow> snd (disableAll (ch, sv_base_poller sv)))"
    "ts_pool (sv_tcp sv') = pool_stop (ts_pool (sv_tcp sv))"
proof -
  obtain v where v: "destroy_conns (map snd (ts_conns (sv_tcp sv))) (destroy_begin sv) = Some v" "sv' = destroy_end v"
    using assms by (auto simp: tcp_destroy_def)
  note f = destroy_conns_fields [OF v(1)]
  show "ts_conns (sv_tcp sv') = []" by (simp add: v(2) destroy_end_def Let_def split: option.split)
  show "ts_log (sv_tcp sv') = ts_log (sv_tcp sv) @ map Closed (map fst (ts_conns (sv_tcp sv))) @ (if sv_listen_fd sv \<ge> 0 then [Closed (sv_listen_fd sv)] else [])"
    using f by (simp add: v(2) destroy_end_def destroy_begin_def Let_def split: option.split)
  show "sv_base sv' = cancel_if_set (sv_stats_timer_id sv) (cancel_if_set (sv_idle_timer_id sv) (sv_base sv))"
    "ts_pool (sv_tcp sv') = pool_stop (ts_pool (sv_tcp sv))"
    "sv_base_poller sv' = (case sv_accept_channel sv of None \<Rightarrow> sv_base_poller sv | Some ch \<Rightarrow> snd (disableAll (ch, sv_base_poller sv)))"
    using f by (simp_all add: v(2) destroy_end_def destroy_begin_def Let_def split: option.split)
qed

lemma pool_start_threads:
  "lp_threads (pool_start loop_of name (setThreadNum n (new_EventLoopThreadPool b))) = map (\<lambda>k. name @ ''-'' @ show_nat k) [0..<nat n]"
  "lp_stopped (pool_start loop_of name (setThreadNum n (new_EventLoopThreadPool b))) = []"
  using start_threads_loops [of loop_of name 0 "nat n" "setThreadNum n (new_EventLoopThreadPool b)"]
  by (auto simp: pool_start_def setThreadNum_def new_EventLoopThreadPool_def)

lemma enableReading_add:
  "um_find po f = None \<Longrightarrow> ctl EPOLL_CTL_ADD f (EPOLLIN OR EPOLLRDHUP OR EPOLLET) = None \<Longrightarrow>
   enableReading ctl ptr ((new_Channel f)\<lparr>ch_read_cb := cb\<rparr>, po) =
     ((new_Channel f)\<lparr>ch_events := EPOLLIN OR EPOLLRDHUP OR EPOLLET, ch_in_poller := True, ch_read_cb := cb\<rparr>, um_put f ptr po)"
  by (simp add: enableReading_def updateChannel_def register_def new_Channel_def)

lemma um_erase_put: "um_find po f = None \<Longrightarrow> um_erase f (um_put f x po) = po"
  by (induction po) (auto simp: map_of_eq_None_iff AList.delete_eq filter_id_conv)

section \<open>Properties\<close>



text \<open>
  The destructor after the pool. The destructor stops the loops of the pool before it destroys the
  connections, and the channel of a connection that is still registered calls its loop: the
  destructor uses a loop that no longer exists exactly if the table holds a registered
  connection of a pool loop.
\<close>

theorem destroy_touches_dead_loop:
  "tcp_destroy sv = None \<longleftrightarrow>
     (\<exists>f i c. (f, i) \<in> set (ts_conns (sv_tcp sv)) \<and> um_find (ts_store (sv_tcp sv)) i = Some c \<and> ch_in_poller (cn_channel c) \<and> cn_owner c \<noteq> 0)"
  by (force simp: tcp_destroy_None orphan_def split: option.splits)

text \<open>The command line of the program: the defaults, and a port that does not fit is reduced modulo 65536.\<close>

lemma main_args_cases:
  "main_args [p] = Some (8080, 30, 4)"
  "stoi s = Some v \<Longrightarrow> main_args [p, s] = Some (word_of_int v, 30, 4)"
  "stoi s = None \<Longrightarrow> main_args (p # s # args) = None"
  by (simp_all add: main_args_def arg_or_def)

text \<open>
  A failure to bind is only logged: \<open>main\<close> goes on to its loop with no accept handler and no timer.
\<close>

lemma failed_bind_goes_on:
  assumes "main_args args = Some (port, idle, threads)" "sa_socket sa = Some f" "\<not> sa_bind sa"
  shows "\<exists>h sv. main_start args sa ctl now loop_of efd po src = Some (h, sv) \<and> sv_accept_channel sv = None \<and> el_timers (sv_base sv) = [] \<and>
    sv_base_poller sv = po"
  using assms by (simp add: main_start_def http_start_def tcp_start_def new_server_def new_EventLoop_def)

end
