(* ===== verification/BenchText.thy ===== *)
theory BenchText
  imports Doubles
begin

text \<open>
  \<open>bench/echo_bench.cc\<close>, the load generator, first part: text helpers, the command line and the
  request it sends. The texts of error messages are left out: an \<open>arg_error\<close> carries what the message
  mentions. \<open>getopt_long\<close> is an argument: the options it found, as pairs of code and argument, with
  \<open>0\<close> for a code that is not in the table. \<open>strtod\<close> is a parameter: whether it
  sets \<open>errno\<close>, the value, which may be NaN, and the text it leaves.
\<close>

section \<open>Constants\<close>

definition kReadBudget :: nat where "kReadBudget = 16"
definition kWriteBudget :: nat where "kWriteBudget = 64"
definition kMaxResponseHeader :: nat where "kMaxResponseHeader = 64 * 1024"
definition kMaxLatencySamples :: int where "kMaxLatencySamples = 4000000"
definition kMaxOutBuffer :: nat where "kMaxOutBuffer = 8 * 1024 * 1024"
definition kScanIntervalNs :: u64 where "kScanIntervalNs = 100 * 1000 * 1000"

section \<open>Text helpers\<close>

text \<open>\<open>withCommas\<close>: a comma before every digit whose distance to the end is a multiple of three.\<close>

fun commas_loop :: "string \<Rightarrow> nat \<Rightarrow> string" where
  "commas_loop [] i = []"
| "commas_loop (d # ds) i = (if i > 0 \<and> length (d # ds) mod 3 = 0 then '','' else []) @ [d] @ commas_loop ds (i + 1)"

definition withCommas :: "int \<Rightarrow> string" where
  "withCommas v = (let out = commas_loop (show_nat (nat \<bar>v\<bar>)) 0 in if v < 0 then ''-'' @ out else out)"

definition toLower :: "string \<Rightarrow> string" where
  "toLower s = map tolower s"

definition toupper :: "char \<Rightarrow> char" where
  "toupper c = (if islower c then char_of (byte_val c - 32) else c)"

text \<open>\<open>trim\<close> with its two index loops.\<close>

function trim_b :: "string \<Rightarrow> nat \<Rightarrow> nat \<Rightarrow> nat" where
  "trim_b s b e = (if b < e \<and> (s ! b = CHR '' '' \<or> s ! b = TAB) then trim_b s (b + 1) e else b)"
  by pat_completeness auto
termination by (relation "measure (\<lambda>(s, b, e). e - b)") auto

function trim_e :: "string \<Rightarrow> nat \<Rightarrow> nat \<Rightarrow> nat" where
  "trim_e s b e =
     (if e > b \<and> (s ! (e - 1) = CHR '' '' \<or> s ! (e - 1) = TAB \<or> s ! (e - 1) = CR) then trim_e s b (e - 1) else e)"
  by pat_completeness auto
termination by (relation "measure (\<lambda>(s, b, e). e)") auto

declare trim_b.simps [simp del] trim_e.simps [simp del]

definition bench_trim :: "string \<Rightarrow> string" where
  "bench_trim s = (let b = trim_b s 0 (length s); e = trim_e s b (length s) in take (e - b) (drop b s))"

text \<open>\<open>expandPlaceholder\<close>: \<open>%d\<close> becomes the index of the connection, \<open>%%\<close> a percent sign.\<close>

fun expandPlaceholder :: "string \<Rightarrow> int \<Rightarrow> string" where
  "expandPlaceholder (x # y # s) i =
     (if x = CHR ''%'' \<and> y = CHR ''d'' then show_int i @ expandPlaceholder s i
      else if x = CHR ''%'' \<and> y = CHR ''%'' then ''%'' @ expandPlaceholder s i
      else x # expandPlaceholder (y # s) i)"
| "expandPlaceholder s i = s"

definition makeEchoPayload :: "nat \<Rightarrow> string" where
  "makeEchoPayload n = map (\<lambda>i. char_of (byte_val (CHR ''a'') + i mod 26)) [0..<n]"

section \<open>Command line\<close>

text \<open>
  \<open>strtol\<close> as \<open>parseIntArg\<close> uses it: the value, whether it was out of the range of \<open>long\<close>, and whether
  everything was converted.
\<close>

definition strtol_digits :: "string \<Rightarrow> bool \<times> string \<times> string" where
  "strtol_digits s =
     (let t = dropWhile isspace (c_str s);
          u = (if t \<noteq> [] \<and> (hd t = CHR ''-'' \<or> hd t = CHR ''+'') then tl t else t)
      in (t \<noteq> [] \<and> hd t = CHR ''-'', takeWhile isdigit u, dropWhile isdigit u))"

datatype arg_error = NotInteger string string | NotInRange string int int int | BadDuration string | UnknownOption |
  BadMode string | NeedsDuration | BufferTooLarge

definition parseIntArg :: "string \<Rightarrow> string \<Rightarrow> int \<Rightarrow> int \<Rightarrow> arg_error + int" where
  "parseIntArg name s lo hi =
     (let (neg, ds, rest) = strtol_digits s;
          v = (if neg then - dec_val 0 ds else dec_val 0 ds)
      in if ds = [] \<or> rest \<noteq> [] \<or> v < - (2 ^ 63) \<or> v > 2 ^ 63 - 1 then Inl (NotInteger name s)
         else if v < lo \<or> v > hi then Inl (NotInRange name lo hi v)
         else Inr v)"

record options =
  o_host :: string
  o_port :: int
  o_conns :: int
  o_requests :: int
  o_size :: int
  o_mode :: string
  o_pipeline :: int
  o_path :: string
  o_method :: string
  o_body :: string
  o_expect_status :: "int list"
  o_timeout_ms :: int
  o_connect_timeout_ms :: int
  o_duration :: dnum
  o_source_ip_count :: int
  o_reuse_port :: bool
  o_nodelay :: bool
  o_verify :: bool
  o_label :: string
  o_json_out :: string

definition default_options :: options where
  "default_options = \<lparr>o_host = ''127.0.0.1'', o_port = 8080, o_conns = 100, o_requests = 1000, o_size = 64, o_mode = ''echo'',
     o_pipeline = 1, o_path = [], o_method = [], o_body = [], o_expect_status = [], o_timeout_ms = 5000,
     o_connect_timeout_ms = 5000, o_duration = Fin 0, o_source_ip_count = 1, o_reuse_port = True, o_nodelay = False,
     o_verify = True, o_label = [], o_json_out = []\<rparr>"

text \<open>The list of status codes: parts between commas, empty parts skipped.\<close>

function expect_loop :: "string \<Rightarrow> int list \<Rightarrow> arg_error + int list" where
  "expect_loop s acc =
     (let one = bench_trim (takeWhile (\<lambda>c. c \<noteq> CHR '','') s);
          rest = dropWhile (\<lambda>c. c \<noteq> CHR '','') s;
          r = (if one = [] then Inr acc
               else (case parseIntArg ''--expect-status'' one 100 599 of Inl e \<Rightarrow> Inl e | Inr v \<Rightarrow> Inr (acc @ [v])))
      in case r of
           Inl e \<Rightarrow> Inl e
         | Inr acc \<Rightarrow> if rest = [] then Inr acc else expect_loop (tl rest) acc)"
  by pat_completeness auto
termination
proof (relation "measure (\<lambda>(s, acc). length s)", goal_cases)
  case (2 s acc one rest r acc')
  then have "length rest \<le> length s" "rest \<noteq> []" by (simp_all add: length_dropWhile_le)
  then show ?case by (cases rest) auto
qed simp

declare expect_loop.simps [simp del]

definition int_opt :: "string \<Rightarrow> string \<Rightarrow> int \<Rightarrow> int \<Rightarrow> (int \<Rightarrow> options) \<Rightarrow> arg_error + options" where
  "int_opt name a lo hi f = (case parseIntArg name a lo hi of Inl e \<Rightarrow> Inl e | Inr v \<Rightarrow> Inr (f v))"

type_synonym strtod = "string \<Rightarrow> bool \<times> dnum \<times> string"

definition parse_option :: "strtod \<Rightarrow> nat \<Rightarrow> string \<Rightarrow> options \<Rightarrow> arg_error + options" where
  "parse_option strtod c a opt =
     (if c = 1000 then Inr (opt\<lparr>o_host := a\<rparr>)
      else if c = 1001 then int_opt ''--port'' a 1 65535 (\<lambda>v. opt\<lparr>o_port := v\<rparr>)
      else if c = 1002 then int_opt ''--conns'' a 1 1000000 (\<lambda>v. opt\<lparr>o_conns := v\<rparr>)
      else if c = 1003 then int_opt ''--requests'' a 0 1000000000 (\<lambda>v. opt\<lparr>o_requests := v\<rparr>)
      else if c = 1004 then int_opt ''--size'' a 1 (1024 * 1024) (\<lambda>v. opt\<lparr>o_size := v\<rparr>)
      else if c = 1005 then Inr (opt\<lparr>o_mode := toLower a\<rparr>)
      else if c = 1006 then int_opt ''--pipeline'' a 1 4096 (\<lambda>v. opt\<lparr>o_pipeline := v\<rparr>)
      else if c = 1007 then Inr (opt\<lparr>o_path := a\<rparr>)
      else if c = 1008 then Inr (opt\<lparr>o_method := a\<rparr>)
      else if c = 1009 then Inr (opt\<lparr>o_body := a\<rparr>)
      else if c = 1010 then (case expect_loop a (o_expect_status opt) of Inl e \<Rightarrow> Inl e | Inr vs \<Rightarrow> Inr (opt\<lparr>o_expect_status := vs\<rparr>))
      else if c = 1011 then int_opt ''--timeout-ms'' a 1 3600000 (\<lambda>v. opt\<lparr>o_timeout_ms := v\<rparr>)
      else if c = 1012 then
        (let (range, d, rest) = strtod a
         in if range \<or> rest = a \<or> rest \<noteq> [] \<or> below d 0 \<or> above d 86400 then Inl (BadDuration a) else Inr (opt\<lparr>o_duration := d\<rparr>))
      else if c = 1013 then int_opt ''--source-ip-count'' a 1 254 (\<lambda>v. opt\<lparr>o_source_ip_count := v\<rparr>)
      else if c = 1014 then Inr (opt\<lparr>o_reuse_port := False\<rparr>)
      else if c = 1015 then Inr (opt\<lparr>o_nodelay := True\<rparr>)
      else if c = 1016 then Inr (opt\<lparr>o_verify := False\<rparr>)
      else if c = 1017 then Inr (opt\<lparr>o_label := a\<rparr>)
      else if c = 1018 then Inr (opt\<lparr>o_json_out := a\<rparr>)
      else if c = 1019 then int_opt ''--connect-timeout-ms'' a 1 3600000 (\<lambda>v. opt\<lparr>o_connect_timeout_ms := v\<rparr>)
      else Inl UnknownOption)"

text \<open>The checks across options and the defaults of the HTTP mode.\<close>

definition default_path :: "options \<Rightarrow> options" where
  "default_path opt =
     (let opt = (if o_path opt = [] then opt\<lparr>o_path := ''/healthz''\<rparr> else opt)
      in if hd (o_path opt) \<noteq> CHR ''/'' then opt\<lparr>o_path := ''/'' @ o_path opt\<rparr> else opt)"

definition default_method :: "options \<Rightarrow> options" where
  "default_method opt =
     (let opt = (if o_method opt = [] then opt\<lparr>o_method := (if starts_with (o_path opt) ''/api/shorten'' then ''POST'' else ''GET'')\<rparr> else opt)
      in opt\<lparr>o_method := map toupper (o_method opt)\<rparr>)"

definition default_body :: "options \<Rightarrow> options" where
  "default_body opt =
     (if o_method opt = ''POST'' \<and> o_body opt = []
      then opt\<lparr>o_body := ''{'' @ [DQ] @ ''url'' @ [DQ] @ '':'' @ [DQ] @ ''https://example.com/bench'' @ [DQ] @ ''}''\<rparr> else opt)"

definition default_status :: "options \<Rightarrow> options" where
  "default_status opt =
     (if o_expect_status opt = [] then opt\<lparr>o_expect_status := [if o_method opt = ''POST'' then 201 else 200]\<rparr> else opt)"

definition http_defaults :: "options \<Rightarrow> options" where
  "http_defaults opt = default_status (default_body (default_method (default_path opt)))"

definition check_options :: "options \<Rightarrow> arg_error + options" where
  "check_options opt =
     (if o_mode opt \<noteq> ''echo'' \<and> o_mode opt \<noteq> ''http'' then Inl (BadMode (o_mode opt))
      else if o_requests opt = 0 \<and> at_most (o_duration opt) 0 then Inl NeedsDuration
      else if nat (o_size opt) * nat (o_pipeline opt) > kMaxOutBuffer then Inl BufferTooLarge
      else if o_mode opt = ''http'' then Inr (http_defaults opt)
      else Inr opt)"

datatype parsed_args = Usage | BadArgs arg_error | Args options

fun parse_loop :: "strtod \<Rightarrow> (nat \<times> string) list \<Rightarrow> options \<Rightarrow> parsed_args" where
  "parse_loop strtod [] opt = (case check_options opt of Inl e \<Rightarrow> BadArgs e | Inr opt \<Rightarrow> Args opt)"
| "parse_loop strtod ((c, a) # opts) opt =
     (if c = byte_val (CHR ''h'') then Usage
      else (case parse_option strtod c a opt of Inl e \<Rightarrow> BadArgs e | Inr opt \<Rightarrow> parse_loop strtod opts opt))"

definition parseArgs :: "strtod \<Rightarrow> (nat \<times> string) list \<Rightarrow> parsed_args" where
  "parseArgs strtod opts = parse_loop strtod opts default_options"

section \<open>The request\<close>

definition buildHttpRequest :: "options \<Rightarrow> string \<Rightarrow> int \<Rightarrow> string" where
  "buildHttpRequest opt host_header i =
     (let path = expandPlaceholder (o_path opt) i;
          body = expandPlaceholder (o_body opt) i
      in o_method opt @ '' '' @ path @ '' HTTP/1.1'' @ CRLF
         @ ''Host: '' @ host_header @ CRLF
         @ ''User-Agent: mini-net-echo_bench/1.0'' @ CRLF
         @ ''Accept: */*'' @ CRLF
         @ ''Connection: keep-alive'' @ CRLF
         @ (if body \<noteq> [] then ''Content-Type: application/json'' @ CRLF @ ''Content-Length: '' @ show_nat (length body) @ CRLF else [])
         @ CRLF
         @ body)"


section \<open>Accepted command lines\<close>

text \<open>A duration that is accepted: a number of seconds from 0 to 86400, or NaN, of which both comparisons are false.\<close>

fun duration_ok :: "dnum \<Rightarrow> bool" where
  "duration_ok (Fin x) = (0 \<le> x \<and> x \<le> 86400)"
| "duration_ok MinusZero = True"
| "duration_ok (Infty neg) = False"
| "duration_ok (NaN neg) = True"

lemma duration_ok_iff: "duration_ok d \<longleftrightarrow> \<not> below d 0 \<and> \<not> above d 86400"
  by (cases d) auto

definition in_ranges :: "options \<Rightarrow> bool" where
  "in_ranges opt \<longleftrightarrow>
     1 \<le> o_port opt \<and> o_port opt \<le> 65535 \<and> 1 \<le> o_conns opt \<and> o_conns opt \<le> 1000000 \<and>
     0 \<le> o_requests opt \<and> o_requests opt \<le> 1000000000 \<and> 1 \<le> o_size opt \<and> o_size opt \<le> 1048576 \<and>
     1 \<le> o_pipeline opt \<and> o_pipeline opt \<le> 4096 \<and> 1 \<le> o_timeout_ms opt \<and> o_timeout_ms opt \<le> 3600000 \<and>
     1 \<le> o_connect_timeout_ms opt \<and> o_connect_timeout_ms opt \<le> 3600000 \<and> duration_ok (o_duration opt) \<and>
     1 \<le> o_source_ip_count opt \<and> o_source_ip_count opt \<le> 254 \<and> (\<forall>v \<in> set (o_expect_status opt). 100 \<le> v \<and> v \<le> 599)"

lemma parseIntArg_range: "parseIntArg name s lo hi = Inr v \<Longrightarrow> lo \<le> v \<and> v \<le> hi"
  by (auto simp: parseIntArg_def Let_def split: if_splits prod.splits)

lemma int_opt_range: "int_opt name a lo hi f = Inr opt \<Longrightarrow> \<exists>v. lo \<le> v \<and> v \<le> hi \<and> opt = f v"
  by (auto simp: int_opt_def dest: parseIntArg_range split: sum.splits)

lemma expect_loop_range:
  "expect_loop s acc = Inr vs \<Longrightarrow> \<forall>v \<in> set acc. 100 \<le> v \<and> v \<le> 599 \<Longrightarrow> \<forall>v \<in> set vs. 100 \<le> v \<and> v \<le> 599"
proof (induction s acc rule: expect_loop.induct)
  case (1 s acc)
  let ?one = "bench_trim (takeWhile (\<lambda>c. c \<noteq> CHR '','') s)" and ?rest = "dropWhile (\<lambda>c. c \<noteq> CHR '','') s"
  let ?r = "if ?one = [] then Inr acc
    else (case parseIntArg ''--expect-status'' ?one 100 599 of Inl e \<Rightarrow> Inl e | Inr v \<Rightarrow> Inr (acc @ [v]))"
  obtain acc1 where r: "?r = Inr acc1"
    using "1.prems"(1) by (subst (asm) expect_loop.simps) (auto simp: Let_def split: sum.splits if_splits)
  have a: "\<forall>v \<in> set acc1. 100 \<le> v \<and> v \<le> 599"
    using r "1.prems"(2) by (auto split: if_splits sum.splits dest: parseIntArg_range)
  have e: "expect_loop s acc = (if ?rest = [] then Inr acc1 else expect_loop (tl ?rest) acc1)"
    using r by (subst expect_loop.simps) (simp only: Let_def sum.case)
  show ?case
  proof (cases "?rest = []")
    case True
    with e a "1.prems"(1) show ?thesis by simp
  next
    case False
    then have "expect_loop (tl ?rest) acc1 = Inr vs" using e "1.prems"(1) by (simp only: if_False)
    then show ?thesis using "1.IH" [OF refl refl refl r False _ a] by blast
  qed
qed

lemma if_InrE: "(if b then x else y) = Inr z \<Longrightarrow> (x = Inr z \<Longrightarrow> P) \<Longrightarrow> (y = Inr z \<Longrightarrow> P) \<Longrightarrow> P"
  by (simp split: if_splits)

lemma parse_option_range:
  assumes "parse_option strtod c a opt = Inr opt'" "in_ranges opt"
  shows "in_ranges opt'"
proof -
  have i: "int_opt name a lo hi f = Inr opt' \<Longrightarrow> (\<And>v. lo \<le> v \<Longrightarrow> v \<le> hi \<Longrightarrow> in_ranges (f v)) \<Longrightarrow> in_ranges opt'" for name lo hi f
    using int_opt_range by metis
  have ex: "in_ranges opt'" if e: "(case expect_loop a (o_expect_status opt) of Inl e \<Rightarrow> Inl e | Inr vs \<Rightarrow> Inr (opt\<lparr>o_expect_status := vs\<rparr>)) = Inr opt'"
  proof -
    obtain vs where v: "expect_loop a (o_expect_status opt) = Inr vs" "opt' = opt\<lparr>o_expect_status := vs\<rparr>" using e by (auto split: sum.splits)
    moreover have "\<forall>v \<in> set (o_expect_status opt). 100 \<le> v \<and> v \<le> 599" using assms(2) by (simp add: in_ranges_def)
    ultimately show ?thesis using assms(2) expect_loop_range [of a "o_expect_status opt" vs] by (simp add: in_ranges_def)
  qed
  have du: "in_ranges opt'" if "(let (range, d, rest) = strtod a
      in if range \<or> rest = a \<or> rest \<noteq> [] \<or> below d 0 \<or> above d 86400 then Inl (BadDuration a) else Inr (opt\<lparr>o_duration := d\<rparr>)) = Inr opt'"
    using that assms(2) by (auto simp: in_ranges_def duration_ok_iff split: prod.splits if_splits)
  note r = assms(2) [unfolded in_ranges_def]
  from assms(1) show ?thesis
    unfolding parse_option_def
    by (elim if_InrE ex du i) (use r in \<open>auto simp: in_ranges_def\<close>)
qed

definition same_limits :: "options \<Rightarrow> options \<Rightarrow> bool" where
  "same_limits opt opt' \<longleftrightarrow>
     o_port opt' = o_port opt \<and> o_conns opt' = o_conns opt \<and> o_requests opt' = o_requests opt \<and> o_size opt' = o_size opt \<and>
     o_pipeline opt' = o_pipeline opt \<and> o_mode opt' = o_mode opt \<and> o_timeout_ms opt' = o_timeout_ms opt \<and>
     o_connect_timeout_ms opt' = o_connect_timeout_ms opt \<and> o_duration opt' = o_duration opt \<and>
     o_source_ip_count opt' = o_source_ip_count opt"

lemma default_limits:
  "same_limits opt (default_path opt)" "same_limits opt (default_method opt)" "same_limits opt (default_body opt)" "same_limits opt (default_status opt)"
  by (simp_all add: same_limits_def default_path_def default_method_def default_body_def default_status_def Let_def)

lemma http_defaults_limits: "same_limits opt (http_defaults opt)"
proof -
  have t: "same_limits x z" if "same_limits x y" "same_limits y z" for x y z using that by (simp add: same_limits_def)
  show ?thesis unfolding http_defaults_def by (rule t [OF t [OF t [OF default_limits(1) default_limits(2)] default_limits(3)] default_limits(4)])
qed

lemmas http_defaults_fields = http_defaults_limits [unfolded same_limits_def]

lemma http_defaults_status:
  "o_expect_status (http_defaults opt) \<noteq> []"
  "set (o_expect_status (http_defaults opt)) \<subseteq> set (o_expect_status opt) \<union> {200, 201}"
proof -
  have "o_expect_status (default_body (default_method (default_path opt))) = o_expect_status opt"
    by (simp add: default_path_def default_method_def default_body_def Let_def)
  then show "o_expect_status (http_defaults opt) \<noteq> []" "set (o_expect_status (http_defaults opt)) \<subseteq> set (o_expect_status opt) \<union> {200, 201}"
    by (auto simp: http_defaults_def default_status_def)
qed

lemma http_defaults_path: "\<exists>p. o_path (http_defaults opt) = CHR ''/'' # p"
proof -
  have "o_path (http_defaults opt) = o_path (default_path opt)"
    by (simp add: http_defaults_def default_method_def default_body_def default_status_def Let_def)
  then show ?thesis by (cases "o_path opt") (simp_all add: default_path_def Let_def)
qed

lemma parse_loop_checked:
  "parse_loop strtod opts opt = Args opt' \<Longrightarrow> in_ranges opt \<Longrightarrow> \<exists>o1. in_ranges o1 \<and> check_options o1 = Inr opt'"
proof (induction opts arbitrary: opt)
  case (Cons ca opts)
  obtain c a where ca: "ca = (c, a)" by fastforce
  then show ?case using Cons.prems Cons.IH parse_option_range [of strtod c a opt] by (auto split: if_splits sum.splits)
qed (auto split: sum.splits)

lemma default_in_ranges: "in_ranges default_options"
  by (simp add: in_ranges_def default_options_def)

lemma parseArgs_ranges_in: "parseArgs strtod opts = Args opt \<Longrightarrow> in_ranges opt"
proof -
  assume "parseArgs strtod opts = Args opt"
  then obtain o1 where "in_ranges o1" "check_options o1 = Inr opt"
    using parse_loop_checked default_in_ranges by (metis parseArgs_def)
  then show ?thesis using http_defaults_status(2) [of o1] http_defaults_fields [of o1] by (auto simp: check_options_def in_ranges_def split: if_splits)
qed



text \<open>The exception does occur: neither bound, and the command line is accepted.\<close>

lemma nan_duration_accepted:
  "\<exists>opt. parseArgs (\<lambda>s. (False, NaN False, [])) [(1003, ''0''), (1012, ''nan'')] = Args opt \<and>
     o_requests opt = 0 \<and> \<not> above (o_duration opt) 0"
proof -
  have "parseIntArg ''--requests'' ''0'' 0 1000000000 = Inr 0"
    by (simp add: parseIntArg_def strtol_digits_def c_str_def isspace_def isdigit_def)
  then show ?thesis by (simp add: parseArgs_def parse_option_def int_opt_def check_options_def at_most_def default_options_def kMaxOutBuffer_def)
qed

end
