(* ===== verification/BenchClient.thy ===== *)
theory BenchClient
  imports BenchText Channel Doubles
begin

text \<open>
  \<open>bench/echo_bench.cc\<close>, second part: the connections of the load generator and its event loop. A
  handler acts on a pair of the state of the class \<open>Bench\<close> and the connection it was called for. The
  answers of the kernel that are still to come are part of the state: of \<open>send\<close>, of \<open>recv\<close> (an
  empty read is the end of the stream) and of the clock; where there is none left, the calls answer
  \<open>EAGAIN\<close> and the clock stands still. Error texts are left out: the histogram of errors and the first
  error keep the category. Name resolution, the trial connection and the port budget are in \<open>BenchMain\<close>, the
  report and the JSON file in \<open>BenchReport\<close>.
\<close>

section \<open>State\<close>

datatype client_state = CConnecting | CWaiting | CReady | CDone | CFailed

datatype category = ConnectFailed | PortsExhausted | ConnectRefused | ConnectTimeout | EpollFailed | SendFailed | RecvFailed |
  ParseFailed | EchoMismatch | PeerClosed | ReadTimeout

record client =
  bc_fd :: fd
  bc_ev_mask :: u32
  bc_state :: client_state
  bc_src_ip :: string
  bc_req :: string
  bc_out :: string
  bc_out_off :: nat
  bc_in :: string
  bc_in_off :: nat
  bc_sent_req :: int
  bc_done_req :: int
  bc_inflight :: int
  bc_ts :: "u64 list"
  bc_ts_head :: nat
  bc_last_progress :: u64
  bc_echo_recv :: u64
  bc_echo_partial :: u64

definition new_client :: client where
  "new_client = \<lparr>bc_fd = -1, bc_ev_mask = 0, bc_state = CConnecting, bc_src_ip = [], bc_req = [], bc_out = [], bc_out_off = 0,
     bc_in = [], bc_in_off = 0, bc_sent_req = 0, bc_done_req = 0, bc_inflight = 0, bc_ts = [], bc_ts_head = 0,
     bc_last_progress = 0, bc_echo_recv = 0, bc_echo_partial = 0\<rparr>"

record bench =
  bn_opts :: options
  bn_http_mode :: bool
  bn_duration_mode :: bool
  bn_target_is_loopback :: bool
  bn_host_header :: string
  bn_src_ips :: "string list"
  bn_echo_payload :: string
  bn_conns :: "client list"
  bn_alive_count :: nat
  bn_connecting_count :: int
  bn_started :: bool
  bn_setup_start_ns :: u64
  bn_t0_ns :: u64
  bn_t1_ns :: u64
  bn_deadline_ns :: u64
  bn_last_scan_ns :: u64
  bn_timeout_ns :: u64
  bn_connect_timeout_ns :: u64
  bn_ok :: int
  bn_bad_status :: int
  bn_failed :: int
  bn_conn_failed :: int
  bn_lat_dropped :: int
  bn_lat_ns :: "u64 list"
  bn_status_hist :: "(int, int) umap"
  bn_err_hist :: "(category, int) umap"
  bn_first_error :: "category option"
  bn_total_bytes_in :: u64
  bn_total_bytes_out :: u64
  bn_clock :: "u64 list"
  bn_now :: u64
  bn_sends :: "(errno + nat) list"
  bn_recvs :: "(errno + string) list"
  bn_epoll_mod :: "fd \<Rightarrow> u32 \<Rightarrow> bool"
  bn_overread :: bool

text \<open>\<open>memcmp\<close> past the end of the payload has no defined result: \<open>bn_overread\<close> marks it.\<close>

definition nowNs :: "bench \<Rightarrow> u64 \<times> bench" where
  "nowNs s = (case bn_clock s of [] \<Rightarrow> (bn_now s, s) | t # ts \<Rightarrow> (t, s\<lparr>bn_clock := ts, bn_now := t\<rparr>))"

definition next_send :: "bench \<Rightarrow> (errno + nat) \<times> bench" where
  "next_send s = (case bn_sends s of [] \<Rightarrow> (Inl EAGAIN, s) | x # xs \<Rightarrow> (x, s\<lparr>bn_sends := xs\<rparr>))"

definition next_recv :: "bench \<Rightarrow> (errno + string) \<times> bench" where
  "next_recv s = (case bn_recvs s of [] \<Rightarrow> (Inl EAGAIN, s) | x # xs \<Rightarrow> (x, s\<lparr>bn_recvs := xs\<rparr>))"

definition hist_inc :: "'k \<Rightarrow> ('k, int) umap \<Rightarrow> ('k, int) umap" where
  "hist_inc k m = um_put k (case um_find m k of None \<Rightarrow> 1 | Some n \<Rightarrow> n + 1) m"

definition set_progress :: "bench \<times> client \<Rightarrow> bench \<times> client" where
  "set_progress w = (let (t, s) = nowNs (fst w) in (s, (snd w)\<lparr>bc_last_progress := t\<rparr>))"

section \<open>Opening and closing\<close>

definition alive :: "client \<Rightarrow> bool" where
  "alive c \<longleftrightarrow> bc_fd c \<ge> 0 \<and> bc_state c \<noteq> CDone \<and> bc_state c \<noteq> CFailed"

definition bench_closeConn :: "bool \<Rightarrow> bench \<times> client \<Rightarrow> bench \<times> client" where
  "bench_closeConn success w =
     (let c = (if bc_fd (snd w) \<ge> 0 then (snd w)\<lparr>bc_fd := -1\<rparr> else snd w)
      in ((fst w)\<lparr>bn_alive_count := bn_alive_count (fst w) - 1\<rparr>, c\<lparr>bc_state := (if success then CDone else CFailed)\<rparr>))"

definition failConn :: "category \<Rightarrow> bench \<times> client \<Rightarrow> bench \<times> client" where
  "failConn cat w =
     (let s = fst w; c = snd w
      in if bc_state c = CFailed \<or> bc_state c = CDone then w
         else
           (let s = (if bc_state c = CConnecting \<and> bn_connecting_count s > 0
                     then s\<lparr>bn_connecting_count := bn_connecting_count s - 1\<rparr> else s);
                lost = (if bn_duration_mode s then bc_inflight c else o_requests (bn_opts s) - bc_done_req c);
                s = (if lost > 0 then s\<lparr>bn_failed := bn_failed s + lost\<rparr> else s);
                s = s\<lparr>bn_conn_failed := bn_conn_failed s + 1, bn_err_hist := hist_inc cat (bn_err_hist s),
                      bn_first_error := (if bn_first_error s = None then Some cat else bn_first_error s)\<rparr>
            in bench_closeConn False (s, c)))"

definition updateEvents :: "bench \<times> client \<Rightarrow> bench \<times> client" where
  "updateEvents w =
     (let s = fst w; c = snd w
      in if bc_fd c < 0 then w
         else
           (let want = (if bc_state c = CConnecting \<or> bc_out_off c < length (bc_out c) then EPOLLIN OR EPOLLOUT else EPOLLIN)
            in if want = bc_ev_mask c then w
               else if bn_epoll_mod s (bc_fd c) want then (s, c\<lparr>bc_ev_mask := want\<rparr>)
               else failConn EpollFailed w))"

section \<open>Sending\<close>

definition moreRequests :: "client \<Rightarrow> bench \<Rightarrow> bool \<times> bench" where
  "moreRequests c s =
     (if bn_duration_mode s then (let (t, s) = nowNs s in (t < bn_deadline_ns s, s))
      else (bc_sent_req c < o_requests (bn_opts s), s))"

lemma nowNs_opts: "nowNs s = (t, s') \<Longrightarrow> bn_opts s' = bn_opts s"
  by (auto simp: nowNs_def split: list.splits)

lemma moreRequests_opts: "moreRequests c s = (b, s') \<Longrightarrow> bn_opts s' = bn_opts s"
  by (auto simp: moreRequests_def Let_def dest: nowNs_opts split: if_splits prod.splits)

function refill_loop :: "bench \<times> client \<Rightarrow> bench \<times> client" where
  "refill_loop w =
     (if bc_inflight (snd w) < o_pipeline (bn_opts (fst w)) then
        (case moreRequests (snd w) (fst w) of
           (False, s) \<Rightarrow> (s, snd w)
         | (True, s) \<Rightarrow>
             (let c = (if bc_ts_head (snd w) = length (bc_ts (snd w)) then (snd w)\<lparr>bc_ts := [], bc_ts_head := 0\<rparr> else snd w);
                  (t, s) = nowNs s
              in refill_loop (s, c\<lparr>bc_ts := bc_ts c @ [t], bc_out := bc_out c @ bc_req c,
                   bc_inflight := bc_inflight c + 1, bc_sent_req := bc_sent_req c + 1\<rparr>)))
      else w)"
  by pat_completeness auto
termination
proof (relation "measure (\<lambda>w. nat (o_pipeline (bn_opts (fst w)) - bc_inflight (snd w)))", goal_cases)
  case (2 w b s c p t s')
  then have "bn_opts s' = bn_opts (fst w)" by (auto dest!: nowNs_opts [OF sym] moreRequests_opts [OF sym])
  with 2 show ?case by simp
qed simp

declare refill_loop.simps [simp del]

definition refill :: "bench \<times> client \<Rightarrow> bench \<times> client" where
  "refill w = (if bc_state (snd w) \<noteq> CReady then w else refill_loop w)"

lemma next_send_shorter: "next_send s = (x, s') \<Longrightarrow> x = Inl EAGAIN \<or> length (bn_sends s') < length (bn_sends s)"
  by (auto simp: next_send_def split: list.splits)

lemma nowNs_sends: "nowNs s = (t, s') \<Longrightarrow> bn_sends s' = bn_sends s"
  by (auto simp: nowNs_def split: list.splits)

function flushOut :: "bench \<times> client \<Rightarrow> bool \<times> bench \<times> client" where
  "flushOut w =
     (if bc_out_off (snd w) < length (bc_out (snd w)) then
        (case next_send (fst w) of
           (Inr n, s) \<Rightarrow>
             if n > 0 then
               (let c = (snd w)\<lparr>bc_out_off := bc_out_off (snd w) + n\<rparr>;
                    (t, s) = nowNs s
                in flushOut (s\<lparr>bn_total_bytes_out := bn_total_bytes_out s + of_nat n\<rparr>, c\<lparr>bc_last_progress := t\<rparr>))
             else (False, failConn SendFailed (s, snd w))
         | (Inl er, s) \<Rightarrow>
             if er = EINTR then flushOut (s, snd w)
             else if er = EAGAIN then (False, updateEvents (s, snd w))
             else (False, failConn SendFailed (s, snd w)))
      else (True, updateEvents (fst w, (snd w)\<lparr>bc_out := [], bc_out_off := 0\<rparr>)))"
  by pat_completeness auto
termination
proof (relation "measure (\<lambda>w. length (bn_sends (fst w)))", goal_cases)
  case (2 w)
  then show ?case by (auto simp: EINTR_def EAGAIN_def dest!: next_send_shorter [OF sym])
next
  case (3 w)
  then show ?case by (auto dest!: nowNs_sends [OF sym] next_send_shorter [OF sym])
qed simp

declare flushOut.simps [simp del]

fun pump_loop :: "nat \<Rightarrow> bench \<times> client \<Rightarrow> bench \<times> client" where
  "pump_loop 0 w = w"
| "pump_loop (Suc k) w =
     (if bc_state (snd w) \<noteq> CReady then w
      else (case flushOut w of
              (False, w) \<Rightarrow> w
            | (True, w) \<Rightarrow> (let w = refill w in if bc_out (snd w) = [] then w else pump_loop k w)))"

definition pump :: "bench \<times> client \<Rightarrow> bench \<times> client" where
  "pump w = pump_loop kWriteBudget w"


section \<open>Receiving\<close>

text \<open>
  \<open>verifyChunk\<close> compares the \<open>n\<close> bytes received at offset \<open>base\<close> of the stream with the payload in two
  pieces. The second comparison is only defined if it stays within the payload.
\<close>

definition verifyChunk :: "string \<Rightarrow> u64 \<Rightarrow> string \<Rightarrow> bool option" where
  "verifyChunk payload base buf =
     (let sz = length payload; n = length buf
      in if sz = 0 \<or> n = 0 then Some True
         else
           (let start = unat base mod sz;
                fst_n = min n (sz - start)
            in if take fst_n buf \<noteq> take fst_n (drop start payload) then Some False
               else if n > fst_n then (if n - fst_n > sz then None else Some (drop fst_n buf = take (n - fst_n) payload))
               else Some True))"

definition find_from :: "string \<Rightarrow> string \<Rightarrow> nat \<Rightarrow> nat option" where
  "find_from pat s pos = map_option (\<lambda>i. pos + i) (find_sub pat (drop pos s))"

text \<open>\<open>atoi\<close> keeps the low 32 bits of what \<open>strtol\<close> returns; without digits both are 0.\<close>

definition atoll :: "string \<Rightarrow> int" where
  "atoll s = (case strtol10 s of None \<Rightarrow> 0 | Some v \<Rightarrow> v)"

definition atoi :: "string \<Rightarrow> int" where
  "atoi s = sint (word_of_int (atoll s) :: 32 word)"

datatype bad_response = HeaderTooLarge | NotHttp | NoStatusCode | BadStatusCode int | ChunkedResponse | NoContentLength

datatype bench_parse = BNeedMore | BComplete int nat | BError bad_response

text \<open>The scan of the header lines for the two headers of interest.\<close>

function header_scan :: "string \<Rightarrow> nat \<Rightarrow> nat \<Rightarrow> int \<times> bool \<Rightarrow> int \<times> bool" where
  "header_scan inn hdr_end p acc =
     (if p < hdr_end then
        (case find_from CRLF inn p of
           None \<Rightarrow> acc
         | Some e \<Rightarrow>
             if e > hdr_end then acc
             else
               (let acc = (case find_char (CHR '':'') inn p of
                     None \<Rightarrow> acc
                   | Some colon \<Rightarrow>
                       if colon < e then
                         (let key = toLower (take (colon - p) (drop p inn));
                              val = bench_trim (take (e - colon - 1) (drop (colon + 1) inn))
                          in if key = ''content-length'' then (atoll val, snd acc)
                             else if key = ''transfer-encoding'' \<and> find_sub ''chunked'' (toLower val) \<noteq> None then (fst acc, True)
                             else acc)
                       else acc)
                in header_scan inn hdr_end (e + 2) acc))
      else acc)"
  by pat_completeness auto
termination
proof (relation "measure (\<lambda>(inn, hdr_end, p, acc). hdr_end - p)", goal_cases)
  case (2 inn hdr_end p acc e)
  then have "p \<le> e" by (auto simp: find_from_def)
  with 2 show ?case by simp
qed simp

declare header_scan.simps [simp del]

text \<open>\<open>parseOne\<close> on the input and its offset; with \<open>BComplete\<close> come the status and the new offset.\<close>

definition parseOne :: "string \<Rightarrow> nat \<Rightarrow> bench_parse" where
  "parseOne inn off =
     (let avail = length inn - off
      in if avail < 16 then BNeedMore
         else
           (case find_from (CRLF @ CRLF) inn off of
              None \<Rightarrow> if avail > kMaxResponseHeader then BError HeaderTooLarge else BNeedMore
            | Some hdr_end \<Rightarrow>
                (let body_start = hdr_end + 4
                 in case find_from CRLF inn off of
                      None \<Rightarrow> BError NotHttp
                    | Some line_end \<Rightarrow>
                        if line_end \<le> off \<or> take 5 (drop off inn) \<noteq> ''HTTP/'' then BError NotHttp
                        else
                          (case find_char (CHR '' '') inn off of
                             None \<Rightarrow> BError NoStatusCode
                           | Some sp \<Rightarrow>
                               if sp \<ge> line_end then BError NoStatusCode
                               else
                                 (let status = atoi (drop (sp + 1) inn)
                                  in if status < 100 \<or> status > 599 then BError (BadStatusCode status)
                                     else
                                       (let (content_length, chunked) = header_scan inn hdr_end (line_end + 2) (-1, False)
                                        in if chunked then BError ChunkedResponse
                                           else if content_length < 0 then BError NoContentLength
                                           else if length inn - body_start < nat content_length then BNeedMore
                                           else BComplete status (body_start + nat content_length)))))))"

text \<open>\<open>onResponseComplete\<close>: the time of the oldest request that waits, the counts and the latency sample.\<close>

definition pop_ts :: "bench \<times> client \<Rightarrow> u64 \<times> bench \<times> client" where
  "pop_ts w =
     (let c = snd w
      in if bc_ts_head c < length (bc_ts c) then
           (let sent_at = bc_ts c ! bc_ts_head c;
                c = c\<lparr>bc_ts_head := bc_ts_head c + 1\<rparr>;
                (t, s) = nowNs (fst w)
            in (t - sent_at, s, if bc_ts_head c = length (bc_ts c) then c\<lparr>bc_ts := [], bc_ts_head := 0\<rparr> else c))
         else (0, w))"

definition one_done :: "client \<Rightarrow> client" where
  "one_done c =
     (let c = (if bc_inflight c > 0 then c\<lparr>bc_inflight := bc_inflight c - 1\<rparr> else c)
      in c\<lparr>bc_done_req := bc_done_req c + 1\<rparr>)"

definition count_status :: "int \<Rightarrow> bench \<Rightarrow> bench" where
  "count_status status s =
     (if bn_http_mode s then
        (let s = s\<lparr>bn_status_hist := hist_inc status (bn_status_hist s)\<rparr>
         in if status \<in> set (o_expect_status (bn_opts s)) then s\<lparr>bn_ok := bn_ok s + 1\<rparr>
            else s\<lparr>bn_bad_status := bn_bad_status s + 1\<rparr>)
      else s\<lparr>bn_ok := bn_ok s + 1\<rparr>)"

definition add_latency :: "u64 \<Rightarrow> bench \<Rightarrow> bench" where
  "add_latency lat s =
     (if lat > 0 then
        (if int (length (bn_lat_ns s)) < kMaxLatencySamples then s\<lparr>bn_lat_ns := bn_lat_ns s @ [lat]\<rparr>
         else s\<lparr>bn_lat_dropped := bn_lat_dropped s + 1\<rparr>)
      else s)"

definition onResponseComplete :: "int \<Rightarrow> bench \<times> client \<Rightarrow> bench \<times> client" where
  "onResponseComplete status w =
     (let (lat, s, c) = pop_ts w;
          (s, c) = set_progress (s, one_done c)
      in (add_latency lat (count_status status s), c))"

lemma parseOne_progress: "parseOne inn off = BComplete status off' \<Longrightarrow> off < off' \<and> off < length inn"
  by (auto simp: parseOne_def find_from_def Let_def split: if_splits option.splits prod.splits)

lemma onResponseComplete_in [simp]:
  "bc_in (snd (onResponseComplete st w)) = bc_in (snd w)" "bc_in_off (snd (onResponseComplete st w)) = bc_in_off (snd w)"
  by (auto simp: onResponseComplete_def pop_ts_def one_done_def set_progress_def Let_def split: prod.split)

text \<open>\<open>drainHttp\<close>: every complete response in the input, then the consumed bytes are given back.\<close>

function drain_loop :: "bench \<times> client \<Rightarrow> bool \<times> bench \<times> client" where
  "drain_loop w =
     (case parseOne (bc_in (snd w)) (bc_in_off (snd w)) of
        BNeedMore \<Rightarrow> (True, w)
      | BError e \<Rightarrow> (False, failConn ParseFailed w)
      | BComplete status off \<Rightarrow> drain_loop (onResponseComplete status (fst w, (snd w)\<lparr>bc_in_off := off\<rparr>)))"
  by pat_completeness auto
termination
  by (relation "measure (\<lambda>w. length (bc_in (snd w)) - bc_in_off (snd w))") (auto dest!: parseOne_progress)

declare drain_loop.simps [simp del]

definition drainHttp :: "bench \<times> client \<Rightarrow> bool \<times> bench \<times> client" where
  "drainHttp w =
     (case drain_loop w of
        (False, w) \<Rightarrow> (False, w)
      | (True, w) \<Rightarrow>
          (let c = snd w
           in (True, fst w,
               if bc_in_off c = length (bc_in c) then c\<lparr>bc_in := [], bc_in_off := 0\<rparr>
               else if bc_in_off c > 8192 then c\<lparr>bc_in := drop (bc_in_off c) (bc_in c), bc_in_off := 0\<rparr>
               else c)))"

text \<open>
  The echo protocol: a response is as long as a request. The command line admits only sizes from 1
  on; with size 0 the loop of the code would not end.
\<close>

lemma onResponseComplete_echo [simp]: "bc_echo_partial (snd (onResponseComplete st w)) = bc_echo_partial (snd w)"
  by (auto simp: onResponseComplete_def pop_ts_def one_done_def set_progress_def Let_def split: prod.split)

function echo_loop :: "u64 \<Rightarrow> bench \<times> client \<Rightarrow> bench \<times> client" where
  "echo_loop one w =
     (if 0 < one \<and> one \<le> bc_echo_partial (snd w)
      then echo_loop one (onResponseComplete 0 (fst w, (snd w)\<lparr>bc_echo_partial := bc_echo_partial (snd w) - one\<rparr>))
      else w)"
  by pat_completeness auto
termination
  by (relation "measure (\<lambda>(one, w). unat (bc_echo_partial (snd w)))") (auto simp: word_less_nat_alt word_le_nat_alt unat_sub)

declare echo_loop.simps [simp del]

definition received_bytes :: "string \<Rightarrow> bench \<times> client \<Rightarrow> bool \<times> bench \<times> client" where
  "received_bytes buf w =
     (let got = length buf;
          (s, c) = set_progress w;
          s = s\<lparr>bn_total_bytes_in := bn_total_bytes_in s + of_nat got\<rparr>
      in if bn_http_mode s then drainHttp (s, c\<lparr>bc_in := bc_in c @ buf\<rparr>)
         else
           (case (if o_verify (bn_opts s) then verifyChunk (bn_echo_payload s) (bc_echo_recv c) buf else Some True) of
              None \<Rightarrow> (False, s\<lparr>bn_overread := True\<rparr>, c)
            | Some False \<Rightarrow> (False, failConn EchoMismatch (s, c))
            | Some True \<Rightarrow>
                (True, echo_loop (of_int (o_size (bn_opts s)))
                   (s, c\<lparr>bc_echo_recv := bc_echo_recv c + of_nat got, bc_echo_partial := bc_echo_partial c + of_nat got\<rparr>))))"

fun read_loop :: "nat \<Rightarrow> bench \<times> client \<Rightarrow> bool \<times> bench \<times> client" where
  "read_loop 0 w = (True, w)"
| "read_loop (Suc k) w =
     (case next_recv (fst w) of
        (Inr buf, s) \<Rightarrow>
          if buf \<noteq> [] then
            (case received_bytes buf (s, snd w) of (False, w) \<Rightarrow> (False, w) | (True, w) \<Rightarrow> read_loop k w)
          else
            (let c = snd w;
                 (more, s) = (if bc_inflight c > 0 then (True, s) else moreRequests c s)
             in (False, if more then failConn PeerClosed (s, c) else bench_closeConn True (s, c)))
      | (Inl er, s) \<Rightarrow>
          if er = EINTR then read_loop k (s, snd w)
          else if er = EAGAIN then (True, s, snd w)
          else (False, failConn RecvFailed (s, snd w)))"

definition doRead :: "bench \<times> client \<Rightarrow> bool \<times> bench \<times> client" where
  "doRead w = read_loop kReadBudget w"

section \<open>Events\<close>

definition maybeFinish :: "bench \<times> client \<Rightarrow> bench \<times> client" where
  "maybeFinish w =
     (if bc_state (snd w) \<noteq> CReady then w
      else (case moreRequests (snd w) (fst w) of
              (True, s) \<Rightarrow> (s, snd w)
            | (False, s) \<Rightarrow>
                if bc_inflight (snd w) > 0 then (s, snd w)
                else if bc_out_off (snd w) < length (bc_out (snd w)) then (s, snd w)
                else bench_closeConn True (s, snd w)))"

definition EACCES :: errno where "EACCES = 13"
definition EADDRINUSE :: errno where "EADDRINUSE = 98"
definition EADDRNOTAVAIL :: errno where "EADDRNOTAVAIL = 99"
definition ECONNREFUSED :: errno where "ECONNREFUSED = 111"
definition EINPROGRESS :: errno where "EINPROGRESS = 115"

text \<open>\<open>so_err\<close> is the answer of \<open>getsockopt(SO_ERROR)\<close>.\<close>

definition onEvent :: "u32 \<Rightarrow> errno + errno \<Rightarrow> bench \<times> client \<Rightarrow> bench \<times> client" where
  "onEvent events so_err w =
     (if \<not> alive (snd w) then w
      else if bc_state (snd w) = CConnecting then
        (case so_err of
           Inl er \<Rightarrow> failConn ConnectFailed w
         | Inr er \<Rightarrow>
             if er \<noteq> 0 then
               failConn (if er = EADDRNOTAVAIL \<or> er = EADDRINUSE \<or> er = EACCES then PortsExhausted
                         else if er = ECONNREFUSED then ConnectRefused else ConnectFailed) w
             else
               (let s = (if bn_connecting_count (fst w) > 0
                         then (fst w)\<lparr>bn_connecting_count := bn_connecting_count (fst w) - 1\<rparr> else fst w);
                    (s, c) = set_progress (s, snd w);
                    w = (if bn_started s then pump (s, c\<lparr>bc_state := CReady\<rparr>) else (s, c\<lparr>bc_state := CWaiting\<rparr>))
                in updateEvents w))
      else
        (case (if events AND (EPOLLIN OR EPOLLHUP OR EPOLLERR) \<noteq> 0 then doRead w else (True, w)) of
           (False, w) \<Rightarrow> w
         | (True, w) \<Rightarrow>
             if \<not> alive (snd w) then w
             else (let w = pump w in if \<not> alive (snd w) then w else maybeFinish w)))"

text \<open>A handler applied to the connection with an index.\<close>

definition with_conn :: "(bench \<times> client \<Rightarrow> bench \<times> client) \<Rightarrow> nat \<Rightarrow> bench \<Rightarrow> bench" where
  "with_conn f i s =
     (if i < length (bn_conns s)
      then (let (s', c) = f (s, bn_conns s ! i) in s'\<lparr>bn_conns := (bn_conns s')[i := c]\<rparr>)
      else s)"

definition each_conn :: "(bench \<times> client \<Rightarrow> bench \<times> client) \<Rightarrow> bench \<Rightarrow> bench" where
  "each_conn f s = fold (with_conn f) [0..<length (bn_conns s)] s"

definition start_conn :: "u64 \<Rightarrow> bench \<times> client \<Rightarrow> bench \<times> client" where
  "start_conn t0 w =
     (if bc_state (snd w) = CWaiting then pump (fst w, (snd w)\<lparr>bc_state := CReady, bc_last_progress := t0\<rparr>) else w)"

definition maybeStart :: "bench \<Rightarrow> bench" where
  "maybeStart s =
     (if bn_started s then s
      else if bn_connecting_count s > 0 then s
      else
        (let (t0, s) = nowNs (s\<lparr>bn_started := True\<rparr>);
             s = s\<lparr>bn_t0_ns := t0\<rparr>;
             s = (if bn_duration_mode s
                  then s\<lparr>bn_deadline_ns := t0 + of_int \<lfloor>dbl (number (o_duration (bn_opts s)) * 1000000000)\<rfloor>\<rparr> else s)
         in each_conn maybeFinish (each_conn (start_conn t0) s)))"

definition checkFinishes :: "bench \<Rightarrow> bench" where
  "checkFinishes s = each_conn (\<lambda>w. if bc_state (snd w) = CReady then maybeFinish w else w) s"

definition check_timeout :: "u64 \<Rightarrow> bench \<times> client \<Rightarrow> bench \<times> client" where
  "check_timeout now w =
     (let s = fst w; c = snd w
      in if \<not> alive c \<or> bc_state c = CWaiting then w
         else
           (let limit = (if bc_state c = CConnecting then bn_connect_timeout_ns s else bn_timeout_ns s)
            in if now - bc_last_progress c \<le> limit then w
               else if bc_state c = CConnecting then failConn ConnectTimeout w
               else failConn ReadTimeout w))"

definition checkTimeouts :: "bench \<Rightarrow> bench" where
  "checkTimeouts s = (let (now, s) = nowNs s in each_conn (check_timeout now) s)"

definition periodicScan :: "bench \<Rightarrow> bench" where
  "periodicScan s = checkTimeouts (checkFinishes s)"

section \<open>Setting up and running\<close>

definition prepareSourceIps :: "bench \<Rightarrow> bench" where
  "prepareSourceIps s =
     s\<lparr>bn_src_ips := (if \<not> bn_target_is_loopback s then [[]]
        else map (\<lambda>i. ''127.0.0.'' @ show_nat (i + 1)) [0..<nat (max 1 (o_source_ip_count (bn_opts s)))])\<rparr>"

text \<open>The answers of the kernel while one connection is opened.\<close>

record connect_answers =
  ca_socket :: "fd option"
  ca_bind :: bool
  ca_connect :: "errno option"
  ca_add :: bool

definition startConnect :: "connect_answers \<Rightarrow> nat \<Rightarrow> bench \<times> client \<Rightarrow> bool \<times> bench \<times> client" where
  "startConnect ca i w =
     (case ca_socket ca of
        None \<Rightarrow> (False, w)
      | Some f \<Rightarrow>
          if bc_src_ip (snd w) \<noteq> [] \<and> \<not> ca_bind ca then (False, w)
          else
            (let s = fst w;
                 c = (snd w)\<lparr>bc_fd := f, bc_req := (if bn_http_mode s then buildHttpRequest (bn_opts s) (bn_host_header s) (int i) else bn_echo_payload s)\<rparr>;
                 (s, c) = set_progress (s, c)
             in case ca_connect ca of
                  None \<Rightarrow> (True, s, c\<lparr>bc_state := CWaiting\<rparr>)
                | Some er \<Rightarrow>
                    if er = EINPROGRESS \<or> er = EINTR then (True, s, c\<lparr>bc_state := CConnecting\<rparr>)
                    else (False, s, c\<lparr>bc_fd := -1\<rparr>)))"

text \<open>One turn of the loop in \<open>setupConns\<close>; \<open>None\<close> ends the run with an error.\<close>

definition setup_one :: "connect_answers \<Rightarrow> nat \<Rightarrow> bench \<Rightarrow> bench option" where
  "setup_one ca i s =
     (case startConnect ca i (s, bn_conns s ! i) of
        (False, s, c) \<Rightarrow>
          if i = 0 then None
          else
            (let s = s\<lparr>bn_err_hist := hist_inc ConnectFailed (bn_err_hist s),
                       bn_first_error := (if bn_first_error s = None then Some ConnectFailed else bn_first_error s),
                       bn_failed := (if bn_duration_mode s then bn_failed s else bn_failed s + o_requests (bn_opts s)),
                       bn_conn_failed := bn_conn_failed s + 1\<rparr>
             in Some (s\<lparr>bn_conns := (bn_conns s)[i := c\<lparr>bc_state := CFailed, bc_fd := -1\<rparr>]\<rparr>))
      | (True, s, c) \<Rightarrow>
          (let s = s\<lparr>bn_alive_count := bn_alive_count s + 1,
                     bn_connecting_count := (if bc_state c = CConnecting then bn_connecting_count s + 1 else bn_connecting_count s)\<rparr>
           in if ca_add ca
              then Some (s\<lparr>bn_conns := (bn_conns s)[i := c\<lparr>bc_ev_mask := (if bc_state c = CConnecting then EPOLLIN OR EPOLLOUT else EPOLLIN)\<rparr>]\<rparr>)
              else None))"

fun setup_loop :: "connect_answers list \<Rightarrow> nat \<Rightarrow> bench \<Rightarrow> bench option" where
  "setup_loop [] i s = Some s"
| "setup_loop (ca # cas) i s = (case setup_one ca i s of None \<Rightarrow> None | Some s \<Rightarrow> setup_loop cas (i + 1) s)"

text \<open>\<open>cas\<close> has one entry per connection.\<close>

definition setupConns :: "connect_answers list \<Rightarrow> bench \<Rightarrow> bench option" where
  "setupConns cas s =
     (let s = s\<lparr>bn_conns := map (\<lambda>i. new_client\<lparr>bc_src_ip := bn_src_ips s ! (i mod length (bn_src_ips s))\<rparr>) [0..<nat (o_conns (bn_opts s))]\<rparr>
      in setup_loop cas 0 s)"

text \<open>One turn of the event loop of \<open>run\<close> on the events of one \<open>epoll_wait\<close>.\<close>

definition scan_if_due :: "bench \<Rightarrow> bench" where
  "scan_if_due s =
     (let (now, s) = nowNs s
      in if now - bn_last_scan_ns s \<ge> kScanIntervalNs then periodicScan (s\<lparr>bn_last_scan_ns := now\<rparr>) else s)"

definition turn :: "(nat \<times> u32 \<times> (errno + errno)) list \<Rightarrow> bench \<Rightarrow> bench" where
  "turn evs s = scan_if_due (maybeStart (fold (\<lambda>(i, ev, er). with_conn (onEvent ev er) i) evs s))"

fun event_loop_run :: "(errno + (nat \<times> u32 \<times> (errno + errno)) list) list \<Rightarrow> bench \<Rightarrow> bench" where
  "event_loop_run [] s = s"
| "event_loop_run (x # xs) s =
     (if bn_alive_count s = 0 then s
      else (case x of
              Inl er \<Rightarrow> if er = EINTR then event_loop_run xs s else s
            | Inr evs \<Rightarrow> event_loop_run xs (turn evs s)))"

text \<open>The state before the connections are set up, the exit code and the whole of \<open>run\<close>.\<close>

definition new_Bench :: "options \<Rightarrow> bool \<Rightarrow> bench" where
  "new_Bench opt loopback = \<lparr>bn_opts = opt, bn_http_mode = (o_mode opt = ''http''), bn_duration_mode = above (o_duration opt) 0,
     bn_target_is_loopback = loopback, bn_host_header = o_host opt @ '':'' @ show_int (o_port opt), bn_src_ips = [],
     bn_echo_payload = (if o_mode opt = ''http'' then [] else makeEchoPayload (nat (o_size opt))),
     bn_conns = [], bn_alive_count = 0, bn_connecting_count = 0, bn_started = False, bn_setup_start_ns = 0, bn_t0_ns = 0, bn_t1_ns = 0, bn_deadline_ns = 0,
     bn_last_scan_ns = 0, bn_timeout_ns = of_int (o_timeout_ms opt) * 1000000,
     bn_connect_timeout_ns = of_int (o_connect_timeout_ms opt) * 1000000, bn_ok = 0, bn_bad_status = 0, bn_failed = 0,
     bn_conn_failed = 0, bn_lat_dropped = 0, bn_lat_ns = [], bn_status_hist = [], bn_err_hist = [], bn_first_error = None,
     bn_total_bytes_in = 0, bn_total_bytes_out = 0, bn_clock = [], bn_now = 0, bn_sends = [], bn_recvs = [],
     bn_epoll_mod = (\<lambda>_ _. True), bn_overread = False\<rparr>"

definition exit_code :: "bench \<Rightarrow> int" where
  "exit_code s = (if bn_ok s = 0 \<and> bn_failed s > 0 then 2 else if bn_failed s > 0 \<or> bn_bad_status s > 0 then 3 else 0)"

text \<open>
  \<open>run\<close> from the point where the target is known: \<open>cas\<close> are the answers while the connections are
  opened, \<open>xs\<close> the results of \<open>epoll_wait\<close>; \<open>Inl\<close> is the exit code when the set-up fails. If \<open>xs\<close> ends before
  the connections do, the state is the one reached so far.
\<close>

definition bench_run :: "connect_answers list \<Rightarrow> (errno + (nat \<times> u32 \<times> (errno + errno)) list) list \<Rightarrow> bench \<Rightarrow> int + bench" where
  "bench_run cas xs s =
     (let s = prepareSourceIps s;
          (t, s) = nowNs s;
          s = s\<lparr>bn_setup_start_ns := t\<rparr>
      in case setupConns cas s of
           None \<Rightarrow> Inl 2
         | Some s \<Rightarrow>
             (let (t, s) = nowNs s;
                  s = event_loop_run xs (maybeStart (s\<lparr>bn_last_scan_ns := t\<rparr>));
                  (t1, s) = nowNs s
              in Inr (s\<lparr>bn_t1_ns := t1\<rparr>)))"

end
