(* ===== verification/BenchWire.thy ===== *)
theory BenchWire
  imports BenchClient HttpTypes
begin

text \<open>
  The two ends of the wire: the load generator understands the responses the server writes, and the
  server understands the requests the load generator writes.
\<close>

section \<open>Responses\<close>

lemma find_blank_skip:
  "CR \<notin> set l \<Longrightarrow> find_sub (CRLF @ CRLF) (l @ u) = map_option (\<lambda>i. length l + i) (find_sub (CRLF @ CRLF) u)"
  by (induction l; cases "find_sub (CRLF @ CRLF) u") auto

lemma colon_parts:
  "CHR '':'' \<notin> set k \<Longrightarrow> takeWhile (\<lambda>c. c \<noteq> CHR '':'') (k @ CHR '':'' # v) = k \<and> tl (dropWhile (\<lambda>c. c \<noteq> CHR '':'') (k @ CHR '':'' # v)) = v"
  by (induction k) auto

lemma find_blank_line:
  "ls \<noteq> [] \<Longrightarrow> list_all (\<lambda>l. l \<noteq> [] \<and> CR \<notin> set l) ls \<Longrightarrow>
   find_sub (CRLF @ CRLF) (unlines ls @ CRLF @ s) = Some (length (unlines ls) - 2)"
proof (induction ls)
  case (Cons l ls)
  note skip = find_blank_skip
  show ?case
  proof (cases ls)
    case Nil
    with Cons.prems skip [of l "CR # LF # CR # LF # s"] show ?thesis by (simp add: unlines_def)
  next
    case (Cons m ms)
    then obtain x xs where m: "m = x # xs" "x \<noteq> CR" using Cons.prems(2) by (cases m) auto
    have "find_sub (CRLF @ CRLF) (CRLF @ unlines ls @ CRLF @ s) = map_option (\<lambda>i. 2 + i) (find_sub (CRLF @ CRLF) (unlines ls @ CRLF @ s))"
      using m Cons by (simp add: unlines_def option.map_comp comp_def)
    moreover have "2 \<le> length (unlines ls)" using Cons by (simp add: unlines_def)
    ultimately show ?thesis
      using Cons.IH Cons.prems Cons skip [of l "CRLF @ unlines ls @ CRLF @ s"] by (simp add: unlines_def)
  qed
qed simp

text \<open>What the scan does with one header line.\<close>

definition scan_line :: "string \<Rightarrow> int \<times> bool \<Rightarrow> int \<times> bool" where
  "scan_line l acc =
     (let key = toLower (takeWhile (\<lambda>c. c \<noteq> CHR '':'') l);
          val = bench_trim (tl (dropWhile (\<lambda>c. c \<noteq> CHR '':'') l))
      in if key = ''content-length'' then (atoll val, snd acc)
         else if key = ''transfer-encoding'' \<and> find_sub ''chunked'' (toLower val) \<noteq> None then (fst acc, True)
         else acc)"

lemma header_scan_lines:
  "drop p inn = unlines ls @ CRLF @ s \<Longrightarrow> ls \<noteq> [] \<Longrightarrow> list_all (\<lambda>l. CR \<notin> set l \<and> CHR '':'' \<in> set l) ls \<Longrightarrow>
   hdr_end = p + length (unlines ls) - 2 \<Longrightarrow> header_scan inn hdr_end p acc = fold scan_line ls acc"
proof (induction ls arbitrary: p acc)
  case (Cons l ls)
  let ?e = "p + length l"
  obtain k v where l: "l = k @ CHR '':'' # v" "CHR '':'' \<notin> set k" using Cons.prems(3) by (auto dest: split_list_first)
  have d: "drop p inn = l @ CR # LF # unlines ls @ CRLF @ s" using Cons.prems(1) by (simp add: unlines_def)
  have eol: "find_from CRLF inn p = Some ?e" using Cons.prems(3) by (simp add: find_from_def d find_sub_line)
  have colon: "find_char (CHR '':'') inn p = Some (p + length k)"
    using first_index_hit [of k "\<lambda>x. x = CHR '':''" "CHR '':''" "v @ CR # LF # unlines ls @ CRLF @ s"] l by (auto simp: find_char_def d)
  have key: "take (length k) (drop p inn) = k" by (simp add: d l)
  have "drop (p + length k + 1) inn = drop (length k + 1) (drop p inn)" by (simp add: add.commute add.left_commute)
  then have val: "take (?e - (p + length k) - 1) (drop (p + length k + 1) inn) = v" by (simp add: d l)
  have parts: "takeWhile (\<lambda>c. c \<noteq> CHR '':'') l = k" "tl (dropWhile (\<lambda>c. c \<noteq> CHR '':'') l) = v"
    using colon_parts [OF l(2), of v] l(1) by simp_all
  have "p < hdr_end" "\<not> ?e > hdr_end" using Cons.prems(4) l by (auto simp: unlines_def)
  then have step: "header_scan inn hdr_end p acc = header_scan inn hdr_end (?e + 2) (scan_line l acc)"
    using eol colon key val parts l
    by (subst header_scan.simps) (simp add: scan_line_def Let_def)
  show ?case
  proof (cases "ls = []")
    case True
    then have "header_scan inn hdr_end (?e + 2) a = a" for a
      using Cons.prems(4) by (subst header_scan.simps) (simp add: unlines_def)
    with step True show ?thesis by simp
  next
    case False
    have "drop (?e + 2) inn = drop (length l + 2) (drop p inn)" by (simp add: add.commute add.left_commute)
    then have "drop (?e + 2) inn = unlines ls @ CRLF @ s" by (simp add: d)
    moreover have "hdr_end = ?e + 2 + length (unlines ls) - 2" using Cons.prems(4) by (simp add: unlines_def)
    ultimately show ?thesis using Cons.IH [of "?e + 2" "scan_line l acc"] False Cons.prems(3) step by simp
  qed
qed simp


lemma strtol10_number:
  assumes "int n < 2 ^ 63" "\<not> isdigit c" "c \<noteq> NUL"
  shows "strtol10 (show_nat n @ c # s) = Some (int n)"
proof -
  let ?s = "show_nat n"
  have dig: "\<forall>x \<in> set ?s. isdigit x" by (rule show_nat_digits)
  obtain d ds where s: "?s = d # ds" by (cases ?s) auto
  have d: "isdigit d" using dig s by simp
  have nz: "\<forall>x \<in> set ?s. x \<noteq> NUL" using dig isdigit_not_sign by blast
  have "c_str (?s @ c # s) = ?s @ c # c_str s"
    using nz assms(3) by (simp add: c_str_def takeWhile_append2)
  moreover have "takeWhile isdigit (?s @ c # c_str s) = ?s" using dig assms(2) by (simp add: takeWhile_append2)
  ultimately show ?thesis
    using d isdigit_not_space [of d] isdigit_not_sign [of d] assms(1) dec_val_show_nat [of n] s by (simp add: strtol10_def Let_def)
qed

lemma atoi_number:
  assumes "n < 2 ^ 31" "\<not> isdigit c" "c \<noteq> NUL"
  shows "atoi (show_nat n @ c # s) = int n"
proof -
  have "strtol10 (show_nat n @ c # s) = Some (int n)" using assms by (intro strtol10_number) simp_all
  moreover have "sint (word_of_int (int n) :: 32 word) = int n"
    using assms(1) by (simp add: sint_sbintrunc' signed_take_bit_int_eq_self del: of_int_of_nat_eq)
  ultimately show ?thesis by (simp add: atoi_def atoll_def)
qed


lemma trim_number: "bench_trim (CHR '' '' # show_nat n) = show_nat n"
proof -
  let ?s = "show_nat n"
  have dig: "isdigit (?s ! i)" if "i < length ?s" for i using that show_nat_digits [of n] by simp
  have ne: "?s \<noteq> []" by simp
  then have h: "isdigit (?s ! 0)" "isdigit (?s ! (length ?s - 1))" using dig by simp_all
  have "trim_b (CHR '' '' # ?s) 0 (Suc (length ?s)) = 1"
    using h(1) ne by (subst trim_b.simps, subst trim_b.simps) (auto simp: isdigit_def)
  moreover have "trim_e (CHR '' '' # ?s) 1 (Suc (length ?s)) = Suc (length ?s)"
    using h(2) ne by (subst trim_e.simps) (auto simp: isdigit_def nth_Cons split: nat.splits)
  ultimately show ?thesis by (simp add: bench_trim_def)
qed

lemma scan_line_key:
  "CHR '':'' \<notin> set k \<Longrightarrow> toLower k \<noteq> ''content-length'' \<Longrightarrow> toLower k \<noteq> ''transfer-encoding'' \<Longrightarrow> scan_line (k @ '': '' @ v) acc = acc"
  using colon_parts [of k "CHR '' '' # v"] by (simp add: scan_line_def)

lemma toLower_names:
  "toLower ''Content-Length'' = ''content-length''" "toLower ''Content-Type'' = ''content-type''" "toLower ''Connection'' = ''connection''"
  by code_simp+

lemma scan_line_length: "int n < 2 ^ 63 \<Longrightarrow> scan_line (''Content-Length: '' @ show_nat n) acc = (int n, snd acc)"
  using toLower_names(1) by (simp add: scan_line_def trim_number atoll_def strtol10_show_nat)

definition plain_headers :: "http_response \<Rightarrow> bool" where
  "plain_headers r \<longleftrightarrow> no_CR_headers r \<and>
     (\<forall>kv \<in> set (rs_extra_headers r). CHR '':'' \<notin> set (fst kv) \<and> toLower (fst kv) \<noteq> ''content-length'' \<and> toLower (fst kv) \<noteq> ''transfer-encoding'')"

lemma fold_plain:
  "\<forall>kv \<in> set hs. CHR '':'' \<notin> set (fst kv) \<and> toLower (fst kv) \<noteq> ''content-length'' \<and> toLower (fst kv) \<noteq> ''transfer-encoding'' \<Longrightarrow>
   fold scan_line (map (\<lambda>kv. fst kv @ '': '' @ snd kv) hs) acc = acc"
proof (induction hs arbitrary: acc)
  case (Cons kv hs)
  then have "scan_line (fst kv @ '': '' @ snd kv) acc = acc" by (intro scan_line_key) simp_all
  with Cons show ?case by simp
qed simp

lemma scan_head_lines:
  assumes "plain_headers r" "int (length (rs_body r)) < 2 ^ 63"
  shows "fold scan_line (tl (head_lines r)) (-1, False) = (int (length (rs_body r)), False)"
proof -
  have c: "scan_line (''Content-Type: '' @ rs_content_type r) a = a" for a
    using scan_line_key [of "''Content-Type''" "rs_content_type r" a] by (simp add: toLower_names)
  have d: "scan_line (if rs_keep_alive r then ''Connection: keep-alive'' else ''Connection: close'') a = a" for a
    using scan_line_key [of "''Connection''" "''keep-alive''" a] scan_line_key [of "''Connection''" "''close''" a]
    by (simp add: toLower_names)
  have e: "fold scan_line (map (\<lambda>kv. fst kv @ '': '' @ snd kv) (rs_extra_headers r)) a = a" for a
    using assms(1) by (intro fold_plain) (simp add: plain_headers_def)
  have "tl (head_lines r) = (''Content-Length: '' @ show_nat (length (rs_body r))) # (''Content-Type: '' @ rs_content_type r)
      # (if rs_keep_alive r then ''Connection: keep-alive'' else ''Connection: close'') # map (\<lambda>kv. fst kv @ '': '' @ snd kv) (rs_extra_headers r)"
    by (simp add: head_lines_def)
  then show ?thesis by (simp only: fold_simps c d e scan_line_length [OF assms(2)] snd_conv)
qed

lemma head_lines_shape:
  assumes "no_CR_headers r"
  shows "list_all (\<lambda>l. l \<noteq> [] \<and> CR \<notin> set l) (head_lines r)" "list_all (\<lambda>l. CR \<notin> set l \<and> CHR '':'' \<in> set l) (tl (head_lines r))"
  using assms by (auto simp: head_lines_def no_CR_headers_def list_all_iff)

text \<open>The scanner finds the end of a response of the server, whatever comes before and after it.\<close>

lemma parseOne_serialize:
  assumes "100 \<le> rs_status r" "rs_status r \<le> 599" "plain_headers r" "int (length (rs_body r)) < 2 ^ 63"
  shows "parseOne (pre @ serialize r @ rest) (length pre) = BComplete (rs_status r) (length pre + length (serialize r))"
proof -
  define st where "st = ''HTTP/1.1 '' @ show_int (rs_status r) @ '' '' @ reason (rs_status r)"
  define ls where "ls = tl (head_lines r)"
  let ?inn = "pre @ serialize r @ rest" and ?off = "length pre"
  have h: "head_lines r = st # ls" by (simp add: head_lines_def st_def ls_def)
  have shape: "list_all (\<lambda>l. l \<noteq> [] \<and> CR \<notin> set l) (head_lines r)" "list_all (\<lambda>l. CR \<notin> set l \<and> CHR '':'' \<in> set l) ls"
    using head_lines_shape assms(3) by (auto simp: plain_headers_def ls_def)
  have ls: "ls \<noteq> []" by (simp add: ls_def head_lines_def)
  have lines: "serialize r = unlines (head_lines r) @ CRLF @ rs_body r"
    using assms by (intro serialize_lines) (simp_all add: int32_def)
  then have ser: "serialize r = st @ CR # LF # unlines ls @ CRLF @ rs_body r" by (simp add: h unlines_def)
  have two: "2 \<le> length (unlines ls)" using ls by (cases ls) (simp_all add: unlines_def)
  have hdr: "find_from (CRLF @ CRLF) ?inn ?off = Some (?off + (length st + length (unlines ls)))"
    using find_blank_line [OF _ shape(1), of "rs_body r @ rest"] by (simp add: find_from_def lines h unlines_def)
  have eol: "find_from CRLF ?inn ?off = Some (?off + length st)"
    using shape(1) by (simp add: find_from_def ser h find_sub_line)
  have sp: "find_char (CHR '' '') ?inn ?off = Some (?off + 8)" by (simp add: find_char_def ser st_def)
  have status: "atoi (drop (?off + 8 + 1) ?inn) = rs_status r"
    using assms(1,2) atoi_number [of "nat (rs_status r)" "CHR '' ''"] by (simp add: ser st_def show_int_def isdigit_def)
  have scan: "header_scan ?inn (?off + (length st + length (unlines ls))) (?off + length st + 2) (-1, False) = (int (length (rs_body r)), False)"
    using header_scan_lines [of "?off + length st + 2" ?inn ls "rs_body r @ rest" "?off + (length st + length (unlines ls))" "(-1, False)"]
      ls shape(2) two scan_head_lines [OF assms(3,4)] by (simp add: ser ls_def)
  have ge: "\<not> length ?inn - ?off < 16" using two by (simp add: ser st_def)
  have five: "take 5 (drop ?off ?inn) = ''HTTP/''" "8 < length st" "st \<noteq> []" by (simp_all add: ser st_def)
  show ?thesis
    unfolding parseOne_def Let_def hdr eol option.case sp status scan prod.case using five ge assms(1,2) by (simp add: ser)
qed

definition set_off :: "nat \<Rightarrow> bench \<times> client \<Rightarrow> bench \<times> client" where
  "set_off n w = (fst w, (snd w)\<lparr>bc_in_off := n\<rparr>)"

lemma set_off_onResponseComplete: "onResponseComplete st (set_off n w) = set_off n (onResponseComplete st w)"
  by (auto simp: onResponseComplete_def pop_ts_def one_done_def set_off_def set_progress_def Let_def split: prod.split)

lemma set_off_set_off [simp]: "set_off m (set_off n w) = set_off m w" "bc_in (snd (set_off n w)) = bc_in (snd w)"
   "bc_in_off (snd (set_off n w)) = n"
  by (simp_all add: set_off_def)

lemma set_off_same: "bc_in_off (snd w) = n \<Longrightarrow> set_off n w = w"
  by (cases w) (auto simp: set_off_def intro: client.equality)

lemma drain_loop_responses:
  assumes "list_all (\<lambda>r. 100 \<le> rs_status r \<and> rs_status r \<le> 599 \<and> plain_headers r \<and> int (length (rs_body r)) < 2 ^ 63) rs"
    and "bc_in (snd w) = pre @ concat (map serialize rs)" "bc_in_off (snd w) = length pre"
  shows "drain_loop w = (True, set_off (length (bc_in (snd w))) (fold onResponseComplete (map rs_status rs) w))"
  using assms
proof (induction rs arbitrary: pre w)
  case Nil
  then have "set_off (length (bc_in (snd w))) w = w" by (intro set_off_same) simp
  with Nil show ?case by (subst drain_loop.simps) (simp add: parseOne_def)
next
  case (Cons r rs)
  let ?n = "length pre + length (serialize r)" and ?w = "onResponseComplete (rs_status r) w"
  have "parseOne (bc_in (snd w)) (bc_in_off (snd w)) = BComplete (rs_status r) ?n"
    using Cons.prems parseOne_serialize [of r pre "concat (map serialize rs)"] by simp
  then have "drain_loop w = drain_loop (set_off ?n ?w)"
    unfolding set_off_onResponseComplete [symmetric] by (subst drain_loop.simps) (simp add: set_off_def)
  also have "\<dots> = (True, set_off (length (bc_in (snd (set_off ?n ?w)))) (fold onResponseComplete (map rs_status rs) (set_off ?n ?w)))"
    using Cons.prems by (intro Cons.IH [of _ "pre @ serialize r"]) simp_all
  also have "fold onResponseComplete l (set_off n v) = set_off n (fold onResponseComplete l v)" for l n v
    by (induction l arbitrary: v) (simp_all add: set_off_onResponseComplete)
  finally show ?case by simp
qed

lemma drainHttp_responses:
  assumes "list_all (\<lambda>r. 100 \<le> rs_status r \<and> rs_status r \<le> 599 \<and> plain_headers r \<and> int (length (rs_body r)) < 2 ^ 63) rs"
    and "bc_in c = concat (map serialize rs)" "bc_in_off c = 0"
    and "fold onResponseComplete (map rs_status rs) (s, c) = (s', c')"
  shows "drainHttp (s, c) = (True, s', c'\<lparr>bc_in := [], bc_in_off := 0\<rparr>)"
proof -
  let ?n = "length (bc_in c)"
  have i: "bc_in (snd (fold onResponseComplete l w)) = bc_in (snd w)" for l w
    by (induction l arbitrary: w) simp_all
  have "drain_loop (s, c) = (True, set_off ?n (s', c'))"
    using drain_loop_responses [of rs "(s, c)" "[]"] assms by simp
  moreover have "bc_in c' = bc_in c" using i [of "map rs_status rs" "(s, c)"] assms(4) by simp
  ultimately show ?thesis by (simp add: drainHttp_def set_off_def)
qed

section \<open>Echoed data\<close>

text \<open>
  The comparison in two pieces is the comparison of every byte with the payload repeated for ever,
  as long as a chunk does not run past the second piece. A longer chunk whose first piece is
  right is compared past the end of the payload.
\<close>

lemma chunk_byte:
  assumes "k < (n :: nat)" "start < sz" "n \<le> (sz - start) + sz"
  shows "(start + k) mod sz = (if k < sz - start then start + k else k - (sz - start))"
proof (cases "k < sz - start")
  case False
  then have e: "start + k = sz + (k - (sz - start))" using assms by linarith
  have "k - (sz - start) < sz" using False assms by linarith
  moreover have "(start + k) mod sz = (k - (sz - start)) mod sz" unfolding e by simp
  ultimately show ?thesis using False by simp
qed (use assms in simp)

lemma same_piece: "st + m \<le> length ys \<Longrightarrow> m \<le> length xs \<Longrightarrow> take m xs = take m (drop st ys) \<longleftrightarrow> (\<forall>k < m. xs ! k = ys ! (st + k))"
  by (simp add: list_eq_iff_nth_eq min_absorb2)

lemma same_rest: "length xs - m \<le> length ys \<Longrightarrow> m \<le> length xs \<Longrightarrow> drop m xs = take (length xs - m) ys \<longleftrightarrow> (\<forall>k < length xs - m. xs ! (m + k) = ys ! k)"
  by (simp add: list_eq_iff_nth_eq min_absorb2)

lemma verifyChunk_correct:
  assumes "payload \<noteq> []" "length buf \<le> (length payload - unat base mod length payload) + length payload"
  shows "verifyChunk payload base buf = Some (\<forall>k < length buf. buf ! k = payload ! ((unat base + k) mod length payload))"
proof -
  let ?sz = "length payload" and ?n = "length buf"
  let ?st = "unat base mod ?sz"
  let ?m = "min ?n (?sz - ?st)"
  have st: "?st < ?sz" using assms(1) by simp
  have le: "?n - ?m \<le> ?sz" using assms(2) by linarith
  have byte: "payload ! ((unat base + k) mod ?sz) = (if k < ?sz - ?st then payload ! (?st + k) else payload ! (k - (?sz - ?st)))" if "k < ?n" for k
    using chunk_byte [OF that st assms(2)] by (simp add: mod_add_left_eq)
  have one: "take ?m buf = take ?m (drop ?st payload) \<longleftrightarrow> (\<forall>k < ?m. buf ! k = payload ! (?st + k))"
    using st by (intro same_piece) simp_all
  have two: "drop ?m buf = take (?n - ?m) payload \<longleftrightarrow> (\<forall>k < ?n - ?m. buf ! (?m + k) = payload ! k)"
    using le by (intro same_rest) simp_all
  have split: "(\<forall>k < ?n. buf ! k = payload ! ((unat base + k) mod ?sz)) \<longleftrightarrow>
      (\<forall>k < ?m. buf ! k = payload ! (?st + k)) \<and> (\<forall>k < ?n - ?m. buf ! (?m + k) = payload ! k)" (is "?l \<longleftrightarrow> ?r")
  proof
    assume l: ?l
    have "buf ! k = payload ! (?st + k)" if "k < ?m" for k using l byte [of k] that by simp
    moreover have "buf ! (?m + k) = payload ! k" if "k < ?n - ?m" for k using l byte [of "?m + k"] that by (auto simp: min_def split: if_splits)
    ultimately show ?r by blast
  next
    assume r: ?r
    have "buf ! k = payload ! ((unat base + k) mod ?sz)" if "k < ?n" for k
    proof (cases "k < ?sz - ?st")
      case True
      then show ?thesis using r byte [OF that] that by simp
    next
      case False
      then have "k = ?m + (k - ?m)" "k - ?m < ?n - ?m" "?m = ?sz - ?st" using that by auto
      then show ?thesis using r byte [OF that] False by metis
    qed
    then show ?l by blast
  qed
  have ne: "\<not> ?n - ?m > ?sz" using le by simp
  show ?thesis
  proof (cases "buf = []")
    case False
    have "verifyChunk payload base buf =
        (if take ?m buf \<noteq> take ?m (drop ?st payload) then Some False
         else if ?n > ?m then Some (drop ?m buf = take (?n - ?m) payload) else Some True)"
      using assms(1) ne False by (simp only: verifyChunk_def Let_def length_0_conv simp_thms if_False)
    then show ?thesis unfolding split one two by (cases "?n > ?m") auto
  qed (simp add: verifyChunk_def)
qed

lemma verifyChunk_overread:
  assumes "payload \<noteq> []" "(length payload - unat base mod length payload) + length payload < length buf"
    and "take (length payload - unat base mod length payload) buf = drop (unat base mod length payload) payload"
  shows "verifyChunk payload base buf = None"
proof -
  let ?st = "unat base mod length payload"
  have "min (length buf) (length payload - ?st) = length payload - ?st" using assms(2) by simp
  then show ?thesis using assms by (auto simp: verifyChunk_def Let_def)
qed

section \<open>Properties\<close>

text \<open>
  The load generator reads what the server writes. If the input of a connection is a sequence of
  responses as the server serialises them, with three-digit status codes and header names that do not
  hide a second length, the connection accounts for exactly their status codes, in order, and its
  input is empty again.
\<close>

theorem client_reads_server:
  assumes "list_all (\<lambda>r. 100 \<le> rs_status r \<and> rs_status r \<le> 599 \<and> plain_headers r \<and> int (length (rs_body r)) < 2 ^ 63) rs"
    and "bc_in c = concat (map serialize rs)" "bc_in_off c = 0"
    and "fold onResponseComplete (map rs_status rs) (s, c) = (s', c')"
  shows "drainHttp (s, c) = (True, s', c'\<lparr>bc_in := [], bc_in_off := 0\<rparr>)"
  using assms by (rule drainHttp_responses)

lemma client_reads_server_witness:
  "\<exists>s' c'. drainHttp (new_Bench (default_options\<lparr>o_mode := ''http'', o_expect_status := [200]\<rparr>) True,
       new_client\<lparr>bc_inflight := 2, bc_in := concat (map serialize [new_HttpResponse, new_HttpResponse\<lparr>rs_status := 404, rs_body := ''no''\<rparr>])\<rparr>)
     = (True, s', c') \<and> bn_ok s' = 1 \<and> bn_bad_status s' = 1 \<and> bc_inflight c' = 0 \<and> bc_in c' = []"
proof -
  let ?rs = "[new_HttpResponse, new_HttpResponse\<lparr>rs_status := 404, rs_body := ''no''\<rparr>]"
  let ?s = "new_Bench (default_options\<lparr>o_mode := ''http'', o_expect_status := [200]\<rparr>) True"
  let ?c = "new_client\<lparr>bc_inflight := 2, bc_in := concat (map serialize ?rs)\<rparr>"
  obtain s' c' where f: "fold onResponseComplete (map rs_status ?rs) (?s, ?c) = (s', c')" by fastforce
  have "CR \<notin> set ''text/plain; charset=utf-8''" by simp
  then have "plain_headers r" if "r \<in> set ?rs" for r
    using that by (auto simp: plain_headers_def no_CR_headers_def new_HttpResponse_def)
  then have "drainHttp (?s, ?c) = (True, s', c'\<lparr>bc_in := [], bc_in_off := 0\<rparr>)"
    using f by (intro client_reads_server [of ?rs]) (auto simp: new_HttpResponse_def new_client_def)
  moreover have "bn_ok s' = 1 \<and> bn_bad_status s' = 1 \<and> bc_inflight c' = 0"
    using f by (auto simp: new_HttpResponse_def new_client_def onResponseComplete_def pop_ts_def one_done_def set_progress_def nowNs_def
        new_Bench_def count_status_def add_latency_def)
  ultimately show ?thesis by simp
qed

end
