(* ===== verification/BenchCount.thy ===== *)
theory BenchCount
  imports BenchClient
begin

text \<open>
  The books of the load generator: the number of live and of connecting connections, the requests on
  the way, and that every request of a finished run is either answered or counted as failed. The
  handlers act on one connection at a time, so the central notion is a relation \<open>acct\<close> between the
  states before and after a handler; it is reflexive and transitive, and every operation is in it.
\<close>

section \<open>Books of one connection\<close>

definition lost :: "bench \<Rightarrow> client \<Rightarrow> int" where
  "lost s c = (if bn_duration_mode s then bc_inflight c else o_requests (bn_opts s) - bc_done_req c)"

text \<open>What one connection contributes to the three counters.\<close>

definition weight :: "bench \<Rightarrow> client \<Rightarrow> int" where
  "weight s c = bc_done_req c + (if bc_state c = CFailed then max 0 (lost s c) else 0)"

definition connecting :: "client \<Rightarrow> bool" where
  "connecting c \<longleftrightarrow> alive c \<and> bc_state c = CConnecting"

definition booked :: "bench \<Rightarrow> int" where
  "booked s = bn_ok s + bn_bad_status s + bn_failed s"

definition client_inv :: "bench \<Rightarrow> client \<Rightarrow> bool" where
  "client_inv s c \<longleftrightarrow>
     (bc_fd c \<ge> 0 \<longleftrightarrow> bc_state c \<noteq> CDone \<and> bc_state c \<noteq> CFailed) \<and>
     bc_ts_head c \<le> length (bc_ts c) \<and> bc_inflight c = int (length (bc_ts c) - bc_ts_head c) \<and>
     bc_inflight c \<le> max 0 (o_pipeline (bn_opts s)) \<and>
     bc_sent_req c \<le> bc_done_req c + bc_inflight c \<and> 0 \<le> bc_done_req c \<and>
     (bc_state c = CDone \<and> \<not> bn_duration_mode s \<longrightarrow> o_requests (bn_opts s) \<le> bc_done_req c)"

definition pair_inv :: "bench \<times> client \<Rightarrow> bool" where
  "pair_inv w \<longleftrightarrow> client_inv (fst w) (snd w) \<and> (alive (snd w) \<longrightarrow> 0 < bn_alive_count (fst w)) \<and>
     (connecting (snd w) \<longrightarrow> 0 < bn_connecting_count (fst w))"

text \<open>
  The latency samples: at most \<open>kMaxLatencySamples\<close>, none is counted as dropped while there is room, and there are
  no more of them than answers.
\<close>

definition samples_ok :: "bench \<Rightarrow> bool" where
  "samples_ok s \<longleftrightarrow>
     int (length (bn_lat_ns s)) \<le> kMaxLatencySamples \<and> 0 \<le> bn_lat_dropped s \<and>
     (0 < bn_lat_dropped s \<longrightarrow> int (length (bn_lat_ns s)) = kMaxLatencySamples) \<and>
     int (length (bn_lat_ns s)) + bn_lat_dropped s \<le> bn_ok s + bn_bad_status s"

lemma samples_ok_update [simp]:
  "samples_ok (bn_conns_update f0 s) = samples_ok s"
  "samples_ok (bn_alive_count_update f1 s) = samples_ok s"
  "samples_ok (bn_connecting_count_update f2 s) = samples_ok s"
  "samples_ok (bn_started_update f3 s) = samples_ok s"
  "samples_ok (bn_setup_start_ns_update f4 s) = samples_ok s"
  "samples_ok (bn_t0_ns_update f5 s) = samples_ok s"
  "samples_ok (bn_t1_ns_update f6 s) = samples_ok s"
  "samples_ok (bn_deadline_ns_update f7 s) = samples_ok s"
  "samples_ok (bn_last_scan_ns_update f8 s) = samples_ok s"
  "samples_ok (bn_failed_update f9 s) = samples_ok s"
  "samples_ok (bn_conn_failed_update f10 s) = samples_ok s"
  "samples_ok (bn_err_hist_update f11 s) = samples_ok s"
  "samples_ok (bn_first_error_update f12 s) = samples_ok s"
  "samples_ok (bn_total_bytes_in_update f13 s) = samples_ok s"
  "samples_ok (bn_total_bytes_out_update f14 s) = samples_ok s"
  "samples_ok (bn_clock_update f15 s) = samples_ok s"
  "samples_ok (bn_now_update f16 s) = samples_ok s"
  "samples_ok (bn_sends_update f17 s) = samples_ok s"
  "samples_ok (bn_recvs_update f18 s) = samples_ok s"
  "samples_ok (bn_overread_update f19 s) = samples_ok s"
  by (simp_all add: samples_ok_def)

lemma samples_ok_response: "samples_ok s \<Longrightarrow> samples_ok (add_latency lat (count_status st s))"
  by (auto simp: samples_ok_def add_latency_def count_status_def Let_def)

definition same_setup :: "bench \<Rightarrow> bench \<Rightarrow> bool" where
  "same_setup s s' \<longleftrightarrow> bn_opts s' = bn_opts s \<and> bn_duration_mode s' = bn_duration_mode s \<and> bn_conns s' = bn_conns s \<and>
     bn_started s' = bn_started s \<and> (samples_ok s \<longrightarrow> samples_ok s')"

definition balance :: "bench \<times> client \<Rightarrow> bench \<times> client \<Rightarrow> bool" where
  "balance w w' \<longleftrightarrow>
     booked (fst w') - booked (fst w) = weight (fst w) (snd w') - weight (fst w) (snd w) \<and>
     int (bn_alive_count (fst w')) - int (bn_alive_count (fst w)) = of_bool (alive (snd w')) - of_bool (alive (snd w)) \<and>
     bn_connecting_count (fst w') - bn_connecting_count (fst w) = of_bool (connecting (snd w')) - of_bool (connecting (snd w)) \<and>
     (bn_started (fst w) \<and> bc_state (snd w') = CWaiting \<longrightarrow> bc_state (snd w) = CWaiting)"

definition acct :: "bench \<times> client \<Rightarrow> bench \<times> client \<Rightarrow> bool" where
  "acct w w' \<longleftrightarrow> (pair_inv w \<longrightarrow> pair_inv w' \<and> same_setup (fst w) (fst w') \<and> balance w w')"

lemma weight_same: "same_setup s s' \<Longrightarrow> weight s' c = weight s c"
  by (simp add: same_setup_def weight_def lost_def)

lemma acct_refl [simp, intro]: "acct w w"
  by (simp add: acct_def same_setup_def balance_def)

lemma acct_trans: "acct w1 w2 \<Longrightarrow> acct w2 w3 \<Longrightarrow> acct w1 w3"
proof (unfold acct_def, intro impI)
  assume a: "pair_inv w1 \<longrightarrow> pair_inv w2 \<and> same_setup (fst w1) (fst w2) \<and> balance w1 w2"
    "pair_inv w2 \<longrightarrow> pair_inv w3 \<and> same_setup (fst w2) (fst w3) \<and> balance w2 w3" "pair_inv w1"
  then have s: "same_setup (fst w1) (fst w2)" "same_setup (fst w2) (fst w3)" and b: "balance w1 w2" "balance w2 w3" and p: "pair_inv w3" by auto
  have w: "weight (fst w2) = weight (fst w1)" "bn_started (fst w2) = bn_started (fst w1)"
    using weight_same [OF s(1)] s(1) by (auto simp: same_setup_def)
  have "balance w1 w3" using b unfolding balance_def w by (elim conjE, intro conjI) (linarith, linarith, linarith, blast)
  moreover have "same_setup (fst w1) (fst w3)" using s by (simp add: same_setup_def)
  ultimately show "pair_inv w3 \<and> same_setup (fst w1) (fst w3) \<and> balance w1 w3" using p by simp
qed

text \<open>Changes that touch no book.\<close>

definition quiet :: "bench \<times> client \<Rightarrow> bench \<times> client \<Rightarrow> bool" where
  "quiet w w' \<longleftrightarrow>
     same_setup (fst w) (fst w') \<and> booked (fst w') = booked (fst w) \<and> bn_alive_count (fst w') = bn_alive_count (fst w) \<and>
     bn_connecting_count (fst w') = bn_connecting_count (fst w) \<and>
     bc_fd (snd w') = bc_fd (snd w) \<and> bc_state (snd w') = bc_state (snd w) \<and> bc_ts (snd w') = bc_ts (snd w) \<and>
     bc_ts_head (snd w') = bc_ts_head (snd w) \<and> bc_inflight (snd w') = bc_inflight (snd w) \<and>
     bc_sent_req (snd w') = bc_sent_req (snd w) \<and> bc_done_req (snd w') = bc_done_req (snd w)"

lemma quiet_same:
  assumes "quiet w w'"
  shows "weight s (snd w') = weight s (snd w)" "alive (snd w') = alive (snd w)" "connecting (snd w') = connecting (snd w)"
    "client_inv (fst w') (snd w') = client_inv (fst w) (snd w)"
  using assms by (simp_all add: quiet_def weight_def lost_def alive_def connecting_def client_inv_def same_setup_def)

lemma quiet_acct: "quiet w w' \<Longrightarrow> acct w w'"
  by (frule quiet_same(4)) (auto simp: acct_def pair_inv_def balance_def quiet_same quiet_def)

lemma nowNs_quiet: "nowNs s = (t, s') \<Longrightarrow> quiet (s, c) (s', c)"
  by (auto simp: nowNs_def quiet_def same_setup_def booked_def split: list.splits)

lemma next_send_quiet: "next_send s = (x, s') \<Longrightarrow> quiet (s, c) (s', c)"
  by (auto simp: next_send_def quiet_def same_setup_def booked_def split: list.splits)

lemma next_recv_quiet: "next_recv s = (x, s') \<Longrightarrow> quiet (s, c) (s', c)"
  by (auto simp: next_recv_def quiet_def same_setup_def booked_def split: list.splits)

lemma moreRequests_quiet: "moreRequests c s = (b, s') \<Longrightarrow> quiet (s, d) (s', d)"
  by (auto simp: moreRequests_def Let_def split: if_splits prod.splits dest: nowNs_quiet) (auto simp: quiet_def same_setup_def)

lemma quiet_trans: "quiet w1 w2 \<Longrightarrow> quiet w2 w3 \<Longrightarrow> quiet w1 w3"
  by (simp add: quiet_def same_setup_def)

lemma set_progress_quiet: "quiet w (set_progress w)"
  by (auto simp: set_progress_def Let_def split: prod.split)
    (auto simp: nowNs_def quiet_def same_setup_def booked_def split: list.splits)

lemma failConn_acct: "acct w (failConn cat w)"
proof (cases "bc_state (snd w) = CFailed \<or> bc_state (snd w) = CDone")
  case True
  then have "failConn cat w = w" by (auto simp: failConn_def Let_def)
  then show ?thesis by simp
next
  case False
  then show ?thesis
    by (auto simp: acct_def failConn_def bench_closeConn_def Let_def pair_inv_def client_inv_def same_setup_def balance_def booked_def
        weight_def lost_def alive_def connecting_def)
qed

lemma closeConn_acct:
  assumes "alive (snd w)" "\<not> connecting (snd w)" "bn_duration_mode (fst w) \<or> o_requests (bn_opts (fst w)) \<le> bc_done_req (snd w)"
  shows "acct w (bench_closeConn True w)"
  using assms
  by (auto simp: acct_def bench_closeConn_def Let_def pair_inv_def client_inv_def same_setup_def balance_def booked_def
        weight_def lost_def alive_def connecting_def)

section \<open>Handlers\<close>

lemma updateEvents_acct: "acct w (updateEvents w)"
proof -
  have "quiet w (fst w, (snd w)\<lparr>bc_ev_mask := m\<rparr>)" for m by (simp add: quiet_def same_setup_def)
  then show ?thesis by (auto simp: updateEvents_def Let_def intro: failConn_acct quiet_acct)
qed

text \<open>One more request in a connection that is ready.\<close>

definition push_request :: "u64 \<Rightarrow> client \<Rightarrow> client" where
  "push_request t c =
     (let c = (if bc_ts_head c = length (bc_ts c) then c\<lparr>bc_ts := [], bc_ts_head := 0\<rparr> else c)
      in c\<lparr>bc_ts := bc_ts c @ [t], bc_out := bc_out c @ bc_req c, bc_inflight := bc_inflight c + 1, bc_sent_req := bc_sent_req c + 1\<rparr>)"

lemma push_request_acct:
  assumes "bc_state (snd w) = CReady" "bc_inflight (snd w) < o_pipeline (bn_opts (fst w))" "quiet w (s', snd w)"
  shows "acct w (s', push_request t (snd w))"
proof -
  have "acct (s', snd w) (s', push_request t (snd w))"
    using assms
    by (auto simp: push_request_def Let_def acct_def pair_inv_def client_inv_def same_setup_def balance_def weight_def lost_def alive_def
        connecting_def quiet_def)
  then show ?thesis using assms(3) acct_trans quiet_acct by blast
qed

lemma refill_loop_more:
  "bc_inflight (snd w) < o_pipeline (bn_opts (fst w)) \<Longrightarrow> moreRequests (snd w) (fst w) = (True, s) \<Longrightarrow> nowNs s = (t, s') \<Longrightarrow>
   refill_loop w = refill_loop (s', push_request t (snd w))"
  by (subst refill_loop.simps) (simp add: push_request_def Let_def)

lemma refill_loop_stop:
  "\<not> bc_inflight (snd w) < o_pipeline (bn_opts (fst w)) \<Longrightarrow> refill_loop w = w"
  "moreRequests (snd w) (fst w) = (False, s) \<Longrightarrow> refill_loop w = (if bc_inflight (snd w) < o_pipeline (bn_opts (fst w)) then (s, snd w) else w)"
  by (subst refill_loop.simps, simp)+

lemma refill_loop_acct: "bc_state (snd w) = CReady \<Longrightarrow> acct w (refill_loop w)"
proof (induction "nat (o_pipeline (bn_opts (fst w)) - bc_inflight (snd w))" arbitrary: w rule: less_induct)
  case less
  obtain b s where m: "moreRequests (snd w) (fst w) = (b, s)" by fastforce
  obtain t s' where n: "nowNs s = (t, s')" by fastforce
  have q: "quiet w (s, snd w)" "quiet w (s', snd w)"
    using moreRequests_quiet [OF m, of "snd w"] quiet_trans [OF _ nowNs_quiet [OF n]] by auto
  show ?case
  proof (cases "bc_inflight (snd w) < o_pipeline (bn_opts (fst w)) \<and> b")
    case True
    have "bc_state (push_request t (snd w)) = CReady" "bc_inflight (push_request t (snd w)) = bc_inflight (snd w) + 1"
      using less.prems by (simp_all add: push_request_def Let_def)
    moreover have "bn_opts s' = bn_opts (fst w)" using q(2) by (simp add: quiet_def same_setup_def)
    ultimately have "acct (s', push_request t (snd w)) (refill_loop (s', push_request t (snd w)))"
      using less.hyps [of "(s', push_request t (snd w))"] True by simp
    then show ?thesis
      using True m acct_trans [OF push_request_acct [OF less.prems _ q(2), of t]] refill_loop_more [OF _ _ n, of w] by simp
  next
    case False
    then show ?thesis using refill_loop_stop [of w] m quiet_acct [OF q(1)] by (cases b) auto
  qed
qed

lemma refill_acct: "acct w (refill w)"
  using refill_loop_acct by (simp add: refill_def)

lemma flushOut_acct: "acct w (snd (flushOut w))"
proof (induction "length (bn_sends (fst w))" arbitrary: w rule: less_induct)
  case less
  obtain x s where n: "next_send (fst w) = (x, s)" by fastforce
  have q: "quiet w (s, snd w)" using next_send_quiet [OF n, of "snd w"] by simp
  note f = acct_trans [OF quiet_acct [OF q] failConn_acct] acct_trans [OF quiet_acct [OF q] updateEvents_acct]
  show ?case
  proof (cases "bc_out_off (snd w) < length (bc_out (snd w))")
    case out: True
    show ?thesis
    proof (cases x)
      case (Inl er)
      show ?thesis
      proof (cases "er = EINTR")
        case True
        then have "length (bn_sends s) < length (bn_sends (fst w))"
          using next_send_shorter [OF n] Inl by (simp add: EINTR_def EAGAIN_def)
        then have "acct (s, snd w) (snd (flushOut (s, snd w)))" using less.hyps [of "(s, snd w)"] by simp
        then show ?thesis using acct_trans [OF quiet_acct [OF q]] out n Inl True by (subst flushOut.simps) simp
      next
        case False
        then show ?thesis using f out n Inl by (subst flushOut.simps) simp
      qed
    next
      case (Inr k)
      obtain t s' where t: "nowNs s = (t, s')" by fastforce
      let ?w = "(s'\<lparr>bn_total_bytes_out := bn_total_bytes_out s' + of_nat k\<rparr>, (snd w)\<lparr>bc_out_off := bc_out_off (snd w) + k, bc_last_progress := t\<rparr>)"
      have "quiet w ?w" using quiet_trans [OF q nowNs_quiet [OF t]] by (simp add: quiet_def same_setup_def booked_def)
      moreover have "acct ?w (snd (flushOut ?w))"
        using next_send_shorter [OF n] Inr nowNs_sends [OF t] by (intro less.hyps) simp
      ultimately have "acct w (snd (flushOut ?w))" using acct_trans quiet_acct by blast
      then show ?thesis using f out n Inr t by (subst flushOut.simps) simp
    qed
  next
    case False
    have "quiet w (fst w, (snd w)\<lparr>bc_out := [], bc_out_off := 0\<rparr>)" by (simp add: quiet_def same_setup_def)
    then show ?thesis using False acct_trans [OF quiet_acct updateEvents_acct] by (subst flushOut.simps) simp
  qed
qed

lemma pump_loop_acct: "acct w (pump_loop k w)"
proof (induction k arbitrary: w)
  case (Suc k)
  obtain b w' where f: "flushOut w = (b, w')" by (cases "flushOut w")
  have a: "acct w w'" using flushOut_acct [of w] f by simp
  then have "acct w (refill w')" using acct_trans refill_acct by blast
  then show ?case using a f acct_trans [OF _ Suc.IH] by (auto simp: Let_def split: bool.split)
qed simp

lemma pump_acct: "acct w (pump w)"
  by (simp add: pump_def pump_loop_acct)


lemma pop_ts_fields:
  assumes "pop_ts w = (lat, s, c)"
  shows "bc_fd c = bc_fd (snd w)" "bc_state c = bc_state (snd w)" "bc_sent_req c = bc_sent_req (snd w)" "bc_done_req c = bc_done_req (snd w)"
    "bc_inflight c = bc_inflight (snd w)" "length (bc_ts c) - bc_ts_head c = length (bc_ts (snd w)) - bc_ts_head (snd w) - 1"
    "bc_ts_head (snd w) \<le> length (bc_ts (snd w)) \<Longrightarrow> bc_ts_head c \<le> length (bc_ts c)"
    "same_setup (fst w) s" "booked s = booked (fst w)" "bn_alive_count s = bn_alive_count (fst w)" "bn_connecting_count s = bn_connecting_count (fst w)"
  using assms by (auto simp: pop_ts_def Let_def nowNs_def same_setup_def booked_def split: if_splits prod.splits list.splits)

lemma one_done_fields [simp]:
  "bc_fd (one_done c) = bc_fd c" "bc_state (one_done c) = bc_state c" "bc_sent_req (one_done c) = bc_sent_req c"
  "bc_done_req (one_done c) = bc_done_req c + 1" "bc_ts (one_done c) = bc_ts c" "bc_ts_head (one_done c) = bc_ts_head c"
  "bc_inflight (one_done c) = (if bc_inflight c > 0 then bc_inflight c - 1 else bc_inflight c)"
  by (simp_all add: one_done_def Let_def)

lemma response_acct:
  assumes "alive (snd w)" "pop_ts w = (lat, s, c)"
    and "same_setup s s'" "booked s' = booked s + 1" "bn_alive_count s' = bn_alive_count s" "bn_connecting_count s' = bn_connecting_count s"
  shows "acct w (s', one_done c)"
  using assms(1,3-) pop_ts_fields [OF assms(2)]
  by (auto simp: acct_def pair_inv_def client_inv_def same_setup_def balance_def weight_def alive_def connecting_def)

lemma response_fields:
  "bn_opts (add_latency lat (count_status st s)) = bn_opts s" "bn_duration_mode (add_latency lat (count_status st s)) = bn_duration_mode s"
  "bn_conns (add_latency lat (count_status st s)) = bn_conns s" "booked (add_latency lat (count_status st s)) = booked s + 1"
  "bn_alive_count (add_latency lat (count_status st s)) = bn_alive_count s"
  "bn_connecting_count (add_latency lat (count_status st s)) = bn_connecting_count s"
  "bn_started (add_latency lat (count_status st s)) = bn_started s"
  by (auto simp: booked_def count_status_def add_latency_def Let_def)

lemma onResponseComplete_acct: "alive (snd w) \<Longrightarrow> acct w (onResponseComplete st w)"
proof -
  assume a: "alive (snd w)"
  obtain lat s c where p: "pop_ts w = (lat, s, c)" by (cases "pop_ts w")
  obtain s1 c1 where q: "set_progress (s, one_done c) = (s1, c1)" by fastforce
  let ?s = "add_latency lat (count_status st s1)"
  have "booked ?s = booked s1 + 1" "same_setup s1 ?s" "bn_alive_count ?s = bn_alive_count s1" "bn_connecting_count ?s = bn_connecting_count s1"
    using response_fields [of lat st s1] samples_ok_response by (simp_all add: same_setup_def)
  moreover have qt: "quiet (s, one_done c) (s1, c1)" using set_progress_quiet [of "(s, one_done c)"] q by simp
  ultimately have "acct w (?s, one_done c)"
    by (intro response_acct [OF a p]) (auto simp: quiet_def same_setup_def)
  moreover have "quiet (?s, one_done c) (?s, c1)" using qt by (auto simp: quiet_def same_setup_def)
  moreover have "onResponseComplete st w = (?s, c1)" using p q by (simp add: onResponseComplete_def)
  ultimately show ?thesis using acct_trans quiet_acct by metis
qed

lemma onResponseComplete_counts:
  "booked (fst (onResponseComplete st w)) = booked (fst w) + 1 \<and> bc_done_req (snd (onResponseComplete st w)) = bc_done_req (snd w) + 1"
proof -
  obtain lat s c where p: "pop_ts w = (lat, s, c)" by (cases "pop_ts w")
  obtain s1 c1 where q: "set_progress (s, one_done c) = (s1, c1)" by fastforce
  have "quiet (s, one_done c) (s1, c1)" using set_progress_quiet [of "(s, one_done c)"] q by simp
  then show ?thesis using p q pop_ts_fields [OF p] by (auto simp: onResponseComplete_def quiet_def response_fields)
qed

lemma onResponseComplete_state [simp]:
  "bc_fd (snd (onResponseComplete st w)) = bc_fd (snd w)" "bc_state (snd (onResponseComplete st w)) = bc_state (snd w)"
proof -
  obtain lat s c where p: "pop_ts w = (lat, s, c)" by (cases "pop_ts w")
  obtain s1 c1 where q: "set_progress (s, one_done c) = (s1, c1)" by fastforce
  have "quiet (s, one_done c) (s1, c1)" using set_progress_quiet [of "(s, one_done c)"] q by simp
  then show "bc_fd (snd (onResponseComplete st w)) = bc_fd (snd w)" "bc_state (snd (onResponseComplete st w)) = bc_state (snd w)"
    using p q pop_ts_fields [OF p] by (auto simp: onResponseComplete_def quiet_def)
qed


text \<open>A handler that reports whether the connection is still to be served.\<close>

definition same_life :: "client \<Rightarrow> client \<Rightarrow> bool" where
  "same_life c c' \<longleftrightarrow> bc_fd c' = bc_fd c \<and> bc_state c' = bc_state c"

definition served :: "bench \<times> client \<Rightarrow> bool \<times> bench \<times> client \<Rightarrow> bool" where
  "served w r \<longleftrightarrow> acct w (snd r) \<and> (fst r \<longrightarrow> same_life (snd w) (snd (snd r)))"

lemma served_acct: "served w r \<Longrightarrow> acct w (snd r)"
  by (simp add: served_def)

lemma same_life_alive: "same_life c c' \<Longrightarrow> alive c' = alive c"
  by (simp add: same_life_def alive_def)

lemma served_after: "acct w w' \<Longrightarrow> same_life (snd w) (snd w') \<Longrightarrow> served w' r \<Longrightarrow> served w r"
  using acct_trans by (auto simp: served_def same_life_def)

lemma quiet_life: "quiet w w' \<Longrightarrow> same_life (snd w) (snd w')"
  by (simp add: quiet_def same_life_def)

lemma served_quiet: "quiet w w' \<Longrightarrow> served w' r \<Longrightarrow> served w r"
  using served_after quiet_acct quiet_life by blast

lemma served_failConn [simp]: "served w (False, failConn cat w)"
  by (simp add: served_def failConn_acct)

lemma response_served:
  assumes "alive (snd w)" "quiet w w'"
  shows "acct w (onResponseComplete st w')" "same_life (snd w) (snd (onResponseComplete st w'))" "alive (snd (onResponseComplete st w'))"
  using assms(1) acct_trans [OF quiet_acct [OF assms(2)] onResponseComplete_acct] quiet_life [OF assms(2)]
    quiet_same(2) [OF assms(2)] by (simp_all add: same_life_def alive_def)

lemma drain_loop_served: "alive (snd w) \<Longrightarrow> served w (drain_loop w)"
proof (induction w rule: drain_loop.induct)
  case (1 w)
  show ?case
  proof (cases "parseOne (bc_in (snd w)) (bc_in_off (snd w))")
    case (BComplete status off)
    have "quiet w (fst w, (snd w)\<lparr>bc_in_off := off\<rparr>)" by (simp add: quiet_def same_setup_def)
    then show ?thesis
      using served_after [OF response_served(1,2) "1.IH"] response_served(3) "1.prems" BComplete by (subst drain_loop.simps) simp
  next
    case BNeedMore
    then show ?thesis by (subst drain_loop.simps) (simp add: served_def same_life_def)
  next
    case (BError e)
    then show ?thesis by (subst drain_loop.simps) simp
  qed
qed

lemma drainHttp_served:
  assumes "alive (snd w)"
  shows "served w (drainHttp w)"
proof -
  obtain b w' where d: "drain_loop w = (b, w')" by (cases "drain_loop w")
  have a: "served w (b, w')" using drain_loop_served [OF assms] d by simp
  show ?thesis
  proof (cases b)
    case True
    have "quiet w' (snd (drainHttp w))" using d True by (simp add: drainHttp_def Let_def quiet_def same_setup_def)
    then have "acct w' (snd (drainHttp w))" "same_life (snd w') (snd (snd (drainHttp w)))" by (auto intro: quiet_acct quiet_life)
    then show ?thesis using a True acct_trans [of w w'] by (auto simp: served_def same_life_def)
  next
    case False
    then show ?thesis using a d by (simp add: drainHttp_def)
  qed
qed

lemma echo_loop_served: "alive (snd w) \<Longrightarrow> served w (True, echo_loop one w)"
proof (induction one w rule: echo_loop.induct)
  case (1 one w)
  show ?case
  proof (cases "0 < one \<and> one \<le> bc_echo_partial (snd w)")
    case True
    have "quiet w (fst w, (snd w)\<lparr>bc_echo_partial := bc_echo_partial (snd w) - one\<rparr>)" by (simp add: quiet_def same_setup_def)
    then show ?thesis
      using served_after [OF response_served(1,2) "1.IH" [OF True]] response_served(3) "1.prems" True by (subst echo_loop.simps) simp
  next
    case False
    then have "echo_loop one w = w" by (subst echo_loop.simps) auto
    then show ?thesis by (simp add: served_def same_life_def)
  qed
qed

lemma received_bytes_served:
  assumes "alive (snd w)"
  shows "served w (received_bytes buf w)"
proof -
  obtain s c where p: "set_progress w = (s, c)" by fastforce
  let ?s = "s\<lparr>bn_total_bytes_in := bn_total_bytes_in s + of_nat (length buf)\<rparr>"
  have k: "quiet w (?s\<lparr>bn_overread := True\<rparr>, c)" "quiet w (?s, c)"
    "quiet w (?s, c\<lparr>bc_in := x\<rparr>)" "quiet w (?s, c\<lparr>bc_echo_recv := y, bc_echo_partial := z\<rparr>)" for x y z
    using set_progress_quiet [of w] p by (simp_all add: quiet_def same_setup_def booked_def)
  have "alive (c\<lparr>bc_in := x\<rparr>)" "alive (c\<lparr>bc_echo_recv := y, bc_echo_partial := z\<rparr>)" for x y z
    using quiet_same(2) [OF k(3)] quiet_same(2) [OF k(4)] assms by simp_all
  then have "served w (drainHttp (?s, c\<lparr>bc_in := x\<rparr>))" "served w (True, echo_loop one (?s, c\<lparr>bc_echo_recv := y, bc_echo_partial := z\<rparr>))" for one x y z
    using served_quiet [OF k(3) drainHttp_served] served_quiet [OF k(4) echo_loop_served] by simp_all
  moreover have "served w (False, failConn cat (?s, c))" "served w (False, ?s\<lparr>bn_overread := True\<rparr>, c)" for cat
    using served_quiet [OF k(2) served_failConn] quiet_acct [OF k(1)] by (simp_all add: served_def)
  ultimately show ?thesis
    using p by (simp add: received_bytes_def Let_def split: option.split bool.split)
qed

lemma requests_done:
  "pair_inv w \<Longrightarrow> moreRequests (snd w) (fst w) = (False, s) \<Longrightarrow> \<not> bc_inflight (snd w) > 0 \<Longrightarrow> \<not> bn_duration_mode (fst w) \<Longrightarrow>
   o_requests (bn_opts (fst w)) \<le> bc_done_req (snd w)"
  by (auto simp: moreRequests_def pair_inv_def client_inv_def)

lemma finish_acct:
  assumes "moreRequests (snd w) (fst w) = (False, s)" "\<not> bc_inflight (snd w) > 0" "alive (snd w)" "bc_state (snd w) \<noteq> CConnecting"
  shows "acct w (bench_closeConn True (s, snd w))"
proof (cases "pair_inv w")
  case True
  have q: "quiet w (s, snd w)" using moreRequests_quiet [OF assms(1), of "snd w"] by simp
  have "acct (s, snd w) (bench_closeConn True (s, snd w))"
    using requests_done [OF True assms(1,2)] assms(3,4) q
    by (intro closeConn_acct) (auto simp: connecting_def quiet_def same_setup_def)
  then show ?thesis using acct_trans [OF quiet_acct [OF q]] by simp
qed (simp add: acct_def)

lemma read_loop_served: "alive (snd w) \<Longrightarrow> bc_state (snd w) \<noteq> CConnecting \<Longrightarrow> served w (read_loop k w)"
proof (induction k arbitrary: w)
  case (Suc k)
  obtain x s where n: "next_recv (fst w) = (x, s)" by fastforce
  have q: "quiet w (s, snd w)" using next_recv_quiet [OF n, of "snd w"] by simp
  show ?case
  proof (cases x)
    case (Inl er)
    have "served w (read_loop k (s, snd w))" using Suc.prems by (intro served_quiet [OF q] Suc.IH) simp_all
    moreover have "served w (True, s, snd w)" using q by (simp add: served_def same_life_def quiet_acct)
    ultimately show ?thesis using n Inl served_quiet [OF q served_failConn] by simp
  next
    case (Inr buf)
    show ?thesis
    proof (cases "buf = []")
      case False
      obtain b w' where r: "received_bytes buf (s, snd w) = (b, w')" by (cases "received_bytes buf (s, snd w)")
      have d: "served w (b, w')" using served_quiet [OF q received_bytes_served] r Suc.prems(1) by (metis snd_conv)
      have "served w (read_loop k w')" if b
        using that d Suc.prems same_life_alive [of "snd w" "snd w'"]
        by (intro served_after [of w w'] Suc.IH) (auto simp: served_def same_life_def)
      then show ?thesis using n Inr False r d by (auto split: bool.split)
    next
      case True
      obtain more s' where m: "moreRequests (snd w) s = (more, s')" by fastforce
      have q': "quiet w (s', snd w)" using quiet_trans [OF q moreRequests_quiet [OF m, of "snd w"]] .
      have "acct w (bench_closeConn True (s', snd w))" if "\<not> more" "\<not> bc_inflight (snd w) > 0"
        using acct_trans [OF quiet_acct [OF q] finish_acct] m that Suc.prems by simp
      then show ?thesis
        using n Inr True m served_quiet [OF q served_failConn] served_quiet [OF q' served_failConn]
        by (auto simp: served_def Let_def)
    qed
  qed
qed (simp add: served_def same_life_def)

lemma maybeFinish_acct: "acct w (maybeFinish w)"
proof (cases "pair_inv w \<and> bc_state (snd w) = CReady")
  case True
  then have "alive (snd w)" by (simp add: pair_inv_def client_inv_def alive_def)
  obtain more s where m: "moreRequests (snd w) (fst w) = (more, s)" by fastforce
  show ?thesis
    using True m quiet_acct [OF moreRequests_quiet [OF m, of "snd w"]] finish_acct [OF _ _ \<open>alive (snd w)\<close>]
    by (cases more) (simp_all add: maybeFinish_def)
next
  case False
  then show ?thesis by (cases "bc_state (snd w) = CReady") (simp add: acct_def, simp add: maybeFinish_def)
qed

lemma connected_acct:
  assumes "bc_state (snd w) = CConnecting" "st = CReady \<or> st = CWaiting \<and> \<not> bn_started (fst w)" "alive (snd w)"
    and "set_progress ((if bn_connecting_count (fst w) > 0 then (fst w)\<lparr>bn_connecting_count := bn_connecting_count (fst w) - 1\<rparr> else fst w), snd w) = (s, c)"
  shows "acct w (s, c\<lparr>bc_state := st\<rparr>)"
proof (cases "pair_inv w")
  case True
  then have n: "bn_connecting_count (fst w) > 0" using assms(1,3) by (simp add: pair_inv_def connecting_def)
  have q: "quiet ((fst w)\<lparr>bn_connecting_count := bn_connecting_count (fst w) - 1\<rparr>, snd w) (s, c)"
    using set_progress_quiet [of "((fst w)\<lparr>bn_connecting_count := bn_connecting_count (fst w) - 1\<rparr>, snd w)"] assms(4) n by simp
  show ?thesis
    using assms(1-3) True q n
    by (auto simp: acct_def pair_inv_def client_inv_def balance_def weight_def lost_def alive_def connecting_def quiet_def same_setup_def booked_def)
qed (simp add: acct_def)

lemma onEvent_acct: "acct w (onEvent ev er w)"
proof (cases "alive (snd w)")
  case al: True
  show ?thesis
  proof (cases "bc_state (snd w) = CConnecting")
    case True
    obtain s c where p: "set_progress ((if bn_connecting_count (fst w) > 0
        then (fst w)\<lparr>bn_connecting_count := bn_connecting_count (fst w) - 1\<rparr> else fst w), snd w) = (s, c)"
      by (metis surj_pair)
    have st: "bn_started s = bn_started (fst w)" using p by (auto simp: set_progress_def nowNs_def Let_def split: list.splits if_splits)
    have "acct w (updateEvents (s, c\<lparr>bc_state := CWaiting\<rparr>))" if "\<not> bn_started s"
      using acct_trans [OF connected_acct [OF True _ al p] updateEvents_acct] that st by simp
    moreover have "acct w (updateEvents (pump (s, c\<lparr>bc_state := CReady\<rparr>)))"
      using acct_trans [OF connected_acct [OF True _ al p] acct_trans [OF pump_acct updateEvents_acct]] by simp
    moreover have "onEvent ev er w = (if bn_started s then updateEvents (pump (s, c\<lparr>bc_state := CReady\<rparr>)) else updateEvents (s, c\<lparr>bc_state := CWaiting\<rparr>))"
      if "er = Inr 0" using that al True p by (simp add: onEvent_def)
    moreover have "\<exists>cat. onEvent ev er w = failConn cat w" if "er \<noteq> Inr 0"
      using that al True by (cases er) (auto simp: onEvent_def)
    ultimately show ?thesis using failConn_acct by (cases "er = Inr 0"; cases "bn_started s") fastforce+
  next
    case False
    let ?r = "if ev AND (EPOLLIN OR EPOLLHUP OR EPOLLERR) \<noteq> 0 then doRead w else (True, w)"
    obtain b w' where r: "?r = (b, w')" by (cases ?r)
    have "served w (True, w)" by (simp add: served_def same_life_def)
    then have "served w ?r" using read_loop_served [OF al False, of kReadBudget] unfolding doRead_def by (cases "ev AND (EPOLLIN OR EPOLLHUP OR EPOLLERR) \<noteq> 0") auto
    then have a: "acct w w'" using r by (simp add: served_def)
    then have "acct w (pump w')" "acct w (maybeFinish (pump w'))"
      using acct_trans [OF _ pump_acct] acct_trans [OF _ maybeFinish_acct] by blast+
    then show ?thesis using al False r a by (simp add: onEvent_def Let_def split: bool.split)
  qed
qed (simp add: onEvent_def)

lemma start_conn_acct: "acct w (start_conn t w)"
proof (cases "bc_state (snd w) = CWaiting")
  case True
  then have "acct w (fst w, (snd w)\<lparr>bc_state := CReady, bc_last_progress := t\<rparr>)"
    by (auto simp: acct_def pair_inv_def client_inv_def same_setup_def balance_def weight_def lost_def alive_def connecting_def)
  then show ?thesis using True acct_trans [OF _ pump_acct] by (simp add: start_conn_def)
qed (simp add: start_conn_def)

lemma check_timeout_acct: "acct w (check_timeout now w)"
  by (simp add: check_timeout_def Let_def failConn_acct)


section \<open>The whole load generator\<close>

lemma sum_update: "i < length xs \<Longrightarrow> sum_list (map g (xs[i := c])) = sum_list (map g xs) - g (xs ! i) + (g c :: int)"
  by (induction xs arbitrary: i) (auto split: nat.split)

lemma count_sum: "int (length (filter P xs)) = sum_list (map (\<lambda>c. of_bool (P c)) xs)"
  by (induction xs) auto

lemma count_update:
  "i < length xs \<Longrightarrow> int (length (filter P (xs[i := c]))) = int (length (filter P xs)) - of_bool (P (xs ! i)) + of_bool (P c)"
  unfolding count_sum by (rule sum_update)

definition bench_inv :: "bench \<Rightarrow> bool" where
  "bench_inv s \<longleftrightarrow>
     (\<forall>c \<in> set (bn_conns s). client_inv s c) \<and>
     bn_alive_count s = length (filter alive (bn_conns s)) \<and>
     bn_connecting_count s = int (length (filter connecting (bn_conns s))) \<and>
     booked s = sum_list (map (weight s) (bn_conns s)) \<and> samples_ok s"

definition kept :: "bench \<Rightarrow> bench \<Rightarrow> bool" where
  "kept s s' \<longleftrightarrow> (bench_inv s \<longrightarrow> bench_inv s') \<and> bn_opts s' = bn_opts s \<and> bn_duration_mode s' = bn_duration_mode s \<and>
     length (bn_conns s') = length (bn_conns s)"

lemma kept_trans: "kept s1 s2 \<Longrightarrow> bench_inv s1 \<Longrightarrow> kept s2 s3 \<Longrightarrow> kept s1 s3"
  by (simp add: kept_def)

lemma client_inv_setup: "same_setup s s' \<Longrightarrow> client_inv s' c = client_inv s c"
  by (simp add: client_inv_def same_setup_def)

lemma bench_inv_pair: "bench_inv s \<Longrightarrow> c \<in> set (bn_conns s) \<Longrightarrow> pair_inv (s, c)"
  by (auto simp: bench_inv_def pair_inv_def filter_empty_conv)

lemma fold_kept:
  assumes "\<And>x s. bench_inv s \<Longrightarrow> kept s (g x s)" "bench_inv s"
  shows "kept s (fold g xs s)"
  using assms(2)
proof (induction xs arbitrary: s)
  case (Cons x xs)
  have "bench_inv (g x s)" using assms(1) Cons.prems by (auto simp: kept_def)
  then show ?case using kept_trans [OF assms(1) [OF Cons.prems, of x] Cons.prems Cons.IH] by simp
qed (simp add: kept_def)

text \<open>
  The contract of a handler of one connection, and what follows for the load generator when the
  handler is applied to the connection with an index or to all of them.
\<close>

locale conn_handler =
  fixes f :: "bench \<times> client \<Rightarrow> bench \<times> client"
  assumes handler_acct: "acct w (f w)"
begin

lemma with_conn_kept:
  assumes "bench_inv s"
  shows "kept s (with_conn f i s)"
proof (cases "i < length (bn_conns s)")
  case True
  let ?c = "bn_conns s ! i"
  obtain s' c' where f: "f (s, ?c) = (s', c')" by fastforce
  have "acct (s, ?c) (s', c')" using handler_acct [of "(s, ?c)"] f by simp
  moreover have "pair_inv (s, ?c)" using True by (intro bench_inv_pair assms) simp
  ultimately have a: "pair_inv (s', c')" "same_setup s s'" "balance (s, ?c) (s', c')" by (auto simp: acct_def)
  let ?s = "s'\<lparr>bn_conns := (bn_conns s)[i := c']\<rparr>"
  have w: "with_conn f i s = ?s" using True f a(2) by (simp add: with_conn_def same_setup_def)
  have "client_inv ?s c" if "c \<in> set (bn_conns ?s)" for c
  proof -
    have "client_inv ?s d = client_inv s d" for d using a(2) by (simp add: client_inv_def same_setup_def)
    moreover have "client_inv s c'" using a(1) client_inv_setup [OF a(2)] by (simp add: pair_inv_def)
    moreover have "c = c' \<or> c \<in> set (bn_conns s)" using that set_update_subset_insert [of "bn_conns s" i c'] by auto
    ultimately show ?thesis using assms by (auto simp: bench_inv_def)
  qed
  moreover have "int (bn_alive_count ?s) = int (length (filter alive (bn_conns ?s)))"
    "bn_connecting_count ?s = int (length (filter connecting (bn_conns ?s)))"
    using assms a(3) count_update [OF True, of alive c'] count_update [OF True, of connecting c']
    by (simp_all add: balance_def bench_inv_def)
  moreover have "weight ?s = weight s" using a(2) by (simp add: fun_eq_iff weight_def lost_def same_setup_def)
  then have "booked ?s = sum_list (map (weight ?s) (bn_conns ?s))"
    using assms a(3) True by (simp add: sum_update balance_def bench_inv_def booked_def)
  moreover have "samples_ok ?s" using a(2) assms by (simp add: same_setup_def bench_inv_def)
  ultimately have "bench_inv ?s" by (simp add: bench_inv_def)
  then show ?thesis using w a(2) by (simp add: kept_def same_setup_def)
next
  case False
  then show ?thesis by (simp add: with_conn_def kept_def)
qed

lemma each_conn_kept: "bench_inv s \<Longrightarrow> kept s (each_conn f s)"
  unfolding each_conn_def by (intro fold_kept with_conn_kept)

end

interpretation ev: conn_handler "onEvent events so_err" for events so_err
  by unfold_locales (rule onEvent_acct)

interpretation fin: conn_handler maybeFinish
  by unfold_locales (rule maybeFinish_acct)

interpretation ready_fin: conn_handler "\<lambda>w. if bc_state (snd w) = CReady then maybeFinish w else w"
  by unfold_locales (simp add: maybeFinish_acct)

interpretation begin_conn: conn_handler "start_conn t0" for t0
  by unfold_locales (rule start_conn_acct)

interpretation time_out: conn_handler "check_timeout now" for now
  by unfold_locales (rule check_timeout_acct)

lemma kept_inv: "kept s s' \<Longrightarrow> bench_inv s \<Longrightarrow> bench_inv s'"
  by (simp add: kept_def)

text \<open>A change of fields outside the books.\<close>

lemma kept_fields:
  assumes "bn_opts s' = bn_opts s" "bn_duration_mode s' = bn_duration_mode s" "bn_conns s' = bn_conns s" "samples_ok s \<Longrightarrow> samples_ok s'"
    and "booked s' = booked s" "bn_alive_count s' = bn_alive_count s" "bn_connecting_count s' = bn_connecting_count s"
  shows "kept s s'"
proof -
  have "weight s' = weight s" "client_inv s' = client_inv s" using assms(1,2) by (simp_all add: fun_eq_iff weight_def lost_def client_inv_def)
  then show ?thesis using assms by (auto simp: kept_def bench_inv_def)
qed

lemma kept_other:
  "same_setup s s' \<Longrightarrow> booked s' = booked s \<Longrightarrow> bn_alive_count s' = bn_alive_count s \<Longrightarrow> bn_connecting_count s' = bn_connecting_count s \<Longrightarrow> kept s s'"
  by (rule kept_fields) (auto simp: same_setup_def)

lemma nowNs_kept: "nowNs s = (t, s') \<Longrightarrow> kept s s'"
  using nowNs_quiet [of s t s' undefined] by (intro kept_other) (auto simp: quiet_def)

lemma maybeStart_kept:
  assumes "bench_inv s"
  shows "kept s (maybeStart s)"
proof -
  obtain t0 s1 where n: "nowNs (s\<lparr>bn_started := True\<rparr>) = (t0, s1)" by fastforce
  let ?s = "let s2 = s1\<lparr>bn_t0_ns := t0\<rparr> in if bn_duration_mode s2
     then s2\<lparr>bn_deadline_ns := t0 + of_int \<lfloor>dbl (number (o_duration (bn_opts s2)) * 1000000000)\<rfloor>\<rparr> else s2"
  have "quiet (s\<lparr>bn_started := True\<rparr>, undefined) (s1, undefined)" by (rule nowNs_quiet [OF n])
  then have k: "kept s ?s" by (intro kept_fields) (auto simp: quiet_def same_setup_def booked_def Let_def)
  then have "kept s (each_conn maybeFinish (each_conn (start_conn t0) ?s))"
    using assms kept_trans kept_inv begin_conn.each_conn_kept fin.each_conn_kept by meson
  then show ?thesis using n assms by (simp add: maybeStart_def Let_def kept_def)
qed

lemma periodicScan_kept:
  assumes "bench_inv s"
  shows "kept s (periodicScan s)"
proof -
  have f: "kept s (checkFinishes s)" using assms unfolding checkFinishes_def by (rule ready_fin.each_conn_kept)
  obtain now s1 where n: "nowNs (checkFinishes s) = (now, s1)" by fastforce
  then show ?thesis
    using kept_trans [OF f assms nowNs_kept [OF n]] kept_trans [OF _ assms time_out.each_conn_kept] assms kept_inv
    by (simp add: periodicScan_def checkTimeouts_def)
qed

lemma turn_kept:
  assumes "bench_inv s"
  shows "kept s (turn evs s)"
proof -
  let ?s = "maybeStart (fold (\<lambda>(i, ev, er). with_conn (onEvent ev er) i) evs s)"
  have f: "kept s (fold (\<lambda>(i, ev, er). with_conn (onEvent ev er) i) evs s)"
    by (rule fold_kept [OF _ assms]) (simp add: ev.with_conn_kept split: prod.split)
  have k: "kept s ?s" by (rule kept_trans [OF f assms maybeStart_kept [OF kept_inv [OF f assms]]])
  obtain now s1 where n: "nowNs ?s = (now, s1)" by fastforce
  have k1: "kept s s1" by (rule kept_trans [OF k assms nowNs_kept [OF n]])
  have "kept s1 (s1\<lparr>bn_last_scan_ns := now\<rparr>)" by (intro kept_other) (simp_all add: same_setup_def booked_def)
  then have "kept s (s1\<lparr>bn_last_scan_ns := now\<rparr>)" by (rule kept_trans [OF k1 assms])
  then have "kept s (periodicScan (s1\<lparr>bn_last_scan_ns := now\<rparr>))"
    using kept_trans [OF _ assms periodicScan_kept] kept_inv assms by blast
  then show ?thesis using k1 n by (simp add: turn_def scan_if_due_def)
qed

lemma event_loop_run_kept: "bench_inv s \<Longrightarrow> kept s (event_loop_run xs s)"
proof (induction xs arbitrary: s)
  case (Cons x xs)
  then have "kept s (event_loop_run xs (turn evs s))" for evs
    using kept_trans [OF turn_kept] kept_inv [OF turn_kept] by blast
  moreover have "kept s s" by (simp add: kept_def)
  ultimately show ?case using Cons by (auto split: sum.split)
qed (simp add: kept_def)


section \<open>Setting up\<close>

definition fresh :: "client \<Rightarrow> bool" where
  "fresh c \<longleftrightarrow> c = new_client\<lparr>bc_src_ip := bc_src_ip c\<rparr>"

definition setup_inv :: "nat \<Rightarrow> bench \<Rightarrow> bool" where
  "setup_inv i s \<longleftrightarrow>
     list_all (client_inv s) (take i (bn_conns s)) \<and> list_all fresh (drop i (bn_conns s)) \<and>
     bn_alive_count s = length (filter alive (bn_conns s)) \<and>
     bn_connecting_count s = int (length (filter connecting (bn_conns s))) \<and>
     booked s = sum_list (map (weight s) (bn_conns s)) \<and> 0 \<le> o_requests (bn_opts s) \<and> samples_ok s"

text \<open>Descriptors that \<open>socket\<close> returns are not negative.\<close>

definition answers_ok :: "connect_answers \<Rightarrow> bool" where
  "answers_ok ca \<longleftrightarrow> (case ca_socket ca of None \<Rightarrow> True | Some f \<Rightarrow> 0 \<le> f)"

lemma fresh_fields:
  assumes "fresh c"
  shows "\<not> alive c" "\<not> connecting c" "weight s c = 0" "bc_fd c = -1" "bc_state c = CConnecting" "bc_inflight c = 0" "bc_done_req c = 0"
    "bc_sent_req c = 0" "bc_ts c = []" "bc_ts_head c = 0"
proof -
  have "bc_fd c = bc_fd new_client" "bc_state c = bc_state new_client" "bc_inflight c = bc_inflight new_client"
    "bc_done_req c = bc_done_req new_client" "bc_sent_req c = bc_sent_req new_client" "bc_ts c = bc_ts new_client" "bc_ts_head c = bc_ts_head new_client"
    using assms unfolding fresh_def by (metis client.select_convs client.update_convs client.surjective)+
  then show "\<not> alive c" "\<not> connecting c" "weight s c = 0" "bc_fd c = -1" "bc_state c = CConnecting" "bc_inflight c = 0" "bc_done_req c = 0"
    "bc_sent_req c = 0" "bc_ts c = []" "bc_ts_head c = 0"
    by (simp_all add: new_client_def alive_def connecting_def weight_def)
qed

lemma startConnect_fields:
  assumes "startConnect ca i (s, c) = (b, s', c')" "fresh c" "answers_ok ca"
  shows "same_setup s s'" "booked s' = booked s" "bn_alive_count s' = bn_alive_count s" "bn_connecting_count s' = bn_connecting_count s"
    "bc_inflight c' = 0" "bc_done_req c' = 0" "bc_sent_req c' = 0" "bc_ts c' = []" "bc_ts_head c' = 0"
    "b \<Longrightarrow> 0 \<le> bc_fd c' \<and> (bc_state c' = CConnecting \<or> bc_state c' = CWaiting)"
proof -
  let ?c = "\<lambda>f. c\<lparr>bc_fd := f, bc_req := (if bn_http_mode s then buildHttpRequest (bn_opts s) (bn_host_header s) (int i) else bn_echo_payload s)\<rparr>"
  have "(\<not> b \<and> s' = s \<and> c' = c) \<or>
    (\<exists>f c1. 0 \<le> f \<and> quiet (s, ?c f) (s', c1) \<and>
       (b \<and> (c' = c1\<lparr>bc_state := CWaiting\<rparr> \<or> c' = c1\<lparr>bc_state := CConnecting\<rparr>) \<or> \<not> b \<and> c' = c1\<lparr>bc_fd := -1\<rparr>))"
  proof (cases "ca_socket ca")
    case (Some f)
    obtain s1 c1 where p: "set_progress (s, ?c f) = (s1, c1)" by fastforce
    have "quiet (s, ?c f) (s1, c1)" "0 \<le> f" using set_progress_quiet [of "(s, ?c f)"] p assms(3) Some by (simp_all add: answers_ok_def)
    then show ?thesis using Some p assms(1) by (cases "ca_connect ca") (auto simp: startConnect_def Let_def split: if_splits)
  qed (use assms(1) in \<open>simp add: startConnect_def\<close>)
  then show "same_setup s s'" "booked s' = booked s" "bn_alive_count s' = bn_alive_count s" "bn_connecting_count s' = bn_connecting_count s"
    "bc_inflight c' = 0" "bc_done_req c' = 0" "bc_sent_req c' = 0" "bc_ts c' = []" "bc_ts_head c' = 0"
    "b \<Longrightarrow> 0 \<le> bc_fd c' \<and> (bc_state c' = CConnecting \<or> bc_state c' = CWaiting)"
    using fresh_fields [OF assms(2)] by (auto simp: quiet_def same_setup_def)
qed

text \<open>A connection that is set up, in the position of a fresh one.\<close>

lemma setup_inv_update:
  assumes "setup_inv i s" "i < length (bn_conns s)" "same_setup s s'" "client_inv s c"
    and "booked s' = booked s + weight s c" "bn_alive_count s' = bn_alive_count s + of_bool (alive c)"
    and "bn_connecting_count s' = bn_connecting_count s + of_bool (connecting c)"
  shows "setup_inv (i + 1) (s'\<lparr>bn_conns := (bn_conns s')[i := c]\<rparr>)"
proof -
  let ?s = "s'\<lparr>bn_conns := (bn_conns s')[i := c]\<rparr>" and ?old = "bn_conns s ! i"
  have cs: "bn_conns s' = bn_conns s" using assms(3) by (simp add: same_setup_def)
  have "fresh ?old" using assms(1,2) by (auto simp: setup_inv_def Cons_nth_drop_Suc [symmetric])
  note old = fresh_fields [OF this]
  have w: "weight ?s = weight s" "client_inv ?s = client_inv s"
    using assms(3) by (auto simp: fun_eq_iff weight_def lost_def same_setup_def client_inv_def)
  have "int (bn_alive_count ?s) = int (length (filter alive (bn_conns ?s)))"
    "bn_connecting_count ?s = int (length (filter connecting (bn_conns ?s)))"
    using assms(1,6,7) count_update [OF assms(2), of alive c] count_update [OF assms(2), of connecting c] old
    by (simp_all add: setup_inv_def cs)
  moreover have "list_all (client_inv s) (take (i + 1) (bn_conns ?s))" "list_all fresh (drop (i + 1) (bn_conns ?s))"
    using assms(1,2,4) by (auto simp: setup_inv_def cs take_Suc_conv_app_nth Cons_nth_drop_Suc [symmetric])
  moreover have "booked ?s = sum_list (map (weight s) (bn_conns ?s))"
    using assms(1,2,5) old(3) [of s] by (simp add: setup_inv_def cs sum_update booked_def)
  ultimately show ?thesis unfolding setup_inv_def w using assms(1,3) by (simp add: setup_inv_def same_setup_def)
qed

lemma setup_one_inv:
  assumes "setup_inv i s" "i < length (bn_conns s)" "answers_ok ca" "setup_one ca i s = Some s'"
  shows "setup_inv (i + 1) s'" "bn_opts s' = bn_opts s" "length (bn_conns s') = length (bn_conns s)" "bn_duration_mode s' = bn_duration_mode s"
proof -
  let ?c = "bn_conns s ! i"
  obtain b s1 c1 where st: "startConnect ca i (s, ?c) = (b, s1, c1)" by (cases "startConnect ca i (s, ?c)")
  have "fresh ?c" using assms(1,2) by (auto simp: setup_inv_def Cons_nth_drop_Suc [symmetric])
  note f = startConnect_fields [OF st this assms(3)]
  have r: "0 \<le> o_requests (bn_opts s)" using assms(1) by (simp add: setup_inv_def)
  have "setup_inv (i + 1) s' \<and> bn_opts s' = bn_opts s \<and> length (bn_conns s') = length (bn_conns s) \<and> bn_duration_mode s' = bn_duration_mode s"
  proof (cases b)
    case True
    let ?s = "s1\<lparr>bn_alive_count := bn_alive_count s1 + 1,
       bn_connecting_count := (if bc_state c1 = CConnecting then bn_connecting_count s1 + 1 else bn_connecting_count s1)\<rparr>"
    let ?d = "c1\<lparr>bc_ev_mask := (if bc_state c1 = CConnecting then EPOLLIN OR EPOLLOUT else EPOLLIN)\<rparr>"
    have s': "s' = ?s\<lparr>bn_conns := (bn_conns ?s)[i := ?d]\<rparr>" using assms(4) st True by (simp add: setup_one_def Let_def split: if_splits)
    have "client_inv s ?d" "weight s ?d = 0" "alive ?d" "connecting ?d = (bc_state c1 = CConnecting)"
      using f True by (auto simp: client_inv_def weight_def alive_def connecting_def)
    then have "setup_inv (i + 1) s'"
      unfolding s' using f by (intro setup_inv_update [OF assms(1,2)]) (auto simp: same_setup_def booked_def)
    then show ?thesis using f(1) by (simp add: s' same_setup_def)
  next
    case False
    let ?s = "s1\<lparr>bn_err_hist := hist_inc ConnectFailed (bn_err_hist s1),
       bn_first_error := (if bn_first_error s1 = None then Some ConnectFailed else bn_first_error s1),
       bn_failed := (if bn_duration_mode s1 then bn_failed s1 else bn_failed s1 + o_requests (bn_opts s1)),
       bn_conn_failed := bn_conn_failed s1 + 1\<rparr>"
    let ?d = "c1\<lparr>bc_state := CFailed, bc_fd := -1\<rparr>"
    have s': "s' = ?s\<lparr>bn_conns := (bn_conns ?s)[i := ?d]\<rparr>" using assms(4) st False by (cases "i = 0") (simp_all add: setup_one_def Let_def)
    have "client_inv s ?d" "weight s ?d = (if bn_duration_mode s then 0 else o_requests (bn_opts s))" "\<not> alive ?d" "\<not> connecting ?d"
      using f r by (auto simp: client_inv_def weight_def lost_def alive_def connecting_def)
    then have "setup_inv (i + 1) s'"
      unfolding s' using f by (intro setup_inv_update [OF assms(1,2)]) (auto simp: same_setup_def booked_def)
    then show ?thesis using f(1) by (simp add: s' same_setup_def)
  qed
  then show "setup_inv (i + 1) s'" "bn_opts s' = bn_opts s" "length (bn_conns s') = length (bn_conns s)" "bn_duration_mode s' = bn_duration_mode s"
    by simp_all
qed

lemma setup_loop_inv:
  assumes "setup_loop cas i s = Some s'" "setup_inv i s" "list_all answers_ok cas" "i + length cas = length (bn_conns s)"
  shows "bench_inv s' \<and> bn_opts s' = bn_opts s \<and> length (bn_conns s') = length (bn_conns s) \<and> bn_duration_mode s' = bn_duration_mode s"
  using assms
proof (induction cas arbitrary: i s)
  case Nil
  then show ?case by (auto simp: setup_inv_def bench_inv_def list_all_iff)
next
  case (Cons ca cas)
  obtain s1 where o: "setup_one ca i s = Some s1" "setup_loop cas (i + 1) s1 = Some s'"
    using Cons.prems(1) by (auto split: option.splits)
  have i: "i < length (bn_conns s)" "answers_ok ca" using Cons.prems(3,4) by auto
  note s1 = setup_one_inv [OF Cons.prems(2) i o(1)]
  show ?case using Cons.IH [OF o(2) s1(1)] Cons.prems(3,4) s1 by simp
qed


lemma setupConns_inv:
  assumes "setupConns cas s = Some s'" "list_all answers_ok cas" "length cas = nat (o_conns (bn_opts s))" "0 \<le> o_requests (bn_opts s)"
    and "booked s = 0" "bn_alive_count s = 0" "bn_connecting_count s = 0" "samples_ok s"
  shows "bench_inv s'" "bn_opts s' = bn_opts s" "length (bn_conns s') = nat (o_conns (bn_opts s))" "bn_duration_mode s' = bn_duration_mode s"
proof -
  define cs where "cs = map (\<lambda>i. new_client\<lparr>bc_src_ip := bn_src_ips s ! (i mod length (bn_src_ips s))\<rparr>) [0..<nat (o_conns (bn_opts s))]"
  have f: "fresh c" if "c \<in> set cs" for c using that by (auto simp: cs_def fresh_def)
  note ff = fresh_fields [OF f]
  have "sum_list (map (weight (s\<lparr>bn_conns := cs\<rparr>)) ds) = 0" if "set ds \<subseteq> set cs" for ds
    using that by (induction ds) (simp_all add: ff(3))
  then have "filter alive cs = []" "filter connecting cs = []" "sum_list (map (weight (s\<lparr>bn_conns := cs\<rparr>)) cs) = 0"
    using ff(1,2) by (auto simp: filter_empty_conv)
  then have "setup_inv 0 (s\<lparr>bn_conns := cs\<rparr>)"
    using assms(4-8) f by (simp add: setup_inv_def list_all_iff booked_def)
  moreover have "setup_loop cas 0 (s\<lparr>bn_conns := cs\<rparr>) = Some s'" using assms(1) by (simp add: setupConns_def cs_def)
  moreover have "length cs = nat (o_conns (bn_opts s))" by (simp add: cs_def)
  ultimately show "bench_inv s'" "bn_opts s' = bn_opts s" "length (bn_conns s') = nat (o_conns (bn_opts s))" "bn_duration_mode s' = bn_duration_mode s"
    using setup_loop_inv [of cas 0 "s\<lparr>bn_conns := cs\<rparr>" s'] assms(2,3) by simp_all
qed

text \<open>The state in which \<open>run\<close> begins, with the answers that the kernel is going to give.\<close>

definition begin_run :: "options \<Rightarrow> bool \<Rightarrow> u64 list \<Rightarrow> (errno + nat) list \<Rightarrow> (errno + string) list \<Rightarrow> (fd \<Rightarrow> u32 \<Rightarrow> bool) \<Rightarrow> bench" where
  "begin_run opt loopback clock sends recvs mod_ok =
     (new_Bench opt loopback)\<lparr>bn_clock := clock, bn_sends := sends, bn_recvs := recvs, bn_epoll_mod := mod_ok\<rparr>"

lemma bench_run_inv:
  assumes "bench_run cas xs (begin_run opt lb ck ss rs em) = Inr s" "list_all answers_ok cas" "length cas = nat (o_conns opt)" "0 \<le> o_requests opt"
  shows "bench_inv s" "bn_opts s = opt" "length (bn_conns s) = nat (o_conns opt)" "bn_duration_mode s = above (o_duration opt) 0"
proof -
  let ?b = "prepareSourceIps (begin_run opt lb ck ss rs em)"
  obtain t1 s1 where n1: "nowNs ?b = (t1, s1)" by fastforce
  obtain s2 where s2: "setupConns cas (s1\<lparr>bn_setup_start_ns := t1\<rparr>) = Some s2"
    using assms(1) n1 by (auto simp: bench_run_def Let_def split: option.splits)
  obtain t3 s3 where n3: "nowNs s2 = (t3, s3)" by fastforce
  obtain t4 s4 where n4: "nowNs (event_loop_run xs (maybeStart (s3\<lparr>bn_last_scan_ns := t3\<rparr>))) = (t4, s4)" by fastforce
  have s: "s = s4\<lparr>bn_t1_ns := t4\<rparr>" using assms(1) n1 s2 n3 n4 by (simp add: bench_run_def)
  have q: "quiet (?b, undefined) (s1, undefined)" by (rule nowNs_quiet [OF n1])
  have b: "bn_opts ?b = opt" "bn_duration_mode ?b = above (o_duration opt) 0" "booked ?b = 0" "bn_alive_count ?b = 0" "bn_connecting_count ?b = 0"
    "samples_ok ?b"
    by (simp_all add: prepareSourceIps_def begin_run_def new_Bench_def booked_def samples_ok_def kMaxLatencySamples_def)
  have "booked (s1\<lparr>bn_setup_start_ns := t1\<rparr>) = 0" using q b(3) by (simp add: quiet_def booked_def)
  then have i2: "bench_inv s2" "bn_opts s2 = opt" "length (bn_conns s2) = nat (o_conns opt)" "bn_duration_mode s2 = above (o_duration opt) 0"
    using setupConns_inv [OF s2 assms(2)] assms(3,4) q b by (simp_all add: quiet_def same_setup_def)
  have k3: "kept s2 (s3\<lparr>bn_last_scan_ns := t3\<rparr>)"
    using nowNs_quiet [OF n3, of undefined] by (intro kept_other) (auto simp: quiet_def same_setup_def booked_def)
  have k4: "kept s2 (maybeStart (s3\<lparr>bn_last_scan_ns := t3\<rparr>))" by (rule kept_trans [OF k3 i2(1) maybeStart_kept [OF kept_inv [OF k3 i2(1)]]])
  have k5: "kept s2 (event_loop_run xs (maybeStart (s3\<lparr>bn_last_scan_ns := t3\<rparr>)))"
    by (rule kept_trans [OF k4 i2(1) event_loop_run_kept [OF kept_inv [OF k4 i2(1)]]])
  have k6: "kept s2 s4" by (rule kept_trans [OF k5 i2(1) nowNs_kept [OF n4]])
  have "kept s4 s" unfolding s by (intro kept_other) (simp_all add: same_setup_def booked_def)
  then have "kept s2 s" by (rule kept_trans [OF k6 i2(1)])
  then show "bench_inv s" "bn_opts s = opt" "length (bn_conns s) = nat (o_conns opt)" "bn_duration_mode s = above (o_duration opt) 0"
    using i2 by (auto simp: kept_def)
qed

lemma run_accounted:
  assumes "parseArgs strtod args = Args opt" "list_all answers_ok cas" "length cas = nat (o_conns opt)"
    and "bench_run cas xs (begin_run opt lb ck ss rs em) = Inr s" "bn_alive_count s = 0" "\<not> above (o_duration opt) 0"
  shows "bn_ok s + bn_bad_status s + bn_failed s = sum_list (map (\<lambda>c. max (o_requests opt) (bc_done_req c)) (bn_conns s)) \<and>
    o_conns opt * o_requests opt \<le> bn_ok s + bn_bad_status s + bn_failed s \<and>
    (exit_code s = 0 \<longrightarrow> o_conns opt * o_requests opt \<le> bn_ok s)"
proof -
  have r: "in_ranges opt" using parseArgs_ranges_in [OF assms(1)] .
  note i = bench_run_inv [OF assms(4,2,3)]
  have inv: "bench_inv s" "bn_opts s = opt" "length (bn_conns s) = nat (o_conns opt)" "\<not> bn_duration_mode s"
    using i r assms(6) by (simp_all add: in_ranges_def)
  have "weight s c = max (o_requests opt) (bc_done_req c)" if "c \<in> set (bn_conns s)" for c
  proof -
    have "client_inv s c" "\<not> alive c" using inv(1) that assms(5) by (auto simp: bench_inv_def filter_empty_conv)
    then show ?thesis using inv(2,4) by (auto simp: client_inv_def alive_def weight_def lost_def)
  qed
  then have "booked s = sum_list (map (\<lambda>c. max (o_requests opt) (bc_done_req c)) (bn_conns s))"
    using inv(1) by (simp add: bench_inv_def cong: map_cong)
  moreover have "int (length cs) * o_requests opt \<le> sum_list (map (\<lambda>c. max (o_requests opt) (bc_done_req c)) cs)" for cs
    by (induction cs) (auto simp: algebra_simps)
  then have "int (length (bn_conns s)) * o_requests opt \<le> sum_list (map (\<lambda>c. max (o_requests opt) (bc_done_req c)) (bn_conns s))" .
  then have "o_conns opt * o_requests opt \<le> sum_list (map (\<lambda>c. max (o_requests opt) (bc_done_req c)) (bn_conns s))"
    using inv(3) r by (simp add: in_ranges_def)
  ultimately show ?thesis by (auto simp: booked_def exit_code_def split: if_splits)
qed

section \<open>Properties\<close>

text \<open>
  C14: The books are right at every moment. Whatever the kernel answers and whatever the peer sends, as long
  as no echoed chunk is compared past the end of the payload, after any number of events the counter of live connections and the counter of connecting ones are the numbers of
  such connections, no connection has more than \<open>pipeline\<close> requests on the way, its queue of sending times
  has one entry for each of them, and its descriptor is open exactly if it has not ended.
\<close>

theorem bench_counts:
  assumes "parseArgs strtod args = Args opt" "list_all answers_ok cas" "length cas = nat (o_conns opt)"
    and "bench_run cas xs (begin_run opt lb ck ss rs em) = Inr s" "\<not> bn_overread s"
  shows "bn_alive_count s = length (filter alive (bn_conns s)) \<and>
    bn_connecting_count s = int (length (filter connecting (bn_conns s))) \<and>
    (\<forall>c \<in> set (bn_conns s). 0 \<le> bc_inflight c \<and> bc_inflight c \<le> o_pipeline opt \<and>
       bc_inflight c = int (length (drop (bc_ts_head c) (bc_ts c))) \<and>
       (bc_fd c \<ge> 0 \<longleftrightarrow> bc_state c \<noteq> CDone \<and> bc_state c \<noteq> CFailed))"
proof -
  have r: "in_ranges opt" using parseArgs_ranges_in [OF assms(1)] .
  note i = bench_run_inv [OF assms(4,2,3)]
  have "bench_inv s" "bn_opts s = opt" using i r by (simp_all add: in_ranges_def)
  then show ?thesis using r by (auto simp: bench_inv_def client_inv_def in_ranges_def)
qed

definition echo_args :: "(nat \<times> string) list" where
  "echo_args = [(1001, ''1''), (1002, ''1''), (1003, ''1''), (1004, ''1'')]"

definition echo_opts :: options where
  "echo_opts = default_options\<lparr>o_port := 1, o_conns := 1, o_requests := 1, o_size := 1\<rparr>"

definition echo_run :: "int + bench" where
  "echo_run = bench_run [\<lparr>ca_socket = Some 5, ca_bind = True, ca_connect = None, ca_add = True\<rparr>] [Inr [(0, 1, Inr 0)]]
     (begin_run echo_opts True [] [Inr 1] [Inr ''a''] (\<lambda>_ _. True))"

lemma echo_run_end:
  "case echo_run of Inl _ \<Rightarrow> False | Inr s \<Rightarrow> bn_alive_count s = 0 \<and> bn_ok s = 1 \<and> bn_bad_status s = 0 \<and> bn_failed s = 0 \<and> \<not> bn_overread s \<and> length (bn_conns s) = 1"
  by code_simp

lemma echo_args_parsed: "parseArgs (\<lambda>s. (False, Fin 0, s)) echo_args = Args echo_opts"
proof -
  have i: "parseIntArg n ''1'' lo hi = (if lo \<le> 1 \<and> 1 \<le> hi then Inr 1 else Inl (NotInRange n lo hi 1))" for n lo hi
    by (simp add: parseIntArg_def strtol_digits_def c_str_def isspace_def isdigit_def)
  then show ?thesis
    by (simp add: echo_args_def echo_opts_def parseArgs_def parse_option_def int_opt_def check_options_def default_options_def kMaxOutBuffer_def)
qed

lemma bench_counts_witness:
  "\<exists>s. echo_run = Inr s \<and> bn_alive_count s = length (filter alive (bn_conns s)) \<and> length (bn_conns s) = 1"
proof -
  obtain s where s: "echo_run = Inr s" "length (bn_conns s) = 1" "\<not> bn_overread s" using echo_run_end by (auto split: sum.splits)
  have "bn_alive_count s = length (filter alive (bn_conns s))"
    using bench_counts [OF echo_args_parsed _ _ s(1) [unfolded echo_run_def] s(3)] by (simp add: answers_ok_def echo_opts_def)
  with s show ?thesis by blast
qed

end
