(* ===== verification/BenchEnd.thy ===== *)
theory BenchEnd
  imports BenchCount
begin

text \<open>
  The end of a run of the load generator when the server falls silent: the scan of \<open>echo_bench.cc\<close> closes every
  connection that made no progress within its limit, so the event loop, which runs while a connection is alive, ends. On the way: after the common
  start no connection is left waiting for it.
\<close>

section \<open>Handlers that pass over all connections\<close>

text \<open>
  \<open>f\<close> keeps a property \<open>Q\<close> of the state outside the connections and turns \<open>P\<close> of a connection into \<open>R\<close>. Then
  \<open>each_conn f\<close> turns \<open>P\<close> of all connections into \<open>R\<close> of all of them.
\<close>

locale conn_pass =
  fixes f :: "bench \<times> client \<Rightarrow> bench \<times> client" and Q :: "bench \<Rightarrow> bool" and P R :: "client \<Rightarrow> bool"
  assumes pass: "Q s \<Longrightarrow> P c \<Longrightarrow> f (s, c) = (s', c') \<Longrightarrow> Q s' \<and> R c' \<and> bn_conns s' = bn_conns s"
    and outside: "Q s \<Longrightarrow> Q (s\<lparr>bn_conns := cs\<rparr>)"
begin

lemma pass_upto:
  assumes "Q s" "list_all P (bn_conns s)" "n \<le> length (bn_conns s)"
  shows "Q (fold (with_conn f) [0..<n] s) \<and> length (bn_conns (fold (with_conn f) [0..<n] s)) = length (bn_conns s) \<and>
    (\<forall>k < length (bn_conns s). if k < n then R (bn_conns (fold (with_conn f) [0..<n] s) ! k)
       else bn_conns (fold (with_conn f) [0..<n] s) ! k = bn_conns s ! k)"
  using assms(3)
proof (induction n)
  case (Suc n)
  let ?s = "fold (with_conn f) [0..<n] s"
  obtain s' c where fc: "f (?s, bn_conns ?s ! n) = (s', c)" by fastforce
  have IH: "Q ?s" "length (bn_conns ?s) = length (bn_conns s)"
    "\<And>k. k < length (bn_conns s) \<Longrightarrow> if k < n then R (bn_conns ?s ! k) else bn_conns ?s ! k = bn_conns s ! k"
    using Suc.IH Suc.prems by simp_all
  have "P (bn_conns ?s ! n)" using IH(3) [of n] assms(2) Suc.prems by (simp add: list_all_length)
  from pass [OF IH(1) this fc] have r: "Q s'" "R c" "bn_conns s' = bn_conns ?s" by simp_all
  have "with_conn f n ?s = s'\<lparr>bn_conns := (bn_conns ?s)[n := c]\<rparr>" using fc r(3) Suc.prems IH(2) by (simp add: with_conn_def)
  then show ?case using r(2) outside [OF r(1)] IH(2,3) Suc.prems by (auto simp: nth_list_update less_Suc_eq)
qed (use assms(1) in simp)

lemma pass_all:
  assumes "Q s" "list_all P (bn_conns s)"
  shows "Q (each_conn f s)" "list_all R (bn_conns (each_conn f s))"
  using pass_upto [OF assms order_refl] by (auto simp: each_conn_def list_all_length)

end

section \<open>After the common start no connection waits for it\<close>

definition running :: "bench \<Rightarrow> bool" where
  "running s \<longleftrightarrow> (bn_started s \<longrightarrow> (\<forall>c \<in> set (bn_conns s). bc_state c \<noteq> CWaiting))"

context conn_handler
begin

lemma with_conn_at:
  assumes "bench_inv s" "i < length (bn_conns s)"
  obtains s' c where "f (s, bn_conns s ! i) = (s', c)" "with_conn f i s = s'\<lparr>bn_conns := (bn_conns s)[i := c]\<rparr>"
    "bn_started s' = bn_started s" "bn_started s \<Longrightarrow> bc_state c = CWaiting \<Longrightarrow> bc_state (bn_conns s ! i) = CWaiting"
proof -
  obtain s' c where f: "f (s, bn_conns s ! i) = (s', c)" by fastforce
  have "pair_inv (s, bn_conns s ! i)" using assms by (intro bench_inv_pair) simp_all
  then have "same_setup s s'" "balance (s, bn_conns s ! i) (s', c)"
    using handler_acct [of "(s, bn_conns s ! i)"] f by (auto simp: acct_def)
  then show ?thesis using that [OF f] assms(2) f by (simp add: with_conn_def same_setup_def balance_def)
qed

lemma with_conn_running:
  assumes "bench_inv s" "running s"
  shows "running (with_conn f i s)"
proof (cases "i < length (bn_conns s)")
  case True
  from with_conn_at [OF assms(1) True] obtain s' c where
    w: "with_conn f i s = s'\<lparr>bn_conns := (bn_conns s)[i := c]\<rparr>" "bn_started s' = bn_started s"
    "bn_started s \<Longrightarrow> bc_state c = CWaiting \<Longrightarrow> bc_state (bn_conns s ! i) = CWaiting" by metis
  then show ?thesis
    using assms(2) True set_update_subset_insert [of "bn_conns s" i c] by (auto simp: running_def)
qed (use assms in \<open>simp add: with_conn_def\<close>)

lemma each_conn_running:
  assumes "bench_inv s" "running s"
  shows "bench_inv (each_conn f s)" "running (each_conn f s)"
proof -
  have "bench_inv (fold (with_conn f) js s) \<and> running (fold (with_conn f) js s)" for js
    using assms with_conn_running kept_inv [OF with_conn_kept] by (induction js arbitrary: s) auto
  then show "bench_inv (each_conn f s)" "running (each_conn f s)" by (simp_all add: each_conn_def)
qed

text \<open>A handler after which its connection does not wait.\<close>

lemma each_conn_lands:
  assumes lands: "\<And>w. pair_inv w \<Longrightarrow> bn_started (fst w) \<Longrightarrow> bc_state (snd (f w)) \<noteq> CWaiting"
    and s: "bench_inv s" "bn_started s"
  shows "running (each_conn f s)"
proof -
  have "bench_inv (fold (with_conn f) [0..<n] s) \<and> bn_started (fold (with_conn f) [0..<n] s) \<and>
      length (bn_conns (fold (with_conn f) [0..<n] s)) = length (bn_conns s) \<and>
      (\<forall>k < n. bc_state (bn_conns (fold (with_conn f) [0..<n] s) ! k) \<noteq> CWaiting)" if "n \<le> length (bn_conns s)" for n
    using that
  proof (induction n)
    case (Suc n)
    let ?s = "fold (with_conn f) [0..<n] s"
    have IH: "bench_inv ?s" "bn_started ?s" "length (bn_conns ?s) = length (bn_conns s)"
      "\<And>k. k < n \<Longrightarrow> bc_state (bn_conns ?s ! k) \<noteq> CWaiting" and n: "n < length (bn_conns ?s)"
      using Suc by simp_all
    from with_conn_at [OF IH(1) n] obtain s' c where w: "f (?s, bn_conns ?s ! n) = (s', c)"
      "with_conn f n ?s = s'\<lparr>bn_conns := (bn_conns ?s)[n := c]\<rparr>" "bn_started s' = bn_started ?s" by metis
    have "pair_inv (?s, bn_conns ?s ! n)" using n by (intro bench_inv_pair [OF IH(1)]) simp
    from lands [OF this] IH(2) w(1) have "bc_state c \<noteq> CWaiting" by simp
    then show ?case
      using w(2,3) IH n kept_inv [OF with_conn_kept [OF IH(1), of n] IH(1)] by (auto simp: nth_list_update less_Suc_eq)
  qed (use s in simp)
  from this [OF order_refl] show ?thesis by (auto simp: running_def each_conn_def in_set_conv_nth)
qed

end

lemma running_fields: "bn_started s' = bn_started s \<Longrightarrow> bn_conns s' = bn_conns s \<Longrightarrow> running s' = running s"
  by (simp add: running_def)

lemma running_now: "nowNs s = (t, s') \<Longrightarrow> running s' = running s"
  by (rule running_fields) (auto simp: nowNs_def split: list.splits)

lemma start_conn_lands:
  assumes "pair_inv w" "bn_started (fst w)"
  shows "bc_state (snd (start_conn t w)) \<noteq> CWaiting"
proof (cases "bc_state (snd w) = CWaiting")
  case True
  let ?w = "(fst w, (snd w)\<lparr>bc_state := CReady, bc_last_progress := t\<rparr>)"
  have "pair_inv ?w" using assms(1) True by (auto simp: pair_inv_def client_inv_def alive_def connecting_def)
  then have "balance ?w (pump ?w)" using pump_acct [of ?w] by (auto simp: acct_def)
  then show ?thesis using True assms(2) by (auto simp: start_conn_def balance_def)
qed (simp add: start_conn_def)

lemma maybeStart_running:
  assumes "bench_inv s" "running s"
  shows "running (maybeStart s)"
proof (cases "bn_started s \<or> bn_connecting_count s > 0")
  case False
  obtain t0 s1 where n: "nowNs (s\<lparr>bn_started := True\<rparr>) = (t0, s1)" by fastforce
  define s2 where "s2 = (let s2 = s1\<lparr>bn_t0_ns := t0\<rparr> in if bn_duration_mode s2
     then s2\<lparr>bn_deadline_ns := t0 + of_int \<lfloor>dbl (number (o_duration (bn_opts s2)) * 1000000000)\<rfloor>\<rparr> else s2)"
  have q: "quiet (s\<lparr>bn_started := True\<rparr>, undefined) (s1, undefined)" by (rule nowNs_quiet [OF n])
  then have "bn_started s2" by (simp add: s2_def quiet_def same_setup_def Let_def)
  have "kept s s2" unfolding s2_def using q by (intro kept_fields) (auto simp: quiet_def same_setup_def booked_def Let_def)
  then have "bench_inv s2" using kept_inv assms(1) by blast
  with begin_conn.each_conn_lands [OF start_conn_lands this \<open>bn_started s2\<close>]
  have "running (each_conn maybeFinish (each_conn (start_conn t0) s2))"
    using fin.each_conn_running(2) kept_inv [OF begin_conn.each_conn_kept] by blast
  then show ?thesis using False n by (simp add: maybeStart_def s2_def Let_def)
qed (use assms(2) in \<open>auto simp: maybeStart_def\<close>)

lemma periodicScan_running:
  assumes "bench_inv s" "running s"
  shows "running (periodicScan s)"
proof -
  note f = ready_fin.each_conn_running [OF assms, folded checkFinishes_def]
  obtain now s1 where n: "nowNs (checkFinishes s) = (now, s1)" by fastforce
  then show ?thesis
    using time_out.each_conn_running(2) [OF kept_inv [OF nowNs_kept [OF n] f(1)]] running_now [OF n] f(2)
    by (simp add: periodicScan_def checkTimeouts_def)
qed

lemma turn_running:
  assumes "bench_inv s" "running s"
  shows "running (turn evs s)"
proof -
  let ?f = "\<lambda>(i, ev, er). with_conn (onEvent ev er) i"
  have "bench_inv (fold ?f evs s) \<and> running (fold ?f evs s)"
    using assms ev.with_conn_running kept_inv [OF ev.with_conn_kept] by (induction evs arbitrary: s) (auto split: prod.split)
  then have m: "bench_inv (maybeStart (fold ?f evs s))" "running (maybeStart (fold ?f evs s))"
    using maybeStart_running kept_inv [OF maybeStart_kept] by blast+
  obtain now s1 where n: "nowNs (maybeStart (fold ?f evs s)) = (now, s1)" by fastforce
  have s1: "bench_inv s1" "running s1" using kept_inv [OF nowNs_kept [OF n] m(1)] running_now [OF n] m(2) by simp_all
  have "kept s1 (s1\<lparr>bn_last_scan_ns := now\<rparr>)" by (intro kept_fields) (simp_all add: booked_def)
  then have "running (periodicScan (s1\<lparr>bn_last_scan_ns := now\<rparr>))"
    using s1 kept_inv periodicScan_running running_fields [of "s1\<lparr>bn_last_scan_ns := now\<rparr>" s1] by simp
  then show ?thesis using n s1(2) by (simp add: turn_def scan_if_due_def)
qed

lemma event_loop_run_running: "bench_inv s \<Longrightarrow> running s \<Longrightarrow> running (event_loop_run xs s)"
proof (induction xs arbitrary: s)
  case (Cons x xs)
  then have "running (event_loop_run xs (turn evs s))" for evs
    using turn_running kept_inv [OF turn_kept] by blast
  then show ?case using Cons by (auto split: sum.split)
qed simp

lemma setup_loop_started: "setup_loop cas i s = Some s' \<Longrightarrow> bn_started s' = bn_started s"
proof (induction cas arbitrary: i s)
  case (Cons ca cas)
  obtain s1 where s1: "setup_one ca i s = Some s1" "setup_loop cas (i + 1) s1 = Some s'" using Cons.prems by (auto split: option.splits)
  have "bn_started s1 = bn_started s"
    using s1(1) by (auto simp: setup_one_def startConnect_def set_progress_def nowNs_def Let_def
        split: option.splits prod.splits bool.splits if_splits list.splits)
  with Cons.IH [OF s1(2)] show ?case by simp
qed simp

lemma bench_run_running:
  assumes "bench_run cas xs (begin_run opt lb ck ss rs em) = Inr s" "list_all answers_ok cas" "length cas = nat (o_conns opt)" "0 \<le> o_requests opt"
  shows "running s"
proof -
  let ?b = "prepareSourceIps (begin_run opt lb ck ss rs em)"
  obtain t1 s1 where n1: "nowNs ?b = (t1, s1)" by fastforce
  obtain s2 where s2: "setupConns cas (s1\<lparr>bn_setup_start_ns := t1\<rparr>) = Some s2"
    using assms(1) n1 by (auto simp: bench_run_def Let_def split: option.splits)
  obtain t3 s3 where n3: "nowNs s2 = (t3, s3)" by fastforce
  let ?s3 = "s3\<lparr>bn_last_scan_ns := t3\<rparr>"
  obtain t4 s4 where n4: "nowNs (event_loop_run xs (maybeStart ?s3)) = (t4, s4)" by fastforce
  have s: "s = s4\<lparr>bn_t1_ns := t4\<rparr>" using assms(1) n1 s2 n3 n4 by (simp add: bench_run_def)
  have b: "bn_opts ?b = opt" "booked ?b = 0" "bn_alive_count ?b = 0" "bn_connecting_count ?b = 0" "samples_ok ?b" "\<not> bn_started ?b"
    by (simp_all add: prepareSourceIps_def begin_run_def new_Bench_def booked_def samples_ok_def kMaxLatencySamples_def)
  have q: "quiet (?b, undefined) (s1, undefined)" by (rule nowNs_quiet [OF n1])
  then have "booked (s1\<lparr>bn_setup_start_ns := t1\<rparr>) = 0" using b(2) by (simp add: quiet_def booked_def)
  then have i2: "bench_inv s2" using setupConns_inv(1) [OF s2 assms(2)] assms(3,4) q b by (simp add: quiet_def same_setup_def)
  have "\<not> bn_started s2" using setup_loop_started q b(6) s2 by (fastforce simp: setupConns_def Let_def quiet_def same_setup_def)
  then have r3: "running ?s3" using running_now [OF n3] running_fields [of ?s3 s3] by (simp add: running_def)
  have "kept s2 ?s3" using nowNs_quiet [OF n3, of undefined] by (intro kept_other) (auto simp: quiet_def same_setup_def booked_def)
  then have i3: "bench_inv ?s3" using i2 by (rule kept_inv)
  have "running (event_loop_run xs (maybeStart ?s3))"
    by (rule event_loop_run_running [OF kept_inv [OF maybeStart_kept [OF i3] i3] maybeStart_running [OF i3 r3]])
  then show ?thesis using running_now [OF n4] running_fields [of s s4] by (simp add: s)
qed

section \<open>Silence\<close>

definition clock_times :: "bench \<Rightarrow> u64 set" where
  "clock_times s = set (bn_now s # bn_clock s)"

text \<open>A connection that has ended, or whose limit is over at each of the clock_times \<open>T\<close>.\<close>

definition overdue :: "u64 set \<Rightarrow> u64 \<Rightarrow> u64 \<Rightarrow> client \<Rightarrow> bool" where
  "overdue T connect read c \<longleftrightarrow> alive c \<longrightarrow>
     (\<forall>t \<in> T. (if bc_state c = CConnecting then connect else read) < t - bc_last_progress c)"

definition clocked :: "u64 set \<Rightarrow> u64 \<Rightarrow> u64 \<Rightarrow> bench \<Rightarrow> bool" where
  "clocked T connect read s \<longleftrightarrow> clock_times s \<subseteq> T \<and> bn_connect_timeout_ns s = connect \<and> bn_timeout_ns s = read"

lemma clocked_now:
  "nowNs s = (t, s') \<Longrightarrow> clocked T connect read s \<Longrightarrow> clocked T connect read s' \<and> t \<in> T \<and> bn_conns s' = bn_conns s"
  by (auto simp: nowNs_def clocked_def clock_times_def split: list.splits)

lemma clocked_more:
  "moreRequests c s = (b, s') \<Longrightarrow> clocked T connect read s \<Longrightarrow> clocked T connect read s' \<and> bn_conns s' = bn_conns s"
  by (auto simp: moreRequests_def dest: clocked_now split: if_splits prod.splits)

lemma clocked_fail: "clocked T connect read s \<Longrightarrow> clocked T connect read (fst (failConn cat (s, c))) \<and> bn_conns (fst (failConn cat (s, c))) = bn_conns s"
  by (simp add: failConn_def bench_closeConn_def clocked_def clock_times_def Let_def)

lemma failConn_dead: "\<not> alive (snd (failConn cat w))"
  by (auto simp: failConn_def bench_closeConn_def alive_def Let_def)

interpretation finish: conn_pass "\<lambda>w. if bc_state (snd w) = CReady then maybeFinish w else w"
  "clocked T connect read" "\<lambda>c. overdue T connect read c \<and> bc_state c \<noteq> CWaiting" "\<lambda>c. overdue T connect read c \<and> bc_state c \<noteq> CWaiting" for T connect read
proof unfold_locales
  fix s c s' c'
  assume a: "clocked T connect read s" "overdue T connect read c \<and> bc_state c \<noteq> CWaiting"
    "(if bc_state (snd (s, c)) = CReady then maybeFinish (s, c) else (s, c)) = (s', c')"
  obtain b s1 where m: "moreRequests c s = (b, s1)" by fastforce
  have "overdue T connect read (snd (bench_closeConn True (s1, c)))" "bc_state (snd (bench_closeConn True (s1, c))) \<noteq> CWaiting"
    by (simp_all add: overdue_def alive_def bench_closeConn_def Let_def)
  moreover have "clocked T connect read (fst (bench_closeConn True (s1, c)))" "bn_conns (fst (bench_closeConn True (s1, c))) = bn_conns s"
    using clocked_more [OF m a(1)] by (simp_all add: bench_closeConn_def clocked_def clock_times_def Let_def)
  ultimately show "clocked T connect read s' \<and> (overdue T connect read c' \<and> bc_state c' \<noteq> CWaiting) \<and> bn_conns s' = bn_conns s"
    using a m clocked_more [OF m a(1)] by (auto simp: maybeFinish_def split: if_splits bool.splits)
qed (simp add: clocked_def clock_times_def)

interpretation time_up: conn_pass "check_timeout now" "\<lambda>s. clocked T connect read s \<and> now \<in> T"
  "\<lambda>c. overdue T connect read c \<and> bc_state c \<noteq> CWaiting" "\<lambda>c. \<not> alive c" for T connect read now
proof unfold_locales
  fix s c s' c'
  assume a: "clocked T connect read s \<and> now \<in> T" "overdue T connect read c \<and> bc_state c \<noteq> CWaiting" "check_timeout now (s, c) = (s', c')"
  show "(clocked T connect read s' \<and> now \<in> T) \<and> \<not> alive c' \<and> bn_conns s' = bn_conns s"
  proof (cases "alive c")
    case True
    then have "\<exists>cat. failConn cat (s, c) = (s', c')"
      using a by (auto simp: check_timeout_def overdue_def clocked_def Let_def not_le split: if_splits)
    then obtain cat where "failConn cat (s, c) = (s', c')" ..
    then show ?thesis using a(1) clocked_fail [of T connect read s cat c] failConn_dead [of cat "(s, c)"] by simp
  qed (use a in \<open>simp add: check_timeout_def\<close>)
qed (simp add: clocked_def clock_times_def)

lemma periodicScan_ends:
  assumes "clocked T connect read s" "list_all (\<lambda>c. overdue T connect read c \<and> bc_state c \<noteq> CWaiting) (bn_conns s)"
  shows "list_all (\<lambda>c. \<not> alive c) (bn_conns (periodicScan s))"
proof -
  note f = finish.pass_all [OF assms]
  obtain now s1 where n: "nowNs (checkFinishes s) = (now, s1)" by fastforce
  have "clocked T connect read s1 \<and> now \<in> T" "bn_conns s1 = bn_conns (checkFinishes s)"
    using clocked_now [OF n] f(1) by (auto simp: checkFinishes_def)
  from time_up.pass_all(2) [OF this(1)] this(2) f(2) n show ?thesis
    by (simp add: periodicScan_def checkTimeouts_def checkFinishes_def)
qed

lemma turn_ends:
  assumes "bench_inv s" "bn_started s" "running s" "\<And>t. t \<in> clock_times s \<Longrightarrow> kScanIntervalNs \<le> t - bn_last_scan_ns s"
    "\<And>c. c \<in> set (bn_conns s) \<Longrightarrow> overdue (clock_times s) (bn_connect_timeout_ns s) (bn_timeout_ns s) c"
  shows "bn_alive_count (turn [] s) = 0"
proof -
  obtain now s1 where n: "nowNs s = (now, s1)" by fastforce
  have "clocked (clock_times s) (bn_connect_timeout_ns s) (bn_timeout_ns s) s" by (simp add: clocked_def)
  note c = clocked_now [OF n this]
  have "bn_last_scan_ns s1 = bn_last_scan_ns s" using n by (auto simp: nowNs_def split: list.splits)
  then have "turn [] s = periodicScan (s1\<lparr>bn_last_scan_ns := now\<rparr>)"
    using n c assms(2,4) by (simp add: turn_def maybeStart_def scan_if_due_def)
  moreover have "list_all (\<lambda>c. \<not> alive c) (bn_conns (periodicScan (s1\<lparr>bn_last_scan_ns := now\<rparr>)))"
    using c assms(2,3,5) by (intro periodicScan_ends [where T = "clock_times s"]) (auto simp: clocked_def clock_times_def list_all_iff running_def)
  moreover have "bench_inv (turn [] s)" using kept_inv [OF turn_kept [OF assms(1)] assms(1)] .
  ultimately show ?thesis by (simp add: bench_inv_def list_all_iff)
qed

section \<open>Properties\<close>

text \<open>
  C15: A run ends when the server falls silent. Whatever happened before, once the run has started: if no further
  event arrives and at every time the clock still shows the interval between scans and the limit of each live
  connection are over, then the next turn of the event loop ends every connection, so the loop ends.
\<close>

theorem silence_ends_run:
  assumes "parseArgs strtod args = Args opt" "list_all answers_ok cas" "length cas = nat (o_conns opt)"
    and "bench_run cas xs (begin_run opt lb ck ss rs em) = Inr s" "bn_started s"
    and "\<And>t. t \<in> clock_times s \<Longrightarrow> kScanIntervalNs \<le> t - bn_last_scan_ns s"
    and "\<And>c. c \<in> set (bn_conns s) \<Longrightarrow> overdue (clock_times s) (bn_connect_timeout_ns s) (bn_timeout_ns s) c"
  shows "bn_alive_count (event_loop_run (Inr [] # ys) s) = 0 \<and>
    event_loop_run (Inr [] # ys) s = event_loop_run [Inr []] s"
proof -
  have "bench_inv s" "running s"
    using bench_run_inv [OF assms(4,2,3)] bench_run_running [OF assms(4,2,3)] parseArgs_ranges_in [OF assms(1)]
    by (simp_all add: in_ranges_def)
  note e = turn_ends [OF this(1) assms(5) this(2) assms(6,7)]
  then have "event_loop_run ys (turn [] s) = turn [] s" by (cases ys) simp_all
  then show ?thesis using e by simp
qed

definition silent_run :: "int + bench" where
  "silent_run = bench_run [\<lparr>ca_socket = Some 5, ca_bind = True, ca_connect = None, ca_add = True\<rparr>] []
     (begin_run echo_opts True (replicate 6 0 @ [1000000000000000]) [Inr 1] [] (\<lambda>_ _. True))"

lemma silent_run_state:
  "case silent_run of Inl _ \<Rightarrow> False
   | Inr s \<Rightarrow> bn_started s \<and> bn_alive_count s = 1 \<and> bn_now s = 1000000000000000 \<and> bn_clock s = [] \<and> bn_last_scan_ns s = 0 \<and>
       bn_timeout_ns s = 5000000000 \<and> map (\<lambda>c. (bc_state c, bc_last_progress c)) (bn_conns s) = [(CReady, 0)]"
  by code_simp

theorem silence_ends_run_witness:
  "\<exists>s. silent_run = Inr s \<and> bn_alive_count s = 1 \<and> bn_alive_count (event_loop_run (Inr [] # [Inr []]) s) = 0"
proof -
  obtain s where s: "silent_run = Inr s" "bn_started s" "bn_alive_count s = 1" "bn_now s = 1000000000000000" "bn_clock s = []"
    "bn_last_scan_ns s = 0" "bn_timeout_ns s = 5000000000" "map (\<lambda>c. (bc_state c, bc_last_progress c)) (bn_conns s) = [(CReady, 0)]"
    using silent_run_state by (auto split: sum.splits)
  have "bc_state c = CReady \<and> bc_last_progress c = 0" if "c \<in> set (bn_conns s)" for c using s(8) that by auto
  then have "bn_alive_count (event_loop_run (Inr [] # [Inr []]) s) = 0"
    using s by (intro silence_ends_run [OF echo_args_parsed _ _ s(1) [unfolded silent_run_def] s(2), THEN conjunct1])
      (auto simp: answers_ok_def echo_opts_def clock_times_def overdue_def kScanIntervalNs_def)
  with s(1,3) show ?thesis by blast
qed

end
