(* ===== verification/BenchMain.thy ===== *)
theory BenchMain
  imports BenchCount
begin

text \<open>
  \<open>bench/echo_bench.cc\<close>, last part: \<open>main\<close> and the parts of \<open>run\<close> before the connections are opened. What the
  program asks of its surroundings is a record: name resolution, the trial connection, the range of local
  ports, \<open>epoll_create1\<close>, the answers while the connections are opened, and the answers of the kernel during the run.
  What is printed at the end is in \<open>BenchReport\<close>.
\<close>

section \<open>Before the connections\<close>

text \<open>The address is in host order.\<close>

definition is_loopback :: "u32 \<Rightarrow> bool" where
  "is_loopback a \<longleftrightarrow> drop_bit 24 a = 127"

definition resolveTarget :: "(string \<Rightarrow> string \<Rightarrow> u32 option) \<Rightarrow> options \<Rightarrow> bool option" where
  "resolveTarget getaddrinfo opt = map_option is_loopback (getaddrinfo (o_host opt) (show_int (o_port opt)))"

definition ETIMEDOUT :: errno where "ETIMEDOUT = 110"
definition EHOSTUNREACH :: errno where "EHOSTUNREACH = 113"
definition ENETUNREACH :: errno where "ENETUNREACH = 101"

datatype probe_error = NoSocket | NotListening | Unreachable | ProbeFailed

text \<open>\<open>preflight\<close>: whether a socket could be made and the error of \<open>connect\<close>, if any; \<open>None\<close> is success.\<close>

definition preflight :: "bool \<Rightarrow> errno option \<Rightarrow> probe_error option" where
  "preflight socket_ok er =
     (if \<not> socket_ok then Some NoSocket
      else case er of
             None \<Rightarrow> None
           | Some er \<Rightarrow>
               if er = ECONNREFUSED then Some NotListening
               else if er = ETIMEDOUT \<or> er = EHOSTUNREACH \<or> er = ENETUNREACH then Some Unreachable
               else Some ProbeFailed)"

text \<open>
  \<open>warnPortBudget\<close>: the local ports per source address, the number of connections they allow, and the number
  of connections it proposes if the wanted number is larger.
\<close>

definition warnPortBudget :: "(int \<times> int) option \<Rightarrow> bench \<Rightarrow> (int \<times> int \<times> int option) option" where
  "warnPortBudget ports s =
     (case ports of
        None \<Rightarrow> None
      | Some (lo, hi) \<Rightarrow>
          if hi \<le> lo then None
          else
            (let per_ip = hi - lo + 1;
                 capacity = per_ip * int (length (bn_src_ips s));
                 conns = o_conns (bn_opts s)
             in Some (per_ip, capacity, if conns > capacity then Some (min conns capacity) else None)))"

section \<open>The program\<close>

record surroundings =
  su_getaddrinfo :: "string \<Rightarrow> string \<Rightarrow> u32 option"
  su_probe_socket :: bool
  su_probe :: "errno option"
  su_epoll :: bool
  su_connects :: "connect_answers list"
  su_epoll_wait :: "(errno + (nat \<times> u32 \<times> (errno + errno)) list) list"
  su_clock :: "u64 list"
  su_sends :: "(errno + nat) list"
  su_recvs :: "(errno + string) list"
  su_epoll_mod :: "fd \<Rightarrow> u32 \<Rightarrow> bool"

text \<open>The exit code and, if the connections could be opened, the state in which the run ended.\<close>

definition run_program :: "surroundings \<Rightarrow> options \<Rightarrow> int \<times> bench option" where
  "run_program su opt =
     (case resolveTarget (su_getaddrinfo su) opt of
        None \<Rightarrow> (2, None)
      | Some lb \<Rightarrow>
          if preflight (su_probe_socket su) (su_probe su) \<noteq> None then (2, None)
          else if \<not> su_epoll su then (2, None)
          else
            (case bench_run (su_connects su) (su_epoll_wait su) (begin_run opt lb (su_clock su) (su_sends su) (su_recvs su) (su_epoll_mod su)) of
               Inl code \<Rightarrow> (code, None)
             | Inr s \<Rightarrow> (exit_code s, Some s)))"

definition bench_main :: "strtod \<Rightarrow> (nat \<times> string) list \<Rightarrow> surroundings \<Rightarrow> int \<times> bench option" where
  "bench_main strtod args su =
     (case parseArgs strtod args of
        Usage \<Rightarrow> (0, None)
      | BadArgs e \<Rightarrow> (2, None)
      | Args opt \<Rightarrow> run_program su opt)"

section \<open>Lemmas\<close>

lemma exit_codes: "fst (bench_main strtod args su) \<in> {0, 2, 3}"
  by (auto simp: bench_main_def run_program_def exit_code_def bench_run_def Let_def split: parsed_args.splits option.splits sum.splits prod.splits)

lemma bench_main_run:
  assumes "bench_main strtod args su = (code, Some s)"
  obtains opt lb where "parseArgs strtod args = Args opt" "code = exit_code s" "resolveTarget (su_getaddrinfo su) opt = Some lb"
    "bench_run (su_connects su) (su_epoll_wait su) (begin_run opt lb (su_clock su) (su_sends su) (su_recvs su) (su_epoll_mod su)) = Inr s"
  using assms by (auto simp: bench_main_def run_program_def split: parsed_args.splits option.splits sum.splits if_splits)

section \<open>Properties\<close>

text \<open>
  C13: Every request is accounted for. When the load generator ends a run over a given number of requests per
  connection, and no echoed chunk was compared past the end of the payload, each connection has contributed
  the number of requests, or the number of answers if the peer sent more, to the sum of the answered, badly
  answered and failed requests; so the sum is at least the number of requests of the whole run, and if the
  program returns 0, every one of them was answered as expected.
\<close>

theorem requests_accounted:
  assumes "parseArgs strtod args = Args opt" "\<not> above (o_duration opt) 0" "bench_main strtod args su = (code, Some s)"
    and "list_all answers_ok (su_connects su)" "length (su_connects su) = nat (o_conns opt)" "\<not> bn_overread s" "bn_alive_count s = 0"
  shows "bn_ok s + bn_bad_status s + bn_failed s = sum_list (map (\<lambda>c. max (o_requests opt) (bc_done_req c)) (bn_conns s)) \<and>
    o_conns opt * o_requests opt \<le> bn_ok s + bn_bad_status s + bn_failed s \<and>
    (code = 0 \<longrightarrow> bn_bad_status s \<le> 0 \<and> bn_failed s \<le> 0 \<and> o_conns opt * o_requests opt \<le> bn_ok s)"
proof -
  obtain opt' lb where p: "parseArgs strtod args = Args opt'" "code = exit_code s"
    "bench_run (su_connects su) (su_epoll_wait su) (begin_run opt' lb (su_clock su) (su_sends su) (su_recvs su) (su_epoll_mod su)) = Inr s"
    using bench_main_run [OF assms(3)] by metis
  then have r: "bench_run (su_connects su) (su_epoll_wait su) (begin_run opt lb (su_clock su) (su_sends su) (su_recvs su) (su_epoll_mod su)) = Inr s"
    using assms(1) by simp
  have "bn_bad_status s \<le> 0 \<and> bn_failed s \<le> 0" if "code = 0" using that p(2) by (auto simp: exit_code_def split: if_splits)
  then show ?thesis using run_accounted [OF assms(1,4,5) r assms(7,2)] p(2) by auto
qed

definition echo_surroundings :: surroundings where
  "echo_surroundings = \<lparr>su_getaddrinfo = (\<lambda>_ _. Some 0x7f000001), su_probe_socket = True, su_probe = None, su_epoll = True,
     su_connects = [\<lparr>ca_socket = Some 5, ca_bind = True, ca_connect = None, ca_add = True\<rparr>], su_epoll_wait = [Inr [(0, 1, Inr 0)]],
     su_clock = [], su_sends = [Inr 1], su_recvs = [Inr ''a''], su_epoll_mod = (\<lambda>_ _. True)\<rparr>"

theorem requests_accounted_witness:
  "\<exists>s. bench_main (\<lambda>s. (False, Fin 0, s)) echo_args echo_surroundings = (0, Some s) \<and> 1 \<le> bn_ok s"
proof -
  obtain s where s: "echo_run = Inr s" "bn_alive_count s = 0" "exit_code s = 0" "\<not> bn_overread s"
    using echo_run_end by (auto simp: exit_code_def split: sum.splits)
  have "is_loopback 0x7f000001" by code_simp
  then have m: "bench_main (\<lambda>s. (False, Fin 0, s)) echo_args echo_surroundings = (0, Some s)"
    using s(1,3) by (simp add: bench_main_def echo_args_parsed run_program_def resolveTarget_def echo_surroundings_def preflight_def echo_run_def)
  then have "1 \<le> bn_ok s"
    using requests_accounted [OF echo_args_parsed _ m _ _ s(4,2)]
    by (simp add: answers_ok_def echo_opts_def default_options_def echo_surroundings_def)
  with m show ?thesis by blast
qed

end
