(* ===== verification/BenchReport.thy ===== *)
theory BenchReport
  imports BenchMain Doubles ShortUrlApp "HOL-Library.List_Lexorder"
begin

text \<open>
  \<open>bench/echo_bench.cc\<close>, the end of a run: the figures, the report and the JSON file. The report is modelled
  line by line: a constructor stands for the fixed Chinese text of a line, its arguments are the numbers as
  \<open>printf\<close> writes them. The JSON file is modelled byte by byte. \<open>ru0\<close> and \<open>ru1\<close> are the answers of \<open>getrusage\<close>
  before and after the run. Of the first error only its category is known (see \<open>BenchClient\<close>).
\<close>

section \<open>Percentiles\<close>

text \<open>\<open>static_cast\<close> from \<open>double\<close> to an integer type cuts off the fraction.\<close>

definition trunc :: "rat \<Rightarrow> int" where
  "trunc x = (if x \<ge> 0 then \<lfloor>x\<rfloor> else \<lceil>x\<rceil>)"

abbreviation to_double :: "u64 \<Rightarrow> rat" where
  "to_double w \<equiv> dbl (of_nat (unat w))"

definition percentile_index :: "nat \<Rightarrow> rat \<Rightarrow> nat" where
  "percentile_index n p =
     (let idx = nat (trunc (dbl (dbl (dbl (of_nat n) * p) / 100)))
      in if idx \<ge> n then n - 1 else idx)"

definition percentileUs :: "u64 list \<Rightarrow> rat \<Rightarrow> rat" where
  "percentileUs lat p =
     (if lat = [] then -1 else dbl (to_double (lat ! percentile_index (length lat) p) / 1000))"

text \<open>The literal \<open>99.9\<close>.\<close>

definition p999 :: rat where
  "p999 = dbl (999 / 10)"

section \<open>Figures\<close>

record rusage =
  ru_utime_sec :: int
  ru_utime_usec :: int
  ru_stime_sec :: int
  ru_stime_usec :: int
  ru_maxrss :: int

definition elapsed_s :: "bench \<Rightarrow> rat" where
  "elapsed_s s = (if bn_t1_ns s > bn_t0_ns s \<and> bn_t0_ns s > 0 then dbl (to_double (bn_t1_ns s - bn_t0_ns s) / 10 ^ 9) else 0)"

definition setup_ms :: "bench \<Rightarrow> rat" where
  "setup_ms s = (if bn_t0_ns s > bn_setup_start_ns s then dbl (to_double (bn_t0_ns s - bn_setup_start_ns s) / 10 ^ 6) else 0)"

definition done_total :: "bench \<Rightarrow> int" where
  "done_total s = bn_ok s + bn_bad_status s"

definition expected :: "bench \<Rightarrow> int" where
  "expected s = (if bn_duration_mode s then 0 else o_conns (bn_opts s) * o_requests (bn_opts s))"

definition avg_us :: "u64 list \<Rightarrow> rat" where
  "avg_us lat =
     (let sum_lat = fold (\<lambda>x sum. dbl (sum + to_double x)) lat 0
      in if lat = [] then -1 else dbl (dbl (sum_lat / dbl (of_nat (length lat))) / 1000))"

definition seconds :: "int \<Rightarrow> int \<Rightarrow> rat" where
  "seconds sec usec = dbl (dbl (of_int sec) + dbl (dbl (of_int usec) / 10 ^ 6))"

definition cpu_user :: "rusage \<Rightarrow> rusage \<Rightarrow> rat" where
  "cpu_user ru0 ru1 = seconds (ru_utime_sec ru1 - ru_utime_sec ru0) (ru_utime_usec ru1 - ru_utime_usec ru0)"

definition cpu_sys :: "rusage \<Rightarrow> rusage \<Rightarrow> rat" where
  "cpu_sys ru0 ru1 = seconds (ru_stime_sec ru1 - ru_stime_sec ru0) (ru_stime_usec ru1 - ru_stime_usec ru0)"

definition cpu_total :: "rusage \<Rightarrow> rusage \<Rightarrow> rat" where
  "cpu_total ru0 ru1 = dbl (cpu_user ru0 ru1 + cpu_sys ru0 ru1)"

definition cpu_pct :: "rusage \<Rightarrow> rusage \<Rightarrow> bench \<Rightarrow> rat" where
  "cpu_pct ru0 ru1 s = (if elapsed_s s > 0 then dbl (dbl (cpu_total ru0 ru1 / elapsed_s s) * 100) else 0)"

definition peak_rss_mb :: "rusage \<Rightarrow> rat" where
  "peak_rss_mb ru1 = dbl (dbl (of_int (ru_maxrss ru1)) / 1024)"

text \<open>\<open>static_cast<double>(n) / elapsed\<close>\<close>

definition rate :: "int \<Rightarrow> bench \<Rightarrow> rat" where
  "rate n s = dbl (dbl (of_int n) / elapsed_s s)"

section \<open>Error categories\<close>

text \<open>The histogram of errors is a \<open>std::map\<close> over the texts of the categories, which orders them by their bytes.\<close>

fun category_bytes :: "category \<Rightarrow> nat list" where
  "category_bytes ConnectFailed = [0xE5, 0xBB, 0xBA, 0xE8, 0xBF, 0x9E, 0xE5, 0xA4, 0xB1, 0xE8, 0xB4, 0xA5]"
| "category_bytes PortsExhausted =
     [0xE6, 0x9C, 0xAC, 0xE5, 0x9C, 0xB0, 0xE7, 0xAB, 0xAF, 0xE5, 0x8F, 0xA3, 0xE8, 0x80, 0x97, 0xE5, 0xB0, 0xBD]"
| "category_bytes ConnectRefused = [0xE5, 0xBB, 0xBA, 0xE8, 0xBF, 0x9E, 0xE8, 0xA2, 0xAB, 0xE6, 0x8B, 0x92, 0xE7, 0xBB, 0x9D]"
| "category_bytes ConnectTimeout = [0xE5, 0xBB, 0xBA, 0xE8, 0xBF, 0x9E, 0xE8, 0xB6, 0x85, 0xE6, 0x97, 0xB6]"
| "category_bytes EpollFailed =
     [0x65, 0x70, 0x6F, 0x6C, 0x6C, 0x20, 0xE6, 0x93, 0x8D, 0xE4, 0xBD, 0x9C, 0xE5, 0xA4, 0xB1, 0xE8, 0xB4, 0xA5]"
| "category_bytes SendFailed = [0xE5, 0x8F, 0x91, 0xE9, 0x80, 0x81, 0xE5, 0xA4, 0xB1, 0xE8, 0xB4, 0xA5]"
| "category_bytes RecvFailed = [0xE6, 0x8E, 0xA5, 0xE6, 0x94, 0xB6, 0xE5, 0xA4, 0xB1, 0xE8, 0xB4, 0xA5]"
| "category_bytes ParseFailed =
     [0xE5, 0x93, 0x8D, 0xE5, 0xBA, 0x94, 0xE8, 0xA7, 0xA3, 0xE6, 0x9E, 0x90, 0xE5, 0xA4, 0xB1, 0xE8, 0xB4, 0xA5]"
| "category_bytes EchoMismatch =
     [0xE5, 0x9B, 0x9E, 0xE6, 0x98, 0xBE, 0xE5, 0x86, 0x85, 0xE5, 0xAE, 0xB9, 0xE4, 0xB8, 0x8D, 0xE5, 0xAF, 0xB9]"
| "category_bytes PeerClosed =
     [0xE5, 0xAF, 0xB9, 0xE7, 0xAB, 0xAF, 0xE6, 0x8F, 0x90, 0xE5, 0x89, 0x8D, 0xE5, 0x85, 0xB3, 0xE9, 0x97, 0xAD]"
| "category_bytes ReadTimeout = [0xE8, 0xAF, 0xBB, 0xE8, 0xB6, 0x85, 0xE6, 0x97, 0xB6]"

lemma category_bytes_inj: "category_bytes a = category_bytes b \<Longrightarrow> a = b"
  by (cases a; cases b) simp_all

instantiation category :: linorder
begin

definition less_eq_category :: "category \<Rightarrow> category \<Rightarrow> bool" where
  "less_eq_category a b \<longleftrightarrow> category_bytes a \<le> category_bytes b"

definition less_category :: "category \<Rightarrow> category \<Rightarrow> bool" where
  "less_category a b \<longleftrightarrow> category_bytes a < category_bytes b"

instance
  by standard (auto simp: less_eq_category_def less_category_def intro: category_bytes_inj)

end

definition ordered_map :: "('k :: linorder, 'v) umap \<Rightarrow> ('k \<times> 'v) list" where
  "ordered_map m = sort_key fst m"

section \<open>The report\<close>

datatype per_conn = ForSeconds string | Requests string

datatype report_line =
    Title string | Mode bool | Target string int | Request string string | ExpectStatus "int list" | MessageSize int
  | Connections string per_conn int | SetupTime string | ExpectedRequests string | Received string | Succeeded string
  | BadStatus string | Failed string "string option" | Elapsed string | QpsOk string | QpsTotal string | NoLoad
  | Percentiles string string string string | MinAvgMax string string string | NotSampled string | NoSamples
  | CpuTime string string string string | PeakRss string | SourceAddresses nat "string option" | BytesMoved string string
  | StatusHist "(int \<times> string) list" | ErrorHist "(category \<times> string) list" | FirstError category
  | NothingWorked | ClientIsBottleneck string | SamplesCut | RequestsLost string | SameMachine

definition report_head :: "bench \<Rightarrow> report_line list" where
  "report_head s =
     (let opt = bn_opts s
      in [Title (o_label opt), Mode (bn_http_mode s), Target (o_host opt) (o_port opt)] @
         (if bn_http_mode s then [Request (o_method opt) (o_path opt), ExpectStatus (o_expect_status opt)] else [MessageSize (o_size opt)]) @
         [Connections (withCommas (o_conns opt))
            (if bn_duration_mode s then ForSeconds (fmt_dnum 6 (o_duration opt)) else Requests (withCommas (o_requests opt)))
            (o_pipeline opt),
          SetupTime (fmt_fixed 1 (setup_ms s))])"

definition report_counts :: "bench \<Rightarrow> report_line list" where
  "report_counts s =
     (if bn_duration_mode s then [] else [ExpectedRequests (withCommas (expected s))]) @
     [Received (withCommas (done_total s)), Succeeded (withCommas (bn_ok s))] @
     (if bn_bad_status s > 0 then [BadStatus (withCommas (bn_bad_status s))] else []) @
     [Failed (withCommas (bn_failed s)) (if bn_conn_failed s > 0 then Some (withCommas (bn_conn_failed s)) else None),
      Elapsed (fmt_fixed 3 (elapsed_s s))] @
     (if elapsed_s s > 0 then [QpsOk (withCommas (trunc (rate (bn_ok s) s))), QpsTotal (withCommas (trunc (rate (done_total s) s)))]
      else [NoLoad])"

definition report_latency :: "bench \<Rightarrow> report_line list" where
  "report_latency s =
     (let lat = sort (bn_lat_ns s); p = (\<lambda>x. fmt_fixed 0 (percentileUs lat x))
      in if lat \<noteq> [] then
           [Percentiles (p 50) (p 90) (p 99) (p p999),
            MinAvgMax (fmt_fixed 0 (dbl (to_double (hd lat) / 1000))) (fmt_fixed 1 (avg_us lat)) (fmt_fixed 0 (dbl (to_double (last lat) / 1000)))] @
           (if bn_lat_dropped s > 0 then [NotSampled (withCommas (bn_lat_dropped s))] else [])
         else [NoSamples])"

definition report_usage :: "rusage \<Rightarrow> rusage \<Rightarrow> bench \<Rightarrow> report_line list" where
  "report_usage ru0 ru1 s =
     [CpuTime (fmt_fixed 2 (cpu_user ru0 ru1)) (fmt_fixed 2 (cpu_sys ru0 ru1)) (fmt_fixed 2 (cpu_total ru0 ru1)) (fmt_fixed 0 (cpu_pct ru0 ru1 s)),
      PeakRss (fmt_fixed 1 (peak_rss_mb ru1)),
      SourceAddresses (length (bn_src_ips s)) (if bn_src_ips s \<noteq> [] \<and> hd (bn_src_ips s) \<noteq> [] then Some (hd (bn_src_ips s)) else None),
      BytesMoved (fmt_fixed 2 (dbl (to_double (bn_total_bytes_in s) / 1048576))) (fmt_fixed 2 (dbl (to_double (bn_total_bytes_out s) / 1048576)))]"

definition report_hists :: "bench \<Rightarrow> report_line list" where
  "report_hists s =
     (if bn_http_mode s \<and> bn_status_hist s \<noteq> [] then [StatusHist (map (apsnd withCommas) (ordered_map (bn_status_hist s)))] else []) @
     (if bn_err_hist s \<noteq> [] then [ErrorHist (map (apsnd withCommas) (ordered_map (bn_err_hist s)))] else []) @
     (case bn_first_error s of None \<Rightarrow> [] | Some cat \<Rightarrow> [FirstError cat])"

definition report_notes :: "rusage \<Rightarrow> rusage \<Rightarrow> bench \<Rightarrow> report_line list" where
  "report_notes ru0 ru1 s =
     (if bn_t0_ns s = 0 \<or> (done_total s = 0 \<and> bn_failed s > 0) then [NothingWorked] else []) @
     (if cpu_pct ru0 ru1 s > 85 then [ClientIsBottleneck (fmt_fixed 0 (cpu_pct ru0 ru1 s))] else []) @
     (if bn_lat_dropped s > 0 then [SamplesCut] else []) @
     (if bn_failed s > 0 then [RequestsLost (withCommas (bn_failed s))] else []) @
     [SameMachine]"

definition report :: "rusage \<Rightarrow> rusage \<Rightarrow> bench \<Rightarrow> report_line list" where
  "report ru0 ru1 s =
     report_head s @ report_counts s @ report_latency s @ report_usage ru0 ru1 s @ report_hists s @ report_notes ru0 ru1 s"

section \<open>The JSON file\<close>

fun escape_label :: "string \<Rightarrow> string" where
  "escape_label [] = []"
| "escape_label (c # s) = (if c = DQ \<or> c = BSL then [BSL] else []) @ [c] @ escape_label s"

definition quoted :: "string \<Rightarrow> string" where
  "quoted s = [DQ] @ s @ [DQ]"

definition json_fields :: "rusage \<Rightarrow> rusage \<Rightarrow> bench \<Rightarrow> (string \<times> string) list" where
  "json_fields ru0 ru1 s =
     (let opt = bn_opts s; lat = sort (bn_lat_ns s); p = (\<lambda>x. fmt_fixed 2 (percentileUs lat x))
      in [(''label'', quoted (escape_label (o_label opt))), (''mode'', quoted (o_mode opt)), (''host'', quoted (o_host opt)),
          (''port'', show_int (o_port opt)), (''conns'', show_int (o_conns opt)), (''requests_per_conn'', show_int (o_requests opt)),
          (''size'', show_int (o_size opt)), (''pipeline'', show_int (o_pipeline opt)), (''duration_s'', fmt_dnum 3 (o_duration opt)),
          (''elapsed_s'', fmt_fixed 6 (elapsed_s s)), (''completed'', show_int (done_total s)), (''ok'', show_int (bn_ok s)),
          (''bad_status'', show_int (bn_bad_status s)), (''failed'', show_int (bn_failed s)), (''failed_conns'', show_int (bn_conn_failed s)),
          (''qps_ok'', fmt_fixed 2 (if elapsed_s s > 0 then rate (bn_ok s) s else 0)),
          (''qps_total'', fmt_fixed 2 (if elapsed_s s > 0 then rate (done_total s) s else 0)),
          (''lat_p50_us'', p 50), (''lat_p90_us'', p 90), (''lat_p99_us'', p 99), (''lat_p999_us'', p p999),
          (''lat_max_us'', fmt_fixed 2 (if lat = [] then 0 else dbl (to_double (last lat) / 1000))),
          (''cpu_user_s'', fmt_fixed 3 (cpu_user ru0 ru1)), (''cpu_sys_s'', fmt_fixed 3 (cpu_sys ru0 ru1)),
          (''cpu_percent'', fmt_fixed 1 (cpu_pct ru0 ru1 s)), (''peak_rss_mb'', fmt_fixed 1 (peak_rss_mb ru1)),
          (''bytes_in'', show_nat (unat (bn_total_bytes_in s))), (''bytes_out'', show_nat (unat (bn_total_bytes_out s))),
          (''source_ips'', show_nat (length (bn_src_ips s)))])"

text \<open>The lines of the file: one field per line, indented, a comma after each but the last.\<close>

fun json_lines :: "(string \<times> string) list \<Rightarrow> string" where
  "json_lines [] = []"
| "json_lines [(k, v)] = ''  '' @ quoted k @ '': '' @ v @ [LF]"
| "json_lines ((k, v) # kvs) = ''  '' @ quoted k @ '': '' @ v @ '','' @ [LF] @ json_lines kvs"

text \<open>\<open>writeJson\<close>: the contents of the file if it could be opened.\<close>

definition writeJson :: "bool \<Rightarrow> rusage \<Rightarrow> rusage \<Rightarrow> bench \<Rightarrow> string option" where
  "writeJson opened ru0 ru1 s =
     (if \<not> opened then None else Some (''{'' @ [LF] @ json_lines (json_fields ru0 ru1 s) @ ''}'' @ [LF]))"

text \<open>What a run leaves behind: the exit code, the report and the file.\<close>

definition bench_output ::
  "strtod \<Rightarrow> (nat \<times> string) list \<Rightarrow> surroundings \<Rightarrow> rusage \<Rightarrow> rusage \<Rightarrow> bool \<Rightarrow> int \<times> (report_line list \<times> string option) option" where
  "bench_output strtod args su ru0 ru1 opened =
     (let (code, r) = bench_main strtod args su
      in (code, map_option (\<lambda>s. (report ru0 ru1 s, if o_json_out (bn_opts s) \<noteq> [] then writeJson opened ru0 ru1 s else None)) r))"

section \<open>Lemmas\<close>

lemma trunc_between: "of_nat m \<le> y \<Longrightarrow> y < of_nat m + 1 \<Longrightarrow> nat (trunc y) = m"
proof -
  assume y: "of_nat m \<le> y" "y < of_nat m + 1"
  then have "\<lfloor>y\<rfloor> = int m" by (simp add: floor_eq_iff)
  moreover have "0 \<le> y" using y(1) of_nat_0_le_iff [of m] by (rule order_trans [rotated])
  ultimately show ?thesis by (simp add: trunc_def)
qed

lemma percentile_index_exact:
  assumes "n \<le> 4000000" "a \<le> 100 * b" "0 < b" "b \<le> 10" "of_nat a / of_nat b \<le> q" "q \<le> of_nat a / of_nat b * (1 + 1 / 2 ^ 53)"
  shows "percentile_index n q = min (n * a div (100 * b)) (n - 1)"
  using trunc_between [OF rank_rounded [OF assms refl]] by (auto simp: percentile_index_def min_def Let_def)

lemma percentile_index_nat: "n \<le> 4000000 \<Longrightarrow> p \<le> 100 \<Longrightarrow> percentile_index n (of_nat p) = min (n * p div 100) (n - 1)"
  using percentile_index_exact [of n p 1 "of_nat p"] by (simp add: algebra_simps)

lemma percentile_index_999: "n \<le> 4000000 \<Longrightarrow> percentile_index n p999 = min (n * 999 div 1000) (n - 1)"
proof -
  assume n: "n \<le> 4000000"
  have v: "dbl (999 / 10) = 3514918771674317 / 35184372088832" by code_simp
  have "999 / 10 \<le> p999" "p999 \<le> 999 / 10 * (1 + 1 / 2 ^ 53)" unfolding p999_def v by simp_all
  then show ?thesis using percentile_index_exact [of n 999 10 p999] n by simp
qed

text \<open>The four percentages of the report, each with its value per mille.\<close>

definition percentages :: "(rat \<times> nat) list" where
  "percentages = [(50, 500), (90, 900), (99, 990), (p999, 999)]"

lemma percentages_index:
  assumes "(p, a) \<in> set percentages" "0 < n" "int n \<le> kMaxLatencySamples"
  shows "percentile_index n p = n * a div 1000" "n * a div 1000 < n"
proof -
  have n: "n \<le> 4000000" using assms(3) by (simp add: kMaxLatencySamples_def)
  have a: "a < 1000" using assms(1) by (auto simp: percentages_def)
  show lt: "n * a div 1000 < n" using a assms(2) by (simp add: div_less_iff_less_mult)
  have "n * 50 div 100 = n * 500 div 1000" "n * 90 div 100 = n * 900 div 1000" "n * 99 div 100 = n * 990 div 1000" by simp_all
  then have "percentile_index n p = min (n * a div 1000) (n - 1)"
    using assms(1) percentile_index_nat [OF n, of 50] percentile_index_nat [OF n, of 90] percentile_index_nat [OF n, of 99]
      percentile_index_999 [OF n] by (auto simp: percentages_def)
  then show "percentile_index n p = n * a div 1000" using lt by simp
qed

text \<open>An element of a sorted list and the elements below and up to it.\<close>

lemma sorted_nth_counts:
  assumes "sorted xs" "k < length xs"
  shows "length (filter (\<lambda>x. x < xs ! k) xs) \<le> k" "k < length (filter (\<lambda>x. x \<le> xs ! k) xs)"
proof -
  have "xs ! k \<le> x" if "x \<in> set (drop k xs)" for x
    using that assms by (auto simp: in_set_conv_nth sorted_nth_mono)
  then have "filter (\<lambda>x. x < xs ! k) (drop k xs) = []" by (simp add: filter_empty_conv not_less)
  then have "filter (\<lambda>x. x < xs ! k) xs = filter (\<lambda>x. x < xs ! k) (take k xs)"
    by (metis append_take_drop_id append_Nil2 filter_append)
  then show "length (filter (\<lambda>x. x < xs ! k) xs) \<le> k" by (metis length_filter_le length_take min.bounded_iff min.commute order_trans)
  have "x \<le> xs ! k" if "x \<in> set (take (k + 1) xs)" for x
    using that assms by (auto simp: in_set_conv_nth sorted_nth_mono)
  then have "filter (\<lambda>x. x \<le> xs ! k) (take (k + 1) xs) = take (k + 1) xs" by (simp add: filter_id_conv)
  then have "length (filter (\<lambda>x. x \<le> xs ! k) xs) = k + 1 + length (filter (\<lambda>x. x \<le> xs ! k) (drop (k + 1) xs))"
    using assms(2) by (metis append_take_drop_id filter_append length_append length_take min.absorb2 Suc_eq_plus1 Suc_leI)
  then show "k < length (filter (\<lambda>x. x \<le> xs ! k) xs)" by simp
qed

text \<open>
  The nearest rank of \<open>a\<close> per mille among \<open>n\<close> samples has the index \<open>\<lceil>n * a / 1000\<rceil> - 1\<close>.
\<close>

definition nearest_rank :: "nat \<Rightarrow> nat \<Rightarrow> nat" where
  "nearest_rank n a = (n * a + 999) div 1000 - 1"

lemma floor_nearest:
  assumes "0 < n * a"
  shows "n * a div 1000 = (if 1000 dvd n * a then nearest_rank n a + 1 else nearest_rank n a)"
proof -
  define q r where "q = n * a div 1000" and "r = n * a mod 1000"
  have qr: "n * a = 1000 * q + r" "r < 1000" by (simp_all add: q_def r_def)
  have "(n * a + 999) div 1000 = q + (r + 999) div 1000" unfolding qr(1) by (simp add: ac_simps)
  moreover have "(r + 999) div 1000 = (if r = 0 then 0 else 1)" using qr(2) by (cases "r = 0") (simp_all add: div_nat_eqI)
  moreover have "1000 dvd n * a \<longleftrightarrow> r = 0" by (simp add: r_def dvd_eq_mod_eq_0)
  moreover have "q > 0" if "r = 0" using assms qr(1) that by (cases q) simp_all
  ultimately show ?thesis by (auto simp: nearest_rank_def q_def [symmetric])
qed

lemma percentile_sample:
  assumes "(p, a) \<in> set percentages" "lat \<noteq> []" "int (length lat) \<le> kMaxLatencySamples"
  shows "percentileUs (sort lat) p = dbl (to_double (sort lat ! (length lat * a div 1000)) / 1000)" "length lat * a div 1000 < length lat"
proof -
  have ne: "sort lat \<noteq> []" using assms(2) by (metis length_0_conv length_sort)
  note i = percentages_index [OF assms(1) _ assms(3)]
  have k: "length lat * a div 1000 < length lat" "percentile_index (length lat) p = length lat * a div 1000" using i assms(2) by simp_all
  then show "percentileUs (sort lat) p = dbl (to_double (sort lat ! (length lat * a div 1000)) / 1000)" "length lat * a div 1000 < length lat"
    using ne by (simp_all add: percentileUs_def)
qed

lemma sort_nth_counts:
  assumes "k < length lat"
  shows "sort lat ! k \<in> set lat" "length (filter (\<lambda>x. x < sort lat ! k) lat) \<le> k" "k < length (filter (\<lambda>x. x \<le> sort lat ! k) lat)"
proof -
  have "filter P (sort lat) = sort (filter P lat)" for P by (simp add: filter_sort)
  then have "length (filter P (sort lat)) = length (filter P lat)" for P by simp
  then show "sort lat ! k \<in> set lat" "length (filter (\<lambda>x. x < sort lat ! k) lat) \<le> k" "k < length (filter (\<lambda>x. x \<le> sort lat ! k) lat)"
    using sorted_nth_counts [of "sort lat" k] assms nth_mem [of k "sort lat"] by simp_all
qed

lemma program_samples:
  assumes "bench_main strtod args su = (code, Some s)" "list_all answers_ok (su_connects su)"
    and "parseArgs strtod args = Args opt" "length (su_connects su) = nat (o_conns opt)"
  shows "samples_ok s"
proof -
  obtain opt' lb where r: "parseArgs strtod args = Args opt'"
    "bench_run (su_connects su) (su_epoll_wait su) (begin_run opt' lb (su_clock su) (su_sends su) (su_recvs su) (su_epoll_mod su)) = Inr s"
    using bench_main_run [OF assms(1)] by metis
  have "in_ranges opt" using parseArgs_ranges_in [OF assms(3)] .
  then have "bench_inv s" using bench_run_inv(1) [OF r(2) assms(2)] assms(3,4) r(1) by (simp add: in_ranges_def)
  then show ?thesis by (simp add: bench_inv_def)
qed

text \<open>The label as the characters of a JSON string.\<close>

lemma escape_label_items:
  "\<exists>its. list_all item_ok its \<and> escape_label s = concat (map item_text its) \<and> concat (map item_bytes its) = s"
proof (induction s)
  case Nil
  show ?case by (rule exI [of _ "[]"]) simp
next
  case (Cons c s)
  then obtain its where its: "list_all item_ok its" "escape_label s = concat (map item_text its)" "concat (map item_bytes its) = s" by blast
  let ?it = "if c = DQ \<or> c = BSL then Escaped c else Plain c"
  have "item_ok ?it" "item_bytes ?it = [c]" "(if c = DQ \<or> c = BSL then [BSL] else []) @ [c] = item_text ?it"
    by (auto simp: escape_table_def)
  then show ?case using its by (intro exI [of _ "?it # its"]) simp
qed

section \<open>Properties\<close>

text \<open>
  C16: Which sample a percentile is. When a run has ended with at least one of \<open>n\<close> latency samples, each of the four
  percentages of the report (\<open>a\<close> per mille) yields, converted to microseconds, the sample with the index
  \<open>\<lfloor>n * a / 1000\<rfloor>\<close> of the sorted samples; the rounding of the floating point arithmetic never moves the index. At
  most this many samples are smaller, and more than this many are at most as large. It is the nearest rank, which
  the comment of the code promises, exactly when \<open>n * a / 1000\<close> is not an integer; otherwise it is the next
  larger sample, such as the larger one of two samples as their median.
\<close>

theorem percentile_rank:
  assumes "parseArgs strtod args = Args opt" "bench_main strtod args su = (code, Some s)"
    and "list_all answers_ok (su_connects su)" "length (su_connects su) = nat (o_conns opt)"
    and "bn_lat_ns s \<noteq> []" "(p, a) \<in> set percentages" "n = length (bn_lat_ns s)" "v = sort (bn_lat_ns s) ! (n * a div 1000)"
  shows "percentileUs (sort (bn_lat_ns s)) p = dbl (to_double v / 1000) \<and> n * a div 1000 < n \<and>
    length (filter (\<lambda>x. x < v) (bn_lat_ns s)) \<le> n * a div 1000 \<and> n * a div 1000 < length (filter (\<lambda>x. x \<le> v) (bn_lat_ns s)) \<and>
    n * a div 1000 = (if 1000 dvd n * a then nearest_rank n a + 1 else nearest_rank n a)"
proof -
  have "samples_ok s" using program_samples [OF assms(2,3,1,4)] .
  then have k: "percentileUs (sort (bn_lat_ns s)) p = dbl (to_double v / 1000)" "n * a div 1000 < n"
    using percentile_sample [OF assms(6,5)] unfolding assms(7,8) by (auto simp: samples_ok_def)
  have "0 < n * a" using assms(5-7) by (auto simp: percentages_def)
  from floor_nearest [OF this] k sort_nth_counts(2,3) [of "n * a div 1000" "bn_lat_ns s"] show ?thesis
    unfolding assms(8) by (simp add: assms(7))
qed

definition timed_surroundings :: surroundings where
  "timed_surroundings = echo_surroundings\<lparr>su_clock := [1, 2, 3, 4, 5, 6, 7, 8, 9]\<rparr>"

definition timed_run :: "int + bench" where
  "timed_run = bench_run (su_connects echo_surroundings) (su_epoll_wait echo_surroundings)
     (begin_run echo_opts True (su_clock timed_surroundings) (su_sends echo_surroundings) (su_recvs echo_surroundings) (su_epoll_mod echo_surroundings))"

lemma timed_run_end: "case timed_run of Inl _ \<Rightarrow> False | Inr s \<Rightarrow> length (bn_lat_ns s) = 1 \<and> exit_code s = 0"
  by code_simp

theorem percentile_rank_witness:
  "\<exists>s. bench_main (\<lambda>s. (False, Fin 0, s)) echo_args timed_surroundings = (0, Some s) \<and>
     percentileUs (sort (bn_lat_ns s)) 50 = dbl (to_double (hd (bn_lat_ns s)) / 1000)"
proof -
  obtain s where s: "timed_run = Inr s" "length (bn_lat_ns s) = 1" "exit_code s = 0" using timed_run_end by (auto split: sum.splits)
  have "is_loopback 0x7f000001" by code_simp
  then have m: "bench_main (\<lambda>s. (False, Fin 0, s)) echo_args timed_surroundings = (0, Some s)"
    using s(1,3) by (simp add: bench_main_def echo_args_parsed run_program_def resolveTarget_def timed_surroundings_def echo_surroundings_def
        preflight_def timed_run_def)
  obtain v where v: "bn_lat_ns s = [v]" using s(2) by (auto simp: length_Suc_conv)
  have "percentileUs (sort (bn_lat_ns s)) 50 = dbl (to_double (hd (bn_lat_ns s)) / 1000)"
    using percentile_rank [OF echo_args_parsed m, of 50 500] v
    by (auto simp: answers_ok_def echo_opts_def default_options_def timed_surroundings_def echo_surroundings_def percentages_def)
  with m show ?thesis by blast
qed

text \<open>
  The percentiles of a report are in order, between the smallest and the largest sample.
\<close>

theorem percentiles_ordered:
  assumes "samples_ok s" "bn_lat_ns s \<noteq> []" "lat = sort (bn_lat_ns s)"
  shows "dbl (to_double (hd lat) / 1000) \<le> percentileUs lat 50 \<and> percentileUs lat 50 \<le> percentileUs lat 90 \<and>
    percentileUs lat 90 \<le> percentileUs lat 99 \<and> percentileUs lat 99 \<le> percentileUs lat p999 \<and>
    percentileUs lat p999 \<le> dbl (to_double (last lat) / 1000)"
proof -
  have n: "0 < length lat" "int (length lat) \<le> kMaxLatencySamples" using assms by (simp_all add: samples_ok_def)
  have us: "dbl (to_double (lat ! i) / 1000) \<le> dbl (to_double (lat ! j) / 1000)" if "i \<le> j" "j < length lat" for i j
  proof -
    have "lat ! i \<le> lat ! j" using that assms(3) by (simp add: sorted_nth_mono)
    then have "(of_nat (unat (lat ! i)) :: rat) \<le> of_nat (unat (lat ! j))" by (simp only: word_le_nat_alt of_nat_le_iff)
    then have "to_double (lat ! i) \<le> to_double (lat ! j)" by (intro dbl_mono of_nat_0_le_iff)
    moreover have "0 \<le> to_double (lat ! i)" by (intro dbl_nonneg of_nat_0_le_iff)
    ultimately show ?thesis by (intro dbl_mono) (simp_all add: divide_right_mono)
  qed
  have p: "percentileUs lat p = dbl (to_double (lat ! (length lat * a div 1000)) / 1000)" "length lat * a div 1000 < length lat"
    if "(p, a) \<in> set percentages" for p a
    using percentages_index [OF that n] n(1) by (auto simp: percentileUs_def)
  note p4 = p [of 50 500] p [of 90 900] p [of 99 990] p [of p999 999]
  have mono: "length lat * a div 1000 \<le> length lat * b div 1000" if "a \<le> b" for a b using that by (intro div_le_mono) simp
  have top: "dbl (to_double (lat ! (length lat * 999 div 1000)) / 1000) \<le> dbl (to_double (lat ! (length lat - 1)) / 1000)"
    using p(2) [of p999 999] n(1) by (intro us) (auto simp: percentages_def)
  have ends: "hd lat = lat ! 0" "last lat = lat ! (length lat - 1)" using n(1) by (simp_all add: hd_conv_nth last_conv_nth)
  show ?thesis
    unfolding ends using p4 mono [of 500 900] mono [of 900 990] mono [of 990 999] us top by (simp add: percentages_def)
qed

text \<open>
  C17: The JSON file and the reader of the server fit together: whatever the label of the run is, the field
  extraction of the short link application finds it in the file unchanged.
\<close>

theorem json_label_read:
  "\<exists>body. writeJson True ru0 ru1 s = Some body \<and> jsonExtractString body ''label'' = Inr (o_label (bn_opts s))"
proof -
  obtain its where its: "list_all item_ok its" "escape_label (o_label (bn_opts s)) = concat (map item_text its)"
    "concat (map item_bytes its) = o_label (bn_opts s)" using escape_label_items by blast
  obtain k v kvs where f: "json_fields ru0 ru1 s = (''label'', quoted (escape_label (o_label (bn_opts s)))) # (k, v) # kvs"
    by (simp add: json_fields_def Let_def)
  let ?body = "''{'' @ [LF] @ json_lines (json_fields ru0 ru1 s) @ ''}'' @ [LF]"
  have "?body = [] @ field_text ([LF] @ ''  '') ''label'' [] '' '' its ('','' @ [LF] @ json_lines ((k, v) # kvs)) @ [LF]"
    unfolding f by (simp add: field_text_def quoted_def its(2))
  from extract_found [OF _ _ _ _ _ its(1) this] its(3) show ?thesis
    by (simp add: writeJson_def)
qed

end
