(* ===== verification/Spec2Isabelle.thy ===== *)
theory Spec2Isabelle
  imports HttpServer_Correct ConnMemory TcpServer_Reuse TimerWheel MemoryPool ThreadPool LoopThreads Startup BenchWire BenchEnd BenchReport
begin

text \<open>
  A verification of mini-net, an event-driven network library in C++, of the HTTP short-link service
  built on it, and of its load generator.

  \<^bold>\<open>The program.\<close> A base loop accepts connections and hands them in turn to the loops of a thread pool
  (\<open>EventLoop\<close>, \<open>EventLoopThread\<close>, \<open>EventLoopThreadPool\<close>); a loop waits on epoll through \<open>EpollPoller\<close> and
  dispatches to \<open>Channel\<close>s, runs timers and runs tasks queued by other threads. \<open>TcpServer\<close> keeps the
  connections, their read and write buffers (\<open>Buffer\<close>) and closes idle ones. \<open>HttpServer\<close> keeps one
  incremental \<open>HttpParser\<close> per connection, calls the handler for each request and sends the serialised
  response. The handler is \<open>ShortUrlApp\<close> over the tables of \<open>ShortUrlService\<close>. \<open>MemoryPool\<close>, \<open>ThreadPool\<close> and
  \<open>TimerWheel\<close> are library components of their own. \<open>bench/echo_bench.cc\<close> is a client that loads
  the server over many connections and counts the answers.

  \<^bold>\<open>Theories and sources\<close> (files under \<open>include/mini_net\<close>, \<open>src\<close> and \<open>bench\<close>). Definitions have the names of
  the C++ functions where possible; a class is a record, a method a function on it.
  \<^item> \<open>Prelude\<close>: characters and bytes, \<open>find\<close>, \<open>strtol\<close>, decimal output, hash maps (a locale with its
    laws, interpreted on association lists), shared lemmas. \<open>Messages\<close>: the texts of error answers.
  \<^item> \<open>Buffer\<close> (\<open>Buffer.h/.cc\<close>): the vector with two indexes; every sequence of operations behaves like a
    queue of bytes and stays in bounds.
  \<^item> \<open>HttpTypes\<close> (\<open>HttpTypes.h\<close>): requests, responses, serialisation and its framing.
  \<^item> \<open>HttpParser\<close>, \<open>HttpParser_Correct\<close> (\<open>HttpParser.h/.cc\<close>): the parser on a buffer; it refines a parser
    on the plain byte stream, does not depend on how the bytes are cut into reads, reads back
    well-formed requests, and keeps its limits.
  \<^item> \<open>ShortUrlService\<close>, \<open>ShortUrlApp\<close>: base 62 codes, the two tables and their invariant, JSON field
    extraction, validation and the routes; a created link redirects from then on.
  \<^item> \<open>TimerWheel\<close>, \<open>MemoryPool\<close>, \<open>ThreadPool\<close>: timers fire once and at their tick; blocks in use are
    distinct, over an explicit memory with the intrusive free list; every interleaving of the
    workers runs each task once and in order and lets the destructor end.
  \<^item> \<open>Channel\<close> (also \<open>EpollPoller\<close>), \<open>EventLoop\<close>, \<open>LoopThreads\<close> (\<open>EventLoopThread\<close>, \<open>EventLoopThreadPool\<close> and the
    interleaving of a loop with other threads): registration, timers, tasks; no queued task is lost,
    and when \<open>stop\<close> ends a loop that may block in \<open>epoll_wait\<close>, with the write to the wake-up descriptor as a
    step of its own.
  \<^item> \<open>TcpServer\<close>, \<open>TcpServer_Inv\<close>, \<open>TcpServer_Steps\<close>, \<open>TcpServer_Correct\<close>, \<open>TcpServer_Reuse\<close>: connections as objects in a
    store; the invariant of all reachable states for every message handler that keeps a contract (locales
    \<open>message_handler\<close> and \<open>tcp_client\<close>), relations that every handler respects (locales \<open>transport_relation\<close> and
    \<open>transport_client\<close>, interpreted for the event masks, for closed descriptors and for the pool), output in order, reading,
    closing, the idle sweep, and two runs in which a descriptor that was reused is hit by an old close or an old answer.
  \<^item> \<open>HttpServer\<close>, \<open>HttpServer_Correct\<close>: the message callback refines a pure function from the bytes of a
    connection to the responses; pipelining; independence of the cuts between reads; what a write
    error does.
  \<^item> \<open>ConnMemory\<close>: the connection objects in blocks of the pool, their deleter and destructor; an object has
    a block exactly while something refers to it, no poller keeps the channel of a freed object, and no block
    leaks (locale \<open>ref_handler\<close> extends the contract of the message handler).
  \<^item> \<open>Startup\<close> (\<open>main.cc\<close>, the start and the destructor of the servers, \<open>reportStats\<close>, \<open>Logger.h\<close>): what the start
    registers and the destructor undoes; where the destructor calls a loop that has ended its result is \<open>None\<close>.
  \<^item> \<open>Doubles\<close>: \<open>double\<close> as rational numbers with rounding to 53 bits after every operation, and \<open>%.kf\<close>;
    rounding is monotone, exact on small integers and has a relative error of at most \<open>2 ^ -53\<close>. The duration of the
    command line may also be NaN, infinite or minus zero.
  \<^item> \<open>BenchText\<close>, \<open>BenchClient\<close>, \<open>BenchMain\<close>, \<open>BenchReport\<close> (\<open>echo_bench.cc\<close>): command line, connections and event
    loop, main, and the figures of the report and of the JSON file; which sample each percentile is.
    \<open>BenchCount\<close>: the counters are right after any events and every request is accounted for; the
    handlers share the contract of the locale \<open>conn_handler\<close>. \<open>BenchEnd\<close>: a silent server ends the run
    (locale \<open>conn_pass\<close>, a pass over all connections). \<open>BenchWire\<close>: the responses of the server are
    read as what they are, and the comparison of echoed data.
  \<^item> This theory: the load generator against the server.

  \<^bold>\<open>Effects and bounds.\<close> Ids, counters, masks and clocks are words of their width. Sizes of and indexes into
  objects in memory (\<open>size_t\<close>) are natural numbers: no object has \<open>2 ^ 64\<close> bytes, so their sums do not wrap. Numbers
  that the code checks against a range are integers. System calls are arguments: the answers of \<open>send\<close>, \<open>recv\<close>,
  \<open>readv\<close>, \<open>accept4\<close>, \<open>epoll_ctl\<close> and \<open>epoll_wait\<close> are lists or functions over which the properties are
  quantified; where a list has ended, the answer is \<open>EAGAIN\<close>. No loop has fuel except those
  that the code bounds by a constant (\<open>kReadBudget\<close>, \<open>kWriteBudget\<close>); the search for a free code, which may
  not end, is a partial function, and it is proved to return while the table has room. Where the
  behaviour is undefined, the model says so and goes no further: the destructor that calls an ended loop (\<open>None\<close>), and the
  comparison of an echoed chunk past the end of the payload (the flag \<open>bn_overread\<close>, after which the read stops).

  \<^bold>\<open>Threads.\<close> \<open>ThreadPool\<close> and \<open>LoopThreads\<close> are interleavings of the regions that run under a lock, of the single
  writes to the flags and of the calls that block. The theories of \<open>TcpServer\<close> are coarser: a step is one whole handler of
  one loop (an accept, the dispatch of one event, one run of the queued tasks, one sweep) or one call of \<open>send\<close> or
  \<open>shutdown\<close>, in any order and in any loop. Interleavings inside such a handler are not covered, only what one handler
  leaves behind for the next, such as tasks in the queues of other loops and descriptors that are handed out again.

  \<^bold>\<open>Not modelled.\<close> Log lines other than their form; the locks of the HTTP shards, which one loop at a time uses for
  one connection; the fixed texts of the report, the usage text and the details of error messages of the load
  generator; socket options; the exponent range of \<open>double\<close>; tests, scripts and documents.
\<close>

section \<open>The load generator against the server\<close>

text \<open>The request of the load generator as a request text, and the options with which it is well formed.\<close>

definition bench_request :: "options \<Rightarrow> string \<Rightarrow> int \<Rightarrow> request_text" where
  "bench_request opt host i =
     (let body = expandPlaceholder (o_body opt) i
      in \<lparr>rt_method = o_method opt, rt_target = expandPlaceholder (o_path opt) i, rt_version = ''HTTP/1.1'',
          rt_headers = [(''Host'', host), (''User-Agent'', ''mini-net-echo_bench/1.0''), (''Accept'', ''*/*''), (''Connection'', ''keep-alive'')]
            @ (if body \<noteq> [] then [(''Content-Type'', ''application/json''), (''Content-Length'', show_nat (length body))] else []),
          rt_body = body\<rparr>)"

definition sendable :: "options \<Rightarrow> string \<Rightarrow> int \<Rightarrow> bool" where
  "sendable opt host i \<longleftrightarrow>
     wf_token (o_method opt) \<and> wf_token (expandPlaceholder (o_path opt) i) \<and> trim host = host \<and> LF \<notin> set host \<and>
     length (expandPlaceholder (o_body opt) i) \<le> kMaxBodyBytes \<and>
     length (buildHttpRequest opt host i) \<le> kMaxHeaderBytes + length (expandPlaceholder (o_body opt) i)"

lemma build_text: "buildHttpRequest opt host i = text_of (bench_request opt host i)"
  by (simp add: buildHttpRequest_def bench_request_def text_of_def head_text_def header_text_def Let_def)

lemma lower_bench_names:
  "lower ''Host'' = ''host''" "lower ''User-Agent'' = ''user-agent''" "lower ''Accept'' = ''accept''" "lower ''Connection'' = ''connection''"
  "lower ''Content-Type'' = ''content-type''" "lower ''Content-Length'' = ''content-length''" "lower (trim ''keep-alive'') = ''keep-alive''"
  by code_simp+

lemma bench_headers_wf:
  "wf_header (''User-Agent'', ''mini-net-echo_bench/1.0'')" "wf_header (''Accept'', ''*/*'')" "wf_header (''Connection'', ''keep-alive'')"
  "wf_header (''Content-Type'', ''application/json'')"
  by code_simp+

lemma wf_length_header: "wf_header (''Content-Length'', show_nat n)"
proof -
  have d: "isdigit c" if "c \<in> set (show_nat n)" for c using that show_nat_digits [of n] by blast
  have "show_nat n \<noteq> []" by simp
  then have "\<not> isspace (hd (show_nat n))" "\<not> isspace (last (show_nat n))" using d isdigit_not_space by (meson hd_in_set last_in_set)+
  then have "trim (show_nat n) = show_nat n" by (intro trim_id) simp_all
  moreover have "LF \<notin> set (show_nat n)" using d [of LF] by (auto simp: isdigit_def)
  moreover have "trim ''Content-Length'' = ''Content-Length''" by code_simp
  ultimately show ?thesis by (simp add: wf_header_def)
qed

lemma bench_request_wf:
  assumes "sendable opt host i"
  shows "wf_request (bench_request opt host i)" "rq_keep_alive (parsed (bench_request opt host i))"
proof -
  let ?r = "bench_request opt host i"
  have "trim ''Host'' = ''Host''" by code_simp
  then have "wf_header (''Host'', host)" using assms by (simp add: wf_header_def sendable_def)
  then have "list_all wf_header (rt_headers ?r)" using bench_headers_wf wf_length_header by (simp add: bench_request_def Let_def)
  moreover have "wf_body (rt_headers ?r) (rt_body ?r)"
    using assms by (cases "expandPlaceholder (o_body opt) i = []")
      (simp_all add: wf_body_def bench_request_def Let_def lower_keys_def lower_bench_names sendable_def)
  moreover have "length (head_text (rt_method ?r) (rt_target ?r) (rt_version ?r) (rt_headers ?r)) \<le> kMaxHeaderBytes"
    using assms by (simp add: sendable_def build_text text_of_def) (simp add: bench_request_def Let_def)
  ultimately show "wf_request ?r" using assms by (simp add: wf_request_def sendable_def) (simp add: bench_request_def Let_def)
  show "rq_keep_alive (parsed ?r)"
    by (simp add: parsed_def request_of_def bench_request_def Let_def lower_keys_def lower_bench_names)
qed


lemma responses_counted:
  assumes "fold onResponseComplete sts (b, c) = (b', c')"
  shows "booked b' = booked b + int (length sts) \<and> bc_done_req c' = bc_done_req c + int (length sts)"
  using assms
proof (induction sts arbitrary: b c)
  case (Cons st sts)
  obtain b1 c1 where o: "onResponseComplete st (b, c) = (b1, c1)" by fastforce
  have "booked b1 = booked b + 1 \<and> bc_done_req c1 = bc_done_req c + 1"
    using onResponseComplete_counts [of st "(b, c)"] o by simp
  then show ?case using Cons.IH [of b1 c1] Cons.prems o by simp
qed simp

definition readable :: "http_response \<Rightarrow> bool" where
  "readable r \<longleftrightarrow> 100 \<le> rs_status r \<and> rs_status r \<le> 599 \<and> plain_headers r \<and> int (length (rs_body r)) < 2 ^ 63"

text \<open>
  C12: The load generator against the server. Any number of copies of the load generator's request that
  arrive in one read on a new connection of the short-link server are all answered: the server hands
  one response per request to the transport, in order, and a connection of the load generator that
  has received these bytes counts exactly that many responses and has consumed its whole input.
\<close>

theorem bench_round_trip:
  assumes "serving e l f i (s, h)" "find_conn i h = None" "sendable opt host j"
    and "answers (Some (app_handler now)) (replicate k (parsed (bench_request opt host j))) (hs_app h) = (resps, a)" "list_all readable resps"
    and "onMessage (Some (app_handler now)) e f i (concat (replicate k (buildHttpRequest opt host j))) (s, h) = (s', h')"
    and "bc_in c = concat (map serialize resps)" "bc_in_off c = 0"
  shows "sent l f i (bc_in c) s s' \<and> hs_requests h' = hs_requests h + of_nat k \<and>
    (\<exists>b' c'. drainHttp (b, c) = (True, b', c') \<and> bn_ok b' + bn_bad_status b' + bn_failed b' = bn_ok b + bn_bad_status b + bn_failed b + int k \<and>
       bc_done_req c' = bc_done_req c + int k \<and> bc_in c' = [])"
proof -
  let ?r = "bench_request opt host j" and ?hd = "Some (app_handler now)"
  have wf: "list_all wf_request (replicate k ?r)" "list_all (\<lambda>r. rq_keep_alive (parsed r)) (replicate k ?r)"
    using bench_request_wf [OF assms(3)] by (auto simp: list_all_iff)
  have an: "answers ?hd (map parsed (replicate k ?r)) (hs_app h) = (resps, a)" using assms(4) by simp
  then have k: "length resps = k" using answers_length by fastforce
  obtain b' c' where f: "fold onResponseComplete (map rs_status resps) (b, c) = (b', c')" by fastforce
  have "drainHttp (b, c) = (True, b', c'\<lparr>bc_in := [], bc_in_off := 0\<rparr>)"
    using assms(5) by (intro drainHttp_responses [OF _ assms(7,8) f]) (simp add: list_all_iff readable_def)
  moreover have "sent l f i (concat (map serialize resps)) s s' \<and> hs_requests h' = hs_requests h + of_nat k"
    using pipeline_answered [OF assms(1,2) wf an, of s' h'] assms(6) by (simp add: build_text)
  ultimately show ?thesis using responses_counted [OF f] k assms(7) by (simp add: booked_def)
qed

definition healthz_opts :: options where
  "healthz_opts = default_options\<lparr>o_mode := ''http'', o_path := ''/healthz'', o_method := ''GET'', o_expect_status := [200]\<rparr>"

lemma healthz_sendable: "sendable healthz_opts ''127.0.0.1:8080'' 0"
proof -
  have "trim ''127.0.0.1:8080'' = ''127.0.0.1:8080''" by code_simp
  then show ?thesis
    by (simp add: sendable_def healthz_opts_def default_options_def wf_token_def isspace_def buildHttpRequest_def kMaxHeaderBytes_def)
qed

lemma healthz_readable:
  "answers (Some (app_handler now)) (replicate k (parsed (bench_request healthz_opts ''127.0.0.1:8080'' 0))) a = (resps, a') \<Longrightarrow> list_all readable resps"
proof (induction k arbitrary: a resps)
  case (Suc k)
  let ?rq = "parsed (bench_request healthz_opts ''127.0.0.1:8080'' 0)"
  have "rq_path ?rq = ''/healthz''" "rq_method ?rq = ''GET''"
    by (simp_all add: parsed_def request_of_def bench_request_def healthz_opts_def default_options_def)
  then obtain r where r: "answer (Some (app_handler now)) ?rq a = (r, a)" "rs_status r = 200" "rs_body r = ''ok''" "rs_extra_headers r = []"
      "rs_content_type r = ''text/plain; charset=utf-8''"
    by (simp add: answer_def app_handler_def handle_def new_HttpResponse_def)
  moreover have "readable r" using r by (simp add: readable_def plain_headers_def no_CR_headers_def)
  ultimately show ?case using Suc by (auto simp: Let_def split: prod.splits)
qed simp

lemma bench_round_trip_witness:
  "\<exists>resps a b' c'. answers (Some (app_handler 9)) (replicate 3 (parsed (bench_request healthz_opts ''127.0.0.1:8080'' 0))) (main_app 8080) = (resps, a) \<and>
     drainHttp (new_Bench healthz_opts True, new_client\<lparr>bc_in := concat (map serialize resps)\<rparr>) = (True, b', c') \<and> bc_done_req c' = 3"
proof -
  let ?w = "((fst sample_server)\<lparr>ts_sends := [Inr 5]\<rparr>, new_HttpServer (main_app 8080))"
  obtain resps a where a: "answers (Some (app_handler 9)) (replicate 3 (parsed (bench_request healthz_opts ''127.0.0.1:8080'' 0))) (main_app 8080) = (resps, a)"
    by fastforce
  obtain s' h' where o: "onMessage (Some (app_handler 9)) http_env 7 1 (concat (replicate 3 (buildHttpRequest healthz_opts ''127.0.0.1:8080'' 0))) ?w = (s', h')"
    by fastforce
  let ?c = "new_client\<lparr>bc_in := concat (map serialize resps)\<rparr>"
  have "serving http_env 0 7 1 ?w" by (rule sample_serving) (simp_all add: no_write_error_def)
  moreover have "find_conn 1 (new_HttpServer (main_app 8080)) = None" "hs_app (new_HttpServer (main_app 8080)) = main_app 8080"
    by (simp_all add: find_conn_def new_HttpServer_def)
  moreover have "bc_in ?c = concat (map serialize resps)" "bc_in_off ?c = 0" "bc_done_req ?c = 0" by (simp_all add: new_client_def)
  ultimately have "\<exists>b' c'. drainHttp (new_Bench healthz_opts True, ?c) = (True, b', c') \<and> bc_done_req c' = 3"
    using bench_round_trip [of http_env 0 7 1 "(fst sample_server)\<lparr>ts_sends := [Inr 5]\<rparr>" "new_HttpServer (main_app 8080)" healthz_opts "''127.0.0.1:8080''" 0 9 3 resps a s' h' ?c "new_Bench healthz_opts True"]
      healthz_sendable healthz_readable [OF a] a o by auto
  with a show ?thesis by blast
qed

end
